(* ===== verification/Prelude.thy ===== *)
theory Prelude
  imports Main "HOL-Library.Word"
begin

text \<open>
  The prelude of the development: the names of the machine types, the error values a kernel
  operation can end with, little-endian access to byte-addressed stores, and the address
  arithmetic of pages that every component shares.

  A byte store is a function from byte offsets to bytes. The same access functions serve the
  physical memory (offsets are physical addresses) and a disk block (offsets within the block).
  The C structures of the kernel are laid out in those stores with the offsets the AArch64 ABI
  gives them, so two structures that overlap in memory overlap in the model too.
\<close>

unbundle bit_operations_syntax

section \<open>Machine types\<close>

type_synonym byte = "8 word"
type_synonym u16 = "16 word"
type_synonym u32 = "32 word"
type_synonym u64 = "64 word"
type_synonym store = "nat \<Rightarrow> byte"

section \<open>Collections\<close>

named_theorems load_simps \<open>reading back what was stored, and frame rules for stores\<close>
named_theorems result_simps \<open>evaluation and inversion of results\<close>

section \<open>Errors\<close>

text \<open>
  What a kernel operation can end with instead of a value. \<open>Panic\<close> is a call of
  \<^verbatim>\<open>panic\<close>, which prints and never returns. \<open>NullDeref\<close> and \<open>OutOfBounds\<close> are accesses
  the C code makes through a null pointer or beyond an array, \<open>Overflow\<close> an overflow of a signed
  integer, \<open>Uninit\<close> a read of a variable
  that was never written. \<open>Hang\<close> is a loop that never leaves, \<open>Sleeps\<close> a call of
  \<^verbatim>\<open>sleep\<close> that gives the processor away before the operation is done.
\<close>

datatype kerr = Panic string | NullDeref | OutOfBounds | Overflow | Uninit | Hang | Sleeps

type_synonym 'a result = "kerr + 'a"

fun bindR :: "'a result \<Rightarrow> ('a \<Rightarrow> 'b result) \<Rightarrow> 'b result" where
  "bindR (Inl e) f = Inl e"
| "bindR (Inr x) f = f x"

lemma bindR_eq_Inr [result_simps]:
  "bindR m f = Inr y \<longleftrightarrow> (\<exists>x. m = Inr x \<and> f x = Inr y)"
  by (cases m) auto

lemma bindR_eq_Inl [result_simps]:
  "bindR m f = Inl e \<longleftrightarrow> m = Inl e \<or> (\<exists>x. m = Inr x \<and> f x = Inl e)"
  by (cases m) auto

lemma bindR_assoc: "bindR (bindR m f) g = bindR m (\<lambda>x. bindR (f x) g)"
  by (cases m) auto

lemma bindR_cong [fundef_cong]:
  "m = m' \<Longrightarrow> (\<And>x. m' = Inr x \<Longrightarrow> f x = f' x) \<Longrightarrow> bindR m f = bindR m' f'"
  by (cases m) auto

section \<open>Little-endian access to a byte store\<close>

text \<open>\<open>load n d a\<close> reads \<open>n\<close> bytes at offset \<open>a\<close>, the lowest first.\<close>

fun load :: "nat \<Rightarrow> store \<Rightarrow> nat \<Rightarrow> nat" where
  "load 0 d a = 0"
| "load (Suc n) d a = unat (d a) + 256 * load n d (Suc a)"

fun store_le :: "nat \<Rightarrow> nat \<Rightarrow> store \<Rightarrow> nat \<Rightarrow> store" where
  "store_le 0 v d a = d"
| "store_le (Suc n) v d a = (store_le n (v div 256) d (Suc a))(a := word_of_nat (v mod 256))"

definition load16 :: "store \<Rightarrow> nat \<Rightarrow> u16" where
  "load16 d a = word_of_nat (load 2 d a)"

definition load32 :: "store \<Rightarrow> nat \<Rightarrow> u32" where
  "load32 d a = word_of_nat (load 4 d a)"

definition load64 :: "store \<Rightarrow> nat \<Rightarrow> u64" where
  "load64 d a = word_of_nat (load 8 d a)"

definition store16 :: "store \<Rightarrow> nat \<Rightarrow> u16 \<Rightarrow> store" where
  "store16 d a v = store_le 2 (unat v) d a"

definition store32 :: "store \<Rightarrow> nat \<Rightarrow> u32 \<Rightarrow> store" where
  "store32 d a v = store_le 4 (unat v) d a"

definition store64 :: "store \<Rightarrow> nat \<Rightarrow> u64 \<Rightarrow> store" where
  "store64 d a v = store_le 8 (unat v) d a"

lemma store_le_other: "b < a \<or> a + n \<le> b \<Longrightarrow> store_le n v d a b = d b"
  by (induction n v d a rule: store_le.induct) auto

lemma store_le_zero: "i < n \<Longrightarrow> store_le n 0 d a (a + i) = 0"
proof (induction n arbitrary: a i)
  case (Suc n)
  then show ?case using Suc.IH [of "i - 1" "Suc a"] by (cases i) auto
qed simp

lemma load_cong: "(\<And>i. a \<le> i \<Longrightarrow> i < a + n \<Longrightarrow> d i = d' i) \<Longrightarrow> load n d a = load n d' a"
  by (induction n arbitrary: a) auto

lemma load_store_le_same: "load n (store_le n v d a) a = v mod 256 ^ n"
proof (induction n arbitrary: v d a)
  case 0
  then show ?case by simp
next
  case (Suc n)
  have "load n (store_le (Suc n) v d a) (Suc a) = load n (store_le n (v div 256) d (Suc a)) (Suc a)"
    by (rule load_cong) simp
  also have "\<dots> = v div 256 mod 256 ^ n" by (rule Suc.IH)
  finally have "load n (store_le (Suc n) v d a) (Suc a) = v div 256 mod 256 ^ n" .
  moreover have "unat (store_le (Suc n) v d a a) = v mod 256"
    by (simp add: unat_of_nat)
  ultimately have "load (Suc n) (store_le (Suc n) v d a) a = v mod 256 + 256 * (v div 256 mod 256 ^ n)"
    by (simp only: load.simps)
  also have "\<dots> = v mod 256 ^ Suc n" by (simp add: mod_mult2_eq)
  finally show ?case .
qed

lemma load_store_le_other:
  "a + n \<le> b \<or> b + m \<le> a \<Longrightarrow> load n (store_le m v d b) a = load n d a"
  by (rule load_cong) (auto intro: store_le_other)

lemma store_le_load: "store_le n (load n d a) d a = d"
proof (induction n arbitrary: a)
  case 0
  then show ?case by simp
next
  case (Suc n)
  have lt: "unat (d a) < 256" using unsigned_less [of "d a"] by simp
  then have "(unat (d a) + 256 * load n d (Suc a)) div 256 = load n d (Suc a)"
    by simp
  moreover have "(unat (d a) + 256 * load n d (Suc a)) mod 256 = unat (d a)"
    using lt by simp
  ultimately show ?case using Suc.IH by simp
qed

lemma word_of_nat_mod: "unat (v :: 'a::len word) < m \<Longrightarrow> word_of_nat (unat v mod m) = v"
  by simp

lemma unat_bounds:
  "unat (a :: byte) < 256" "unat (b :: u16) < 65536" "unat (c :: u32) < 4294967296"
  "unat (x :: u64) < 18446744073709551616"
proof -
  show "unat (a :: byte) < 256" "unat (b :: u16) < 65536" "unat (c :: u32) < 4294967296"
    "unat (x :: u64) < 18446744073709551616"
    using unsigned_less [where w = a] unsigned_less [where w = b] unsigned_less [where w = c]
      unsigned_less [where w = x] by simp_all
qed

lemma load16_store16 [load_simps, simp]: "load16 (store16 d a v) a = v"
  by (simp add: load16_def store16_def load_store_le_same word_of_nat_mod unat_bounds)

lemma load32_store32 [load_simps, simp]: "load32 (store32 d a v) a = v"
  by (simp add: load32_def store32_def load_store_le_same word_of_nat_mod unat_bounds)

lemma load64_store64 [load_simps, simp]: "load64 (store64 d a v) a = v"
  by (simp add: load64_def store64_def load_store_le_same word_of_nat_mod unat_bounds)

lemma store16_other [load_simps]: "b < a \<or> a + 2 \<le> b \<Longrightarrow> store16 d a v b = d b"
  by (simp add: store16_def store_le_other)

lemma store32_other [load_simps]: "b < a \<or> a + 4 \<le> b \<Longrightarrow> store32 d a v b = d b"
  by (simp add: store32_def store_le_other)

lemma store64_other [load_simps]: "b < a \<or> a + 8 \<le> b \<Longrightarrow> store64 d a v b = d b"
  by (simp add: store64_def store_le_other)

lemma load16_cong: "(\<And>i. a \<le> i \<Longrightarrow> i < a + 2 \<Longrightarrow> d i = d' i) \<Longrightarrow> load16 d a = load16 d' a"
  using load_cong [of a 2 d d'] by (simp add: load16_def)

lemma load32_cong: "(\<And>i. a \<le> i \<Longrightarrow> i < a + 4 \<Longrightarrow> d i = d' i) \<Longrightarrow> load32 d a = load32 d' a"
  using load_cong [of a 4 d d'] by (simp add: load32_def)

lemma load64_cong: "(\<And>i. a \<le> i \<Longrightarrow> i < a + 8 \<Longrightarrow> d i = d' i) \<Longrightarrow> load64 d a = load64 d' a"
  using load_cong [of a 8 d d'] by (simp add: load64_def)

lemma load_store_disjoint [load_simps]:
  "a + 2 \<le> b \<or> b + 2 \<le> a \<Longrightarrow> load16 (store16 d b v16) a = load16 d a"
  "a + 2 \<le> b \<or> b + 4 \<le> a \<Longrightarrow> load16 (store32 d b v32) a = load16 d a"
  "a + 4 \<le> b \<or> b + 2 \<le> a \<Longrightarrow> load32 (store16 d b v16) a = load32 d a"
  "a + 4 \<le> b \<or> b + 4 \<le> a \<Longrightarrow> load32 (store32 d b v32) a = load32 d a"
  "a + 4 \<le> b \<or> b + 8 \<le> a \<Longrightarrow> load32 (store64 d b v64) a = load32 d a"
  "a + 8 \<le> b \<or> b + 4 \<le> a \<Longrightarrow> load64 (store32 d b v32) a = load64 d a"
  "a + 8 \<le> b \<or> b + 8 \<le> a \<Longrightarrow> load64 (store64 d b v64) a = load64 d a"
  by (auto simp: load16_def load32_def load64_def store16_def store32_def store64_def
      load_store_le_other)

lemma load_zero [load_simps, simp]: "load n (\<lambda>_. 0) a = 0"
  by (induction n arbitrary: a) auto

lemma load_zeros [load_simps, simp]:
  "load16 (\<lambda>_. 0) a = 0" "load32 (\<lambda>_. 0) a = 0" "load64 (\<lambda>_. 0) a = 0"
  by (simp_all add: load16_def load32_def load64_def)

text \<open>Byte by byte, for the evaluation of concrete stores.\<close>

lemma load16_bytes: "load16 d a = word_of_nat (unat (d a) + 256 * unat (d (a + 1)))"
proof -
  have "2 = Suc (Suc 0)" by simp
  then show ?thesis unfolding load16_def by (simp only: load.simps) simp
qed

lemma load32_bytes: "load32 d a = word_of_nat (unat (d a) + 256 * (unat (d (a + 1)) +
    256 * (unat (d (a + 2)) + 256 * unat (d (a + 3)))))"
proof -
  have "4 = Suc (Suc (Suc (Suc 0)))" by simp
  moreover have "a + 2 = Suc (Suc a)" "a + 3 = Suc (Suc (Suc a))" "a + 1 = Suc a" by simp_all
  ultimately have "load 4 d a = unat (d a) + 256 * (unat (d (a + 1)) +
    256 * (unat (d (a + 2)) + 256 * unat (d (a + 3))))"
    by (simp only: load.simps mult_0_right add_0_right)
  then show ?thesis by (simp only: load32_def)
qed

lemma load_mod: "load n d a mod 256 = (if n = 0 then 0 else unat (d a))"
  using unat_bounds(1) [of "d a"] by (cases n) auto

section \<open>Pages\<close>

text \<open>The memory layout of \<^verbatim>\<open>include/memlayout.h\<close>.\<close>

abbreviation (input) PGSIZE :: u64 where "PGSIZE \<equiv> 4096"
abbreviation (input) KERNBASE :: u64 where "KERNBASE \<equiv> 0x80000"
abbreviation (input) PHYSTOP :: u64 where "PHYSTOP \<equiv> KERNBASE + 128 * 1024 * 1024"
abbreviation (input) MAXVA :: u64 where "MAXVA \<equiv> 0x4000000000"

definition PGROUNDUP :: "u64 \<Rightarrow> u64" where
  "PGROUNDUP sz = (sz + PGSIZE - 1) AND NOT (PGSIZE - 1)"

definition PGROUNDDOWN :: "u64 \<Rightarrow> u64" where
  "PGROUNDDOWN sz = sz AND NOT (PGSIZE - 1)"

lemma word_mod_0_iff: "(x :: u64) mod PGSIZE = 0 \<longleftrightarrow> unat x mod 4096 = 0"
  by (simp add: word_unat_eq_iff unat_mod)

lemma and_not_mask12: "unat (x AND - 4096 :: u64) = unat x div 4096 * 4096"
proof -
  have m: "(- 4096 :: u64) = NOT (mask 12)"
    by (simp add: mask_eq_exp_minus_1)
  have "x AND - 4096 = push_bit 12 (drop_bit 12 x)"
    unfolding m by (rule bit_word_eqI) (auto simp: bit_simps)
  then have "x AND - 4096 = x div 4096 * 4096"
    by (simp add: push_bit_eq_mult drop_bit_eq_div)
  moreover have "unat x div 4096 * 4096 < 18446744073709551616"
    using unat_bounds(4) [of x] by (rule order.strict_trans1 [OF div_times_less_eq_dividend])
  ultimately show ?thesis by (simp add: unat_word_ariths unat_div)
qed

lemma unat_PGROUNDDOWN: "unat (PGROUNDDOWN x) = unat x div 4096 * 4096"
  by (simp add: PGROUNDDOWN_def and_not_mask12)

lemma unat_PGROUNDUP:
  "unat x + 4095 < 2 ^ 64 \<Longrightarrow> unat (PGROUNDUP x) = (unat x + 4095) div 4096 * 4096"
proof -
  assume a: "unat x + 4095 < 2 ^ 64"
  have "unat (x + 4095) = unat x + 4095"
    using a by (simp add: unat_word_ariths)
  moreover have "PGROUNDUP x = (x + 4095) AND - 4096"
    by (simp add: PGROUNDUP_def add.commute)
  ultimately show ?thesis by (simp only: and_not_mask12)
qed

lemma nth_update_iff: "i < length xs \<Longrightarrow> xs[p := x] ! i = (if i = p then x else xs ! i)"
  by simp

lemma sint_of_nat32: "n < 2147483648 \<Longrightarrow> sint (of_nat n :: u32) = int n"
  by (simp add: signed_of_nat signed_take_bit_int_eq_self)

section \<open>Searching a table\<close>

text \<open>
  The loop \<^verbatim>\<open>for (i = 0; i < N; i++) if (P(table[i])) return i;\<close> over the rest of a table, \<open>i\<close> being the
  index of its first entry.
\<close>

fun first_index :: "('a \<Rightarrow> bool) \<Rightarrow> nat \<Rightarrow> 'a list \<Rightarrow> nat option" where
  "first_index P i [] = None"
| "first_index P i (x # xs) = (if P x then Some i else first_index P (Suc i) xs)"

lemma first_index_Some:
  "first_index P i xs = Some j \<longleftrightarrow>
     i \<le> j \<and> j - i < length xs \<and> P (xs ! (j - i)) \<and> (\<forall>n < j - i. \<not> P (xs ! n))"
proof (induction P i xs rule: first_index.induct)
  case (2 P i x xs)
  show ?case
  proof (cases "i < j")
    case True
    then have "j - i = Suc (j - Suc i)" by arith
    with True 2 show ?thesis by (auto simp: All_less_Suc2)
  next
    case False
    then show ?thesis using 2 by (cases "j = i") auto
  qed
qed simp

lemma first_index_None: "first_index P i xs = None \<longleftrightarrow> (\<forall>x \<in> set xs. \<not> P x)"
  by (induction P i xs rule: first_index.induct) auto

section \<open>Copying\<close>

text \<open>The loop \<^verbatim>\<open>while (n-- > 0) *d++ = *s++;\<close> within one memory, from \<open>a\<close> to \<open>b\<close>.\<close>

fun copy_mem :: "nat \<Rightarrow> nat \<Rightarrow> nat \<Rightarrow> store \<Rightarrow> store" where
  "copy_mem 0 a b m = m"
| "copy_mem (Suc n) a b m = copy_mem n (Suc a) (Suc b) (m(b := m a))"

lemma copy_mem_at:
  "a + n \<le> b \<or> b + n \<le> a \<Longrightarrow> copy_mem n a b m i = (if b \<le> i \<and> i < b + n then m (a + (i - b)) else m i)"
proof (induction n arbitrary: a b m)
  case (Suc n)
  show ?case
  proof (cases "b < i")
    case True
    then have "Suc a + (i - Suc b) = a + (i - b)" by arith
    with True Suc show ?thesis by auto
  qed (use Suc in auto)
qed auto

lemma copy_mem_other: "i < b \<or> b + n \<le> i \<Longrightarrow> copy_mem n a b m i = m i"
  by (induction n arbitrary: a b m) auto

text \<open>\<open>blit n d b e a\<close>: the store \<open>e\<close> with \<open>n\<close> bytes at \<open>a\<close> taken from \<open>b\<close> in \<open>d\<close>.\<close>

definition blit :: "nat \<Rightarrow> store \<Rightarrow> nat \<Rightarrow> store \<Rightarrow> nat \<Rightarrow> store" where
  "blit n d b e a = (\<lambda>i. if a \<le> i \<and> i < a + n then d (b + (i - a)) else e i)"

lemma blit_0 [simp]: "blit 0 d b e a = e"
  by (rule ext) (auto simp: blit_def)

lemma blit_blit: "blit n d (b + m) (blit m d b e a) (a + m) = blit (m + n) d b e a"
  by (rule ext) (auto simp: blit_def not_less)

lemma store_le_loaded: "store_le n (load n d b) e a = blit n d b e a"
proof (induction n arbitrary: a b e)
  case (Suc n)
  have "unat (d b) < 256" using unat_bounds(1) by simp
  then have dv: "load (Suc n) d b div 256 = load n d (Suc b)" and md: "load (Suc n) d b mod 256 = unat (d b)"
    by simp_all
  have "store_le (Suc n) (load (Suc n) d b) e a = (blit n d (Suc b) e (Suc a))(a := d b)"
    by (simp only: store_le.simps dv md Suc.IH) simp
  also have "\<dots> = blit (Suc n) d b e a"
  proof
    fix i
    show "((blit n d (Suc b) e (Suc a))(a := d b)) i = blit (Suc n) d b e a i"
    proof (cases "a < i")
      case True
      then have "Suc b + (i - Suc a) = b + (i - a)" by arith
      with True show ?thesis by (auto simp: blit_def)
    qed (auto simp: blit_def)
  qed
  finally show ?case .
qed simp

lemma blit_other: "i < a \<or> a + n \<le> i \<Longrightarrow> blit n d b e a i = e i"
  by (auto simp: blit_def)

lemma load32_range: "load 4 d b < 4294967296"
proof -
  have "load n d b < 256 ^ n" for n
  proof (induction n arbitrary: b)
    case (Suc n)
    have "unat (d b) < 256" "load n d (Suc b) < 256 ^ n" using unat_bounds(1) Suc.IH by simp_all
    then show ?case by simp
  qed simp
  from this [of 4] show ?thesis by simp
qed

lemma store32_load32: "store32 e a (load32 d b) = blit 4 d b e a"
  using load32_range [of d b] by (simp add: store32_def load32_def unat_of_nat store_le_loaded)

section \<open>State machines\<close>

text \<open>The states of a machine: those it starts in, and those its steps lead to.\<close>

inductive reach :: "('s \<Rightarrow> bool) \<Rightarrow> ('s \<Rightarrow> 's \<Rightarrow> bool) \<Rightarrow> 's \<Rightarrow> bool" for start step where
  start: "start s \<Longrightarrow> reach start step s"
| step: "reach start step s \<Longrightarrow> step s s' \<Longrightarrow> reach start step s'"

text \<open>A machine with the number of steps it has made.\<close>

inductive counted :: "('s \<Rightarrow> 's \<Rightarrow> bool) \<Rightarrow> nat \<times> 's \<Rightarrow> nat \<times> 's \<Rightarrow> bool" for step where
  tick: "step s s' \<Longrightarrow> counted step (n, s) (Suc n, s')"

inductive_simps counted_iff: "counted step (n, s) t"

text \<open>A component that is a machine promises an invariant of its steps; what is proved here is that its states have it.\<close>

locale step_invariant =
  fixes start :: "'s \<Rightarrow> bool" and step :: "'s \<Rightarrow> 's \<Rightarrow> bool" and inv :: "'s \<Rightarrow> bool"
  assumes start_inv: "start s \<Longrightarrow> inv s"
    and step_inv: "inv s \<Longrightarrow> step s s' \<Longrightarrow> inv s'"
begin

lemma reach_inv: "reach start step s \<Longrightarrow> inv s"
  by (induction rule: reach.induct) (auto intro: start_inv step_inv)

text \<open>What the invariant implies holds for ever after.\<close>

lemma reach_after: "reach start step s \<Longrightarrow> step\<^sup>*\<^sup>* s s' \<Longrightarrow> (\<And>t. inv t \<Longrightarrow> P t) \<Longrightarrow> P s'"
proof -
  assume r: "reach start step s" and "step\<^sup>*\<^sup>* s s'" and P: "\<And>t. inv t \<Longrightarrow> P t"
  from this(2) have "reach start step s'" by induction (auto intro: r reach.step)
  then show ?thesis by (intro P reach_inv)
qed

end

end
