(* ===== verification/Kalloc.thy ===== *)
theory Kalloc
  imports Prelude
begin

text \<open>
  The physical page allocator, \<^verbatim>\<open>kernel/kalloc.c\<close>. The free pages form a linked list that is
  kept in the pages themselves: the first eight bytes of a free page are \<^verbatim>\<open>struct run\<close>, the
  address of the next free page, and \<open>freelist\<close> is \<^verbatim>\<open>kmem.freelist\<close>. The state is the record
  \<open>pmem\<close>, the physical memory and the head of the list; the records of the later components
  extend it. The linker symbol \<^verbatim>\<open>end\<close> is the parameter \<open>kend\<close>.

  The lemmas relate the linked list to a list of pages (\<open>kmem_inv\<close>), state the contract of the
  allocator as the locale \<open>page_allocator\<close> and interpret it on \<open>kalloc\<close> and \<open>kfree\<close>, and
  show that \<open>kinit\<close> leaves every page between \<^verbatim>\<open>end\<close> and \<^verbatim>\<open>PHYSTOP\<close> on the list, once.
\<close>

section \<open>State and operations\<close>

record pmem =
  mem :: store
  freelist :: u64

definition kfree :: "u64 \<Rightarrow> u64 \<Rightarrow> 'a pmem_scheme \<Rightarrow> 'a pmem_scheme result" where
  "kfree kend pa k =
     (if pa mod PGSIZE \<noteq> 0 \<or> pa < kend \<or> PHYSTOP \<le> pa then Inl (Panic ''kfree'')
      else Inr (k\<lparr>mem := store64 (mem k) (unat pa) (freelist k), freelist := pa\<rparr>))"

definition kalloc :: "'a pmem_scheme \<Rightarrow> u64 \<times> 'a pmem_scheme" where
  "kalloc k =
     (let r = freelist k
      in (r, if r \<noteq> 0 then k\<lparr>freelist := load64 (mem k) (unat r)\<rparr> else k))"

text \<open>The loop of \<^verbatim>\<open>freerange\<close>: it ends because \<open>kfree\<close> panics at or above \<^verbatim>\<open>PHYSTOP\<close>.\<close>

function freerange_loop ::
  "u64 \<Rightarrow> u64 \<Rightarrow> nat \<Rightarrow> u64 \<Rightarrow> 'a pmem_scheme \<Rightarrow> (nat \<times> u64 \<times> 'a pmem_scheme) result" where
  "freerange_loop kend pa_end i p k =
     (if p + PGSIZE \<le> pa_end
      then bindR (kfree kend p k) (\<lambda>k'. freerange_loop kend pa_end (Suc i) (p + PGSIZE) k')
      else Inr (i, p, k))"
  by pat_completeness auto
termination
proof (relation "measure (\<lambda>(kend, pa_end, i, p, k). unat PHYSTOP - unat p)", goal_cases)
  case (2 kend pa_end i p k k')
  then have "p < PHYSTOP" by (auto simp: kfree_def split: if_splits)
  then have "unat p < unat PHYSTOP" by (simp add: word_less_nat_alt)
  moreover from this have "unat (p + PGSIZE) = unat p + 4096"
    by (simp add: unat_word_ariths)
  ultimately show ?case by simp
qed simp

definition freerange ::
  "u64 \<Rightarrow> u64 \<Rightarrow> u64 \<Rightarrow> 'a pmem_scheme \<Rightarrow> (nat \<times> u64 \<times> 'a pmem_scheme) result" where
  "freerange kend pa_start pa_end k = freerange_loop kend pa_end 0 (PGROUNDUP pa_start) k"

definition kinit :: "u64 \<Rightarrow> 'a pmem_scheme \<Rightarrow> 'a pmem_scheme result" where
  "kinit kend k = bindR (freerange kend kend PHYSTOP k) (\<lambda>(i, p, k'). Inr k')"

text \<open>
  The counting loop of \<^verbatim>\<open>countkmem\<close> reads \<open>r->next\<close> before it has looked at \<open>r\<close>. It ends
  only when the list does, so the loop is partial.
\<close>

partial_function (option) countkmem_loop :: "store \<Rightarrow> nat \<Rightarrow> u64 \<Rightarrow> nat result option" where
  "countkmem_loop m i r =
     (if r = 0 then Some (Inl NullDeref)
      else if load64 m (unat r) \<noteq> 0 then countkmem_loop m (Suc i) (load64 m (unat r))
      else Some (Inr i))"

definition countkmem :: "'a pmem_scheme \<Rightarrow> nat result option" where
  "countkmem k = countkmem_loop (mem k) 0 (freelist k)"

declare freerange_loop.simps [simp del]

section \<open>The free list as a list of pages\<close>

definition page_ok :: "u64 \<Rightarrow> u64 \<Rightarrow> bool" where
  "page_ok kend a \<longleftrightarrow> unat a mod 4096 = 0 \<and> a \<noteq> 0 \<and> kend \<le> a \<and> a < PHYSTOP"

primrec flist :: "store \<Rightarrow> u64 \<Rightarrow> u64 list \<Rightarrow> bool" where
  "flist m p [] \<longleftrightarrow> p = 0"
| "flist m p (a # as) \<longleftrightarrow> p = a \<and> a \<noteq> 0 \<and> flist m (load64 m (unat a)) as"

definition kmem_inv :: "u64 \<Rightarrow> 'a pmem_scheme \<Rightarrow> u64 list \<Rightarrow> bool" where
  "kmem_inv kend k xs \<longleftrightarrow>
     flist (mem k) (freelist k) xs \<and> distinct xs \<and> (\<forall>a \<in> set xs. page_ok kend a)"

lemma flist_unique: "flist m p xs \<Longrightarrow> flist m p ys \<Longrightarrow> xs = ys"
proof (induction xs arbitrary: p ys)
  case Nil
  then show ?case by (cases ys) auto
next
  case (Cons a xs)
  then show ?case by (cases ys) auto
qed

lemma flist_cong:
  "(\<And>a. a \<in> set xs \<Longrightarrow> load64 m' (unat a) = load64 m (unat a)) \<Longrightarrow> flist m p xs \<Longrightarrow> flist m' p xs"
  by (induction xs arbitrary: p) auto

lemma page_ok_unat:
  "page_ok kend a \<Longrightarrow> unat a mod 4096 = 0 \<and> unat a < 134742016 \<and> 0 < unat a \<and> unat kend \<le> unat a"
  by (simp add: page_ok_def word_less_nat_alt word_le_nat_alt unat_gt_0)

lemma pages_apart:
  "(a :: nat) mod 4096 = 0 \<Longrightarrow> b mod 4096 = 0 \<Longrightarrow> a \<noteq> b \<Longrightarrow> a + 4096 \<le> b \<or> b + 4096 \<le> a"
proof -
  assume "a mod 4096 = 0" "b mod 4096 = 0" and ne: "a \<noteq> b"
  then obtain q r where q: "a = 4096 * q" and r: "b = 4096 * r"
    by (auto simp: mod_eq_0_iff_dvd elim!: dvdE)
  with ne have "Suc q \<le> r \<or> Suc r \<le> q" by auto
  then show ?thesis using q r by linarith
qed

lemma page_ok_apart:
  "page_ok kend a \<Longrightarrow> page_ok kend b \<Longrightarrow> a \<noteq> b \<Longrightarrow>
    unat a + 4096 \<le> unat b \<or> unat b + 4096 \<le> unat a"
  using page_ok_unat [of kend a] page_ok_unat [of kend b]
  by (intro pages_apart) (auto simp: word_unat_eq_iff)

text \<open>Writing into a page that is not free leaves the free list alone.\<close>

lemma kmem_inv_frame:
  assumes inv: "kmem_inv kend k xs" and p: "page_ok kend p" "p \<notin> set xs"
    and same: "\<And>i. i < unat p \<or> unat p + 4096 \<le> i \<Longrightarrow> mem k' i = mem k i"
    and fl: "freelist k' = freelist k"
  shows "kmem_inv kend k' xs"
proof -
  have "load64 (mem k') (unat a) = load64 (mem k) (unat a)" if a: "a \<in> set xs" for a
  proof (rule load64_cong)
    fix i assume i: "unat a \<le> i" "i < unat a + 8"
    have "unat a + 4096 \<le> unat p \<or> unat p + 4096 \<le> unat a"
      using inv p a by (intro page_ok_apart) (auto simp: kmem_inv_def)
    with i show "mem k' i = mem k i" by (intro same) auto
  qed
  then have "flist (mem k') (freelist k) xs"
    using inv by (auto simp: kmem_inv_def intro: flist_cong)
  with inv fl show ?thesis by (simp add: kmem_inv_def)
qed

section \<open>The contract of the allocator\<close>

locale page_allocator =
  fixes alloc :: "'s \<Rightarrow> u64 \<times> 's"
    and free :: "u64 \<Rightarrow> 's \<Rightarrow> 's result"
    and pages :: "'s \<Rightarrow> u64 list \<Rightarrow> bool"
    and valid :: "u64 \<Rightarrow> bool"
  assumes alloc_none: "pages s [] \<Longrightarrow> alloc s = (0, s)"
    and alloc_some: "pages s (a # as) \<Longrightarrow> fst (alloc s) = a \<and> pages (snd (alloc s)) as"
    and free_some: "pages s as \<Longrightarrow> valid a \<Longrightarrow> a \<notin> set as \<Longrightarrow>
      \<exists>s'. free a s = Inr s' \<and> pages s' (a # as)"
    and free_error: "\<not> valid a \<Longrightarrow> a \<noteq> 0 \<Longrightarrow> \<exists>e. free a s = Inl e"
    and pages_sound: "pages s as \<Longrightarrow> distinct as \<and> (\<forall>a \<in> set as. valid a \<and> a \<noteq> 0)"
begin

lemma alloc_null_iff: "pages s as \<Longrightarrow> fst (alloc s) = 0 \<longleftrightarrow> as = []"
  using alloc_none [of s] alloc_some [of s] pages_sound [of s] by (cases as) auto

lemma alloc_twice_distinct:
  assumes "pages s as" and "alloc s = (a, s1)" and "alloc s1 = (b, s2)" and "a \<noteq> 0"
  shows "a \<noteq> b \<and> valid a \<and> (b = 0 \<or> valid b) \<and> pages s2 (drop 2 as)"
proof -
  obtain as' where as: "as = a # as'" and s1: "pages s1 as'"
    using assms(1,2,4) alloc_none [of s] alloc_some [of s] by (cases as) auto
  show ?thesis
  proof (cases as')
    case Nil
    with s1 assms(3) have "b = 0" "s2 = s1" using alloc_none [of s1] by auto
    with assms(4) pages_sound [OF assms(1)] as Nil s1 show ?thesis by auto
  next
    case (Cons c cs)
    with s1 assms(3) have "b = c" "pages s2 cs" using alloc_some [of s1 c cs] by auto
    with pages_sound [OF assms(1)] as Cons show ?thesis by auto
  qed
qed

lemma free_then_alloc:
  assumes "pages s as" and "valid a" and "a \<notin> set as"
  shows "\<exists>s1 s2. free a s = Inr s1 \<and> alloc s1 = (a, s2) \<and> pages s2 as"
  using free_some [OF assms] alloc_some by (metis prod.collapse)

end

lemma kfree_cases: "kfree kend a k =
  (if unat a mod 4096 \<noteq> 0 \<or> a < kend \<or> PHYSTOP \<le> a then Inl (Panic ''kfree'')
   else Inr (k\<lparr>mem := store64 (mem k) (unat a) (freelist k), freelist := a\<rparr>))"
  unfolding kfree_def word_mod_0_iff by (rule refl)

lemma kfree_ok: "page_ok kend a \<Longrightarrow> kfree kend a k =
  Inr (k\<lparr>mem := store64 (mem k) (unat a) (freelist k), freelist := a\<rparr>)"
  by (auto simp: kfree_cases page_ok_def)

lemma kfree_pages:
  assumes inv: "kmem_inv kend k as" and a: "page_ok kend a" "a \<notin> set as"
  shows "\<exists>k'. kfree kend a k = Inr k' \<and> kmem_inv kend k' (a # as)"
proof -
  let ?m = "store64 (mem k) (unat a) (freelist k)"
  have "kmem_inv kend (k\<lparr>mem := ?m\<rparr>) as"
    by (rule kmem_inv_frame [OF inv a]) (auto simp: load_simps)
  with a show ?thesis by (auto simp: kfree_ok kmem_inv_def page_ok_def)
qed

lemma kalloc_pages:
  "kmem_inv kend k (a # as) \<Longrightarrow> fst (kalloc k) = a \<and> kmem_inv kend (snd (kalloc k)) as"
  by (auto simp: kalloc_def kmem_inv_def Let_def)

lemma kalloc_Cons:
  assumes "kmem_inv kend k (a # as)"
  obtains k1 where "kalloc k = (a, k1)" and "kmem_inv kend k1 as" and "mem k1 = mem k"
    and "pmem.more k1 = pmem.more k"
proof
  show "kalloc k = (a, snd (kalloc k))" using kalloc_pages [OF assms] by (metis prod.collapse)
  show "kmem_inv kend (snd (kalloc k)) as" using kalloc_pages [OF assms] by simp
qed (simp_all add: kalloc_def Let_def)

interpretation kpages: page_allocator kalloc "kfree kend" "kmem_inv kend" "page_ok kend" for kend
proof (unfold_locales, goal_cases)
  case (1 s)
  then show ?case by (simp add: kalloc_def kmem_inv_def)
next
  case (2 s a as)
  then show ?case by (rule kalloc_pages)
next
  case (3 s as a)
  then show ?case by (rule kfree_pages)
next
  case (4 a s)
  then show ?case by (auto simp: kfree_cases page_ok_def)
next
  case (5 s as)
  then show ?case by (auto simp: kmem_inv_def page_ok_def)
qed

section \<open>Initialisation\<close>

lemma page_ok_below_step:
  assumes "page_ok kend p"
  shows "{a. page_ok kend a \<and> a < p + PGSIZE} = insert p {a. page_ok kend a \<and> a < p}"
proof -
  have p: "unat (p + PGSIZE) = unat p + 4096"
    using page_ok_unat [OF assms] by (simp add: unat_word_ariths)
  have "page_ok kend a \<and> a < p + PGSIZE \<longleftrightarrow> a = p \<or> page_ok kend a \<and> a < p" for a
  proof (cases "a = p")
    case False
    then show ?thesis
      using page_ok_apart [of kend a p] assms p by (auto simp: word_less_nat_alt)
  qed (use assms p in \<open>simp add: word_less_nat_alt\<close>)
  then show ?thesis by auto
qed

lemma page_ok_next:
  assumes "page_ok kend p"
  shows "unat (p + PGSIZE) = unat p + 4096" and "unat p + 4096 \<le> unat PHYSTOP" and "p + PGSIZE \<le> PHYSTOP"
proof -
  show le: "unat p + 4096 \<le> unat PHYSTOP"
    using pages_apart [of "unat p" "unat PHYSTOP"] page_ok_unat [OF assms] by simp
  then show u: "unat (p + PGSIZE) = unat p + 4096" by (simp add: unat_word_ariths)
  show "p + PGSIZE \<le> PHYSTOP" using le u by (simp add: word_le_nat_alt)
qed

lemma freerange_step:
  assumes "kmem_inv kend k xs" and "page_ok kend p" and "p \<notin> set xs"
  shows "\<exists>k'. freerange_loop kend PHYSTOP i p k = freerange_loop kend PHYSTOP (Suc i) (p + PGSIZE) k' \<and>
    kmem_inv kend k' (p # xs)"
proof -
  obtain k' where k': "kfree kend p k = Inr k'" "kmem_inv kend k' (p # xs)"
    using kfree_pages [OF assms] by blast
  have "freerange_loop kend PHYSTOP i p k = freerange_loop kend PHYSTOP (Suc i) (p + PGSIZE) k'"
    by (subst freerange_loop.simps) (simp only: page_ok_next(3) [OF assms(2)] k'(1) if_True bindR.simps)
  with k'(2) show ?thesis by blast
qed

lemma pages_left_step:
  "a + 4096 \<le> b \<Longrightarrow> Suc i + (b - (a + 4096)) div 4096 = i + (b - a) div (4096 :: nat)"
proof -
  assume "a + 4096 \<le> b"
  then have "b - a = (b - (a + 4096)) + 4096" by linarith
  then have "(b - a) div 4096 = Suc ((b - (a + 4096)) div 4096)" by (simp only: div_add_self2)
  then show ?thesis by simp
qed

lemma freerange_loop_pages:
  assumes "0 < kend" and "unat p mod 4096 = 0" and "kend \<le> p" and "p \<le> PHYSTOP"
    and "kmem_inv kend k xs" and "set xs = {a. page_ok kend a \<and> a < p}"
  shows "\<exists>k' xs'. freerange_loop kend PHYSTOP i p k =
           Inr (i + (unat PHYSTOP - unat p) div 4096, PHYSTOP, k') \<and>
         kmem_inv kend k' xs' \<and> set xs' = {a. page_ok kend a}"
  using assms(2-)
proof (induction "unat PHYSTOP - unat p" arbitrary: i p k xs rule: less_induct)
  case less
  show ?case
  proof (cases "p = PHYSTOP")
    case True
    then have "\<not> p + PGSIZE \<le> PHYSTOP" by simp
    then have "freerange_loop kend PHYSTOP i p k = Inr (i, p, k)"
      by (simp only: freerange_loop.simps [of kend _ i p k] if_False)
    moreover have "{a. page_ok kend a \<and> a < PHYSTOP} = {a. page_ok kend a}"
      by (auto simp: page_ok_def)
    ultimately show ?thesis
      using True less.prems(4,5) by auto
  next
    case False
    with less.prems(3) have "p < PHYSTOP" by simp
    then have p: "page_ok kend p"
      using less.prems assms(1) by (auto simp: page_ok_def)
    note u = page_ok_next [OF p]
    obtain k1 where k1: "freerange_loop kend PHYSTOP i p k = freerange_loop kend PHYSTOP (Suc i) (p + PGSIZE) k1"
        "kmem_inv kend k1 (p # xs)"
      using freerange_step [OF less.prems(4) p, of i] less.prems(5) by auto
    have "set (p # xs) = {a. page_ok kend a \<and> a < p + PGSIZE}"
      using page_ok_below_step [OF p] less.prems(5) by simp
    with k1(2) have "\<exists>k' xs'. freerange_loop kend PHYSTOP (Suc i) (p + PGSIZE) k1 =
           Inr (Suc i + (unat PHYSTOP - unat (p + PGSIZE)) div 4096, PHYSTOP, k') \<and>
         kmem_inv kend k' xs' \<and> set xs' = {a. page_ok kend a}"
    proof (rule less.hyps [rotated 4])
      show "unat PHYSTOP - unat (p + PGSIZE) < unat PHYSTOP - unat p" using u(1,2) by linarith
      show "unat (p + PGSIZE) mod 4096 = 0" using less.prems(1) u(1) by simp
      show "kend \<le> p + PGSIZE" using less.prems(2) u(1) by (simp add: word_le_nat_alt)
    qed (rule u(3))
    then show ?thesis by (simp only: k1(1) u(1) pages_left_step [OF u(2)])
  qed
qed

text \<open>The first page \<^verbatim>\<open>freerange\<close> looks at is the least page address not below \<^verbatim>\<open>end\<close>.\<close>

lemma PGROUNDUP_kend:
  assumes "kend \<le> PHYSTOP"
  shows "unat (PGROUNDUP kend) mod 4096 = 0 \<and> kend \<le> PGROUNDUP kend \<and> PGROUNDUP kend \<le> PHYSTOP \<and>
    \<not> (\<exists>a. page_ok kend a \<and> a < PGROUNDUP kend)"
proof -
  let ?p = "(unat kend + 4095) div 4096 * 4096"
  have le: "unat kend \<le> 134742016" using assms by (simp add: word_le_nat_alt)
  have p: "unat (PGROUNDUP kend) = ?p" using le by (intro unat_PGROUNDUP) simp
  have "?p + (unat kend + 4095) mod 4096 = unat kend + 4095" by (rule div_mult_mod_eq)
  moreover have "(unat kend + 4095) mod 4096 < 4096" by simp
  ultimately have b: "unat kend \<le> ?p" "?p < unat kend + 4096" by linarith+
  have "(unat kend + 4095) div 4096 \<le> (134742016 + 4095) div 4096"
    using le by (intro div_le_mono) simp
  then have b': "?p \<le> 134742016" by simp
  have "unat a mod 4096 = 0 \<Longrightarrow> unat kend \<le> unat a \<Longrightarrow> \<not> unat a < ?p" for a :: u64
    using pages_apart [of "unat a" ?p] b by auto
  with p b b' show ?thesis by (auto simp: word_le_nat_alt word_less_nat_alt page_ok_def)
qed

section \<open>Properties\<close>

text \<open>
  C11. \<^verbatim>\<open>kinit\<close> succeeds, and afterwards the free list holds every page that lies between the end
  of the kernel image and \<^verbatim>\<open>PHYSTOP\<close>, each of them once, and nothing else.
\<close>

theorem kinit_frees_all_pages:
  assumes "0 < kend" and "kend \<le> PHYSTOP" and "freelist k = 0"
  shows "\<exists>k' xs. kinit kend k = Inr k' \<and> kmem_inv kend k' xs \<and> set xs = {a. page_ok kend a}"
proof -
  have "kmem_inv kend k []" using assms(3) by (simp add: kmem_inv_def)
  then have "\<exists>k' xs'. freerange_loop kend PHYSTOP 0 (PGROUNDUP kend) k =
      Inr (0 + (unat PHYSTOP - unat (PGROUNDUP kend)) div 4096, PHYSTOP, k') \<and>
      kmem_inv kend k' xs' \<and> set xs' = {a. page_ok kend a}"
    using PGROUNDUP_kend [OF assms(2)] assms(1) by (intro freerange_loop_pages) auto
  then show ?thesis by (auto simp: kinit_def freerange_def)
qed

theorem kinit_frees_all_pages_witness:
  "\<exists>k' xs. kinit 0x807E001 \<lparr>mem = (\<lambda>_. 0), freelist = 0\<rparr> = Inr k' \<and> kmem_inv 0x807E001 k' xs \<and>
     set xs = {a. page_ok 0x807E001 a}"
  by (rule kinit_frees_all_pages) simp_all

text \<open>
  C12. As long as the free list is intact, two successive calls of \<^verbatim>\<open>kalloc\<close> never hand out the
  same page, every page handed out is a page of the range given to \<^verbatim>\<open>kinit\<close>, and the list
  loses exactly the pages handed out.
\<close>

theorem kalloc_twice_distinct:
  assumes "kmem_inv kend k xs" and "kalloc k = (a, k1)" and "kalloc k1 = (b, k2)" and "a \<noteq> 0"
  shows "a \<noteq> b \<and> page_ok kend a \<and> (b = 0 \<or> page_ok kend b) \<and> kmem_inv kend k2 (drop 2 xs)"
  using assms by (rule kpages.alloc_twice_distinct)

theorem kalloc_twice_distinct_witness:
  "let k = \<lparr>mem = store64 (\<lambda>_. 0) 0x8000000 0x8001000, freelist = 0x8000000\<rparr>
   in (0x8000000 :: u64) \<noteq> 0x8001000 \<and> page_ok 0x7000000 0x8000000 \<and>
     ((0x8001000 :: u64) = 0 \<or> page_ok 0x7000000 0x8001000) \<and>
     kmem_inv 0x7000000 (k\<lparr>freelist := 0\<rparr>) (drop 2 [0x8000000, 0x8001000])"
proof -
  let ?k = "\<lparr>mem = store64 (\<lambda>_. 0) 0x8000000 0x8001000, freelist = 0x8000000 :: u64\<rparr>"
  have z: "load64 (store64 (\<lambda>_. 0) 0x8000000 0x8001000) 0x8001000 = 0"
    by (subst load_store_disjoint) simp_all
  have "kmem_inv 0x7000000 ?k [0x8000000, 0x8001000]"
    by (simp add: kmem_inv_def page_ok_def z)
  moreover have "kalloc ?k = (0x8000000, ?k\<lparr>freelist := 0x8001000\<rparr>)"
    by (simp add: kalloc_def)
  moreover have "kalloc (?k\<lparr>freelist := 0x8001000\<rparr>) = (0x8001000, ?k\<lparr>freelist := 0\<rparr>)"
    by (simp add: kalloc_def z)
  ultimately show ?thesis unfolding Let_def
    by (rule kalloc_twice_distinct) simp
qed

text \<open>
  C13. \<^verbatim>\<open>kfree\<close> of a page that is not free puts it back: it succeeds, and the next \<^verbatim>\<open>kalloc\<close>
  returns that very page and leaves the free list as it was before.
\<close>

theorem kfree_then_kalloc:
  assumes "kmem_inv kend k xs" and "page_ok kend a" and "a \<notin> set xs"
  shows "\<exists>k1 k2. kfree kend a k = Inr k1 \<and> kalloc k1 = (a, k2) \<and> kmem_inv kend k2 xs"
  using assms by (rule kpages.free_then_alloc)

theorem kfree_then_kalloc_witness:
  "\<exists>k1 k2. kfree 0x7000000 0x8000000 \<lparr>mem = (\<lambda>_. 0), freelist = 0\<rparr> = Inr k1 \<and>
     kalloc k1 = (0x8000000, k2) \<and> kmem_inv 0x7000000 k2 []"
  by (rule kfree_then_kalloc) (simp_all add: kmem_inv_def page_ok_def)

lemma countkmem_loop_flist:
  "flist m p (x # xs) \<Longrightarrow> countkmem_loop m i p = Some (Inr (i + length xs))"
proof (induction xs arbitrary: i p x)
  case Nil
  then show ?case by (subst countkmem_loop.simps) auto
next
  case (Cons y ys)
  then have "countkmem_loop m (Suc i) (load64 m (unat x)) = Some (Inr (Suc i + length ys))"
    by (intro Cons.IH) auto
  with Cons.prems show ?case by (subst countkmem_loop.simps) auto
qed

text \<open>
  \<^verbatim>\<open>countkmem\<close> ends on every intact free list, but it never counts the last page: the number
  it reports is one less than the number of free pages, and on an empty list it dereferences the
  null pointer.
\<close>

theorem countkmem_off_by_one:
  assumes "kmem_inv kend k xs"
  shows "countkmem k = Some (if xs = [] then Inl NullDeref else Inr (length xs - 1))"
proof (cases xs)
  case Nil
  with assms have "freelist k = 0" by (simp add: kmem_inv_def)
  with Nil show ?thesis by (simp add: countkmem_def countkmem_loop.simps)
next
  case (Cons y ys)
  with assms show ?thesis
    using countkmem_loop_flist [of "mem k" "freelist k" y ys 0]
    by (simp add: countkmem_def kmem_inv_def)
qed

theorem countkmem_off_by_one_witness:
  "countkmem \<lparr>mem = (\<lambda>_. 0), freelist = 0x8000000\<rparr> = Some (Inr 0)"
proof -
  have "kmem_inv 0x7000000 \<lparr>mem = (\<lambda>_. 0), freelist = 0x8000000\<rparr> [0x8000000]"
    by (simp add: kmem_inv_def page_ok_def)
  from countkmem_off_by_one [OF this] show ?thesis by simp
qed

end
