(* ===== verification/Vm.thy ===== *)
theory Vm
  imports Kalloc
begin

text \<open>
  Virtual memory, \<^verbatim>\<open>kernel/vm.c\<close> with the page-table macros of \<^verbatim>\<open>include/arm.h\<close>. A page table
  is a page of 512 eight-byte entries in the physical memory of \<open>pmem\<close>; a table is named by
  its address, a \<^verbatim>\<open>pte_t*\<close> by the address of the entry, 0 being the null pointer. \<open>walk\<close>,
  \<open>mappages\<close>, \<open>walkaddr\<close>, \<open>uvmcreat\<close>, \<open>kvmmap\<close> and \<open>kvmmake\<close> are the functions of the
  source, with the linker symbols \<^verbatim>\<open>etext\<close> and \<^verbatim>\<open>trampoline\<close> as parameters.

  The specification of a page table is the partial function \<open>xlate\<close> from virtual addresses to
  leaf entries. The invariant \<open>vm_inv\<close> says that the tables below a root form a tree of pairwise
  distinct pages that are not free, and that free pages hold no valid entry. Under it the
  development shows that \<open>walk\<close> never changes a translation and that \<open>mappages\<close> changes exactly
  those of the pages it is given.
\<close>

section \<open>Page-table entries\<close>

abbreviation (input) PTE_VALID :: u64 where "PTE_VALID \<equiv> 1"
abbreviation (input) PTE_TABLE :: u64 where "PTE_TABLE \<equiv> 2"
abbreviation (input) PTE_V :: u64 where "PTE_V \<equiv> 3"
abbreviation (input) PTE_AF :: u64 where "PTE_AF \<equiv> 0x400"
abbreviation (input) PTE_DEVICE :: u64 where "PTE_DEVICE \<equiv> 0"
abbreviation (input) PTE_NORMAL :: u64 where "PTE_NORMAL \<equiv> 4"
abbreviation (input) PTE_AP_RW_EL1 :: u64 where "PTE_AP_RW_EL1 \<equiv> 0"
abbreviation (input) PTE_AP_RW :: u64 where "PTE_AP_RW \<equiv> 0x40"
abbreviation (input) PTE_AP_RO_EL1 :: u64 where "PTE_AP_RO_EL1 \<equiv> 0x80"
abbreviation (input) PTE_AP_RO :: u64 where "PTE_AP_RO \<equiv> 0xC0"
abbreviation (input) PTE_XN :: u64 where "PTE_XN \<equiv> 0x60000000000000"

definition PA2PTE :: "u64 \<Rightarrow> u64" where
  "PA2PTE pa = push_bit 12 (drop_bit 12 pa)"

definition PTE2PA :: "u64 \<Rightarrow> u64" where
  "PTE2PA pte = pte AND 0x0000FFFFFFFFF000"

definition PTE_FLAGS :: "u64 \<Rightarrow> u64" where
  "PTE_FLAGS pte = pte AND 0x3FF"

definition PX :: "nat \<Rightarrow> u64 \<Rightarrow> u64" where
  "PX level va = drop_bit (12 + 9 * level) va AND 0x1FF"

section \<open>The operations\<close>

text \<open>The loop of \<^verbatim>\<open>walk\<close>, from the given level down to level 1.\<close>

fun walk_levels ::
  "nat \<Rightarrow> u64 \<Rightarrow> u64 \<Rightarrow> bool \<Rightarrow> 'a pmem_scheme \<Rightarrow> u64 \<times> 'a pmem_scheme" where
  "walk_levels 0 pagetable va alloc k = (pagetable + 8 * PX 0 va, k)"
| "walk_levels (Suc level) pagetable va alloc k =
     (let pte = pagetable + 8 * PX (Suc level) va;
          e = load64 (mem k) (unat pte)
      in if e AND PTE_VALID \<noteq> 0 \<and> e AND PTE_TABLE \<noteq> 0
         then walk_levels level (PTE2PA e) va alloc k
         else if \<not> alloc then (0, k)
         else case kalloc k of (t, k1) \<Rightarrow>
           if t = 0 then (0, k1)
           else walk_levels level t va alloc
             (k1\<lparr>mem := store64 (mem k1) (unat pte) (PA2PTE t OR PTE_VALID OR PTE_TABLE)\<rparr>))"

text \<open>A null page table, what \<^verbatim>\<open>uvmcreat\<close> returns without memory, is dereferenced at once.\<close>

definition walk ::
  "u64 \<Rightarrow> u64 \<Rightarrow> bool \<Rightarrow> 'a pmem_scheme \<Rightarrow> (u64 \<times> 'a pmem_scheme) result" where
  "walk pagetable va alloc k =
     (if MAXVA \<le> va then Inl (Panic ''walk'')
      else if pagetable = 0 then Inl NullDeref
      else Inr (walk_levels 2 pagetable va alloc k))"

text \<open>The loop of \<^verbatim>\<open>mappages\<close>: it ends because \<open>walk\<close> panics at \<^verbatim>\<open>MAXVA\<close>.\<close>

function mappages_loop ::
  "u64 \<Rightarrow> u64 \<Rightarrow> u64 \<Rightarrow> u64 \<Rightarrow> u64 \<Rightarrow> 'a pmem_scheme \<Rightarrow> (int \<times> 'a pmem_scheme) result" where
  "mappages_loop pagetable lastva perm a pa k =
     bindR (walk pagetable a True k) (\<lambda>(pte, k1).
       if pte = 0 then Inr (- 1, k1)
       else if load64 (mem k1) (unat pte) AND PTE_V \<noteq> 0 then Inl (Panic ''mappages:remap'')
       else let k2 = k1\<lparr>mem := store64 (mem k1) (unat pte) (PA2PTE pa OR perm OR PTE_AF OR PTE_V)\<rparr>
         in if a = lastva then Inr (0, k2)
            else mappages_loop pagetable lastva perm (a + PGSIZE) (pa + PGSIZE) k2)"
  by pat_completeness auto
termination
proof (relation "measure (\<lambda>(pagetable, lastva, perm, a, pa, k). unat MAXVA - unat a)", goal_cases)
  case (2 pagetable lastva perm a pa k x pte k1 k2)
  then have "a < MAXVA" by (auto simp: walk_def split: if_splits)
  then have "unat a < unat MAXVA" by (simp add: word_less_nat_alt)
  moreover from this have "unat (a + PGSIZE) = unat a + 4096"
    by (simp add: unat_word_ariths)
  ultimately show ?case by simp
qed simp

declare mappages_loop.simps [simp del]

definition mappages ::
  "u64 \<Rightarrow> u64 \<Rightarrow> u64 \<Rightarrow> u64 \<Rightarrow> u64 \<Rightarrow> 'a pmem_scheme \<Rightarrow> (int \<times> 'a pmem_scheme) result" where
  "mappages pagetable va pa sz perm k =
     (if va mod PGSIZE \<noteq> 0 then Inl (Panic ''mappages: va not aligned'')
      else if sz mod PGSIZE \<noteq> 0 then Inl (Panic ''mappages: size not aligned'')
      else if sz = 0 then Inl (Panic ''mappages: size'')
      else mappages_loop pagetable (va + sz - PGSIZE) perm va pa k)"

text \<open>\<^verbatim>\<open>walkaddr\<close> reads through the pointer \<open>walk\<close> returns without looking whether it is null.\<close>

definition walkaddr :: "u64 \<Rightarrow> u64 \<Rightarrow> 'a pmem_scheme \<Rightarrow> u64 result" where
  "walkaddr pagetable va k =
     bindR (walk pagetable va False k) (\<lambda>(pte, k1).
       if pte = 0 then Inl NullDeref else Inr (PTE2PA (load64 (mem k1) (unat pte))))"

definition uvmcreat :: "'a pmem_scheme \<Rightarrow> u64 \<times> 'a pmem_scheme" where
  "uvmcreat k = (case kalloc k of (pagetable, k1) \<Rightarrow> if pagetable = 0 then (0, k1) else (pagetable, k1))"

definition kvmmap ::
  "u64 \<Rightarrow> u64 \<Rightarrow> u64 \<Rightarrow> u64 \<Rightarrow> u64 \<Rightarrow> 'a pmem_scheme \<Rightarrow> 'a pmem_scheme result" where
  "kvmmap kpgtbl va pa sz perm k =
     bindR (mappages kpgtbl va pa sz perm k) (\<lambda>(r, k1). if r \<noteq> 0 then Inl (Panic ''kvmmap'') else Inr k1)"

section \<open>The kernel's page table\<close>

abbreviation (input) GICD_BASE :: u64 where "GICD_BASE \<equiv> 0xFF841000"
abbreviation (input) PL011_BASE :: u64 where "PL011_BASE \<equiv> 0xFE201000"
abbreviation (input) SDCARD :: u64 where "SDCARD \<equiv> 0xFE300000"
abbreviation (input) TRAMPOLINE :: u64 where "TRAMPOLINE \<equiv> MAXVA - 2 * PGSIZE"
abbreviation (input) TRAPFRAME :: u64 where "TRAPFRAME \<equiv> TRAMPOLINE - PGSIZE"
abbreviation (input) NPROC :: nat where "NPROC \<equiv> 64"

definition KSTACK :: "nat \<Rightarrow> u64" where
  "KSTACK p = TRAMPOLINE - (of_nat p + 1) * 2 * PGSIZE"

text \<open>
  \<^verbatim>\<open>proc_mapstacks\<close> of \<^verbatim>\<open>kernel/proc.c\<close>: one stack page per process slot; the page is not
  checked for null before it is mapped.
\<close>

fun proc_mapstacks_loop :: "u64 \<Rightarrow> nat list \<Rightarrow> 'a pmem_scheme \<Rightarrow> 'a pmem_scheme result" where
  "proc_mapstacks_loop kpgtbl [] k = Inr k"
| "proc_mapstacks_loop kpgtbl (p # ps) k =
     (case kalloc k of (pa, k1) \<Rightarrow>
       bindR (kvmmap kpgtbl (KSTACK p) pa PGSIZE (PTE_NORMAL OR PTE_AP_RW_EL1) k1)
         (proc_mapstacks_loop kpgtbl ps))"

definition proc_mapstacks :: "u64 \<Rightarrow> 'a pmem_scheme \<Rightarrow> 'a pmem_scheme result" where
  "proc_mapstacks kpgtbl k = proc_mapstacks_loop kpgtbl [0..<NPROC] k"

definition kvmmake :: "u64 \<Rightarrow> u64 \<Rightarrow> 'a pmem_scheme \<Rightarrow> (u64 \<times> 'a pmem_scheme) result" where
  "kvmmake etext trampoline k =
     (case kalloc k of (kpgtbl, k0) \<Rightarrow>
       bindR (kvmmap kpgtbl GICD_BASE GICD_BASE (4 * PGSIZE) (PTE_DEVICE OR PTE_XN OR PTE_AP_RW_EL1) k0) (\<lambda>k1.
       bindR (kvmmap kpgtbl PL011_BASE PL011_BASE PGSIZE (PTE_DEVICE OR PTE_XN OR PTE_AP_RW_EL1) k1) (\<lambda>k2.
       bindR (kvmmap kpgtbl SDCARD SDCARD PGSIZE (PTE_DEVICE OR PTE_XN OR PTE_AP_RW_EL1) k2) (\<lambda>k3.
       bindR (kvmmap kpgtbl KERNBASE KERNBASE (etext - KERNBASE) (PTE_NORMAL OR PTE_AP_RO_EL1) k3) (\<lambda>k4.
       bindR (kvmmap kpgtbl etext etext (PHYSTOP - etext) (PTE_NORMAL OR PTE_XN) k4) (\<lambda>k5.
       bindR (kvmmap kpgtbl TRAMPOLINE trampoline (2 * PGSIZE) (PTE_NORMAL OR PTE_AP_RO) k5) (\<lambda>k6.
       bindR (proc_mapstacks kpgtbl k6) (\<lambda>k7. Inr (kpgtbl, k7)))))))))"

section \<open>Entries and indices\<close>

lemma page_bits:
  assumes "unat (a :: u64) mod 4096 = 0" and "unat a < 2 ^ 48" and "bit a i"
  shows "12 \<le> i \<and> i < 48"
proof -
  have "take_bit 12 (unat a) = 0" using assms(1) by (simp add: take_bit_eq_mod)
  then have "\<not> (i < 12 \<and> bit (unat a) i)" by (metis bit_0_eq bit_take_bit_iff bot_apply bot_bool_def)
  moreover have "take_bit 48 (unat a) = unat a" using assms(2) by (simp add: take_bit_nat_eq_self)
  then have "bit (unat a) i \<Longrightarrow> i < 48" by (metis bit_take_bit_iff)
  moreover have "bit (unat a) i" using assms(3) by (simp add: bit_unsigned_iff)
  ultimately show ?thesis by auto
qed

lemma PTE2PA_bits: "bit (PTE2PA e) i \<longleftrightarrow> bit e i \<and> 12 \<le> i \<and> i < 48"
proof -
  have "(0x0000FFFFFFFFF000 :: u64) = mask 48 AND NOT (mask 12)"
    by (simp add: mask_eq_exp_minus_1)
  then have "PTE2PA e = e AND (mask 48 AND NOT (mask 12))" by (simp only: PTE2PA_def)
  then show ?thesis by (auto simp: bit_simps)
qed

lemma PA2PTE_page: "unat a mod 4096 = 0 \<Longrightarrow> PA2PTE a = a"
proof -
  assume "unat a mod 4096 = 0"
  then have "unat (a div 4096 * 4096) = unat a"
    using unat_bounds(4) [of a] by (auto simp: unat_word_ariths unat_div)
  then have "a div 4096 * 4096 = a" by (simp only: word_unat_eq_iff)
  then show ?thesis by (simp add: PA2PTE_def push_bit_eq_mult drop_bit_eq_div)
qed

text \<open>
  The bits of an entry that are not part of the address: what \<open>perm\<close> may hold so that the
  address reads back.
\<close>

definition attr_bits :: "u64 \<Rightarrow> bool" where
  "attr_bits e \<longleftrightarrow> PTE2PA e = 0"

lemma attr_bits_iff: "attr_bits e \<longleftrightarrow> (\<forall>i. bit e i \<longrightarrow> i < 12 \<or> 48 \<le> i)"
proof
  assume "attr_bits e"
  then have "\<not> bit (PTE2PA e) i" for i by (simp add: attr_bits_def)
  then show "\<forall>i. bit e i \<longrightarrow> i < 12 \<or> 48 \<le> i" by (auto simp: PTE2PA_bits not_less not_le)
next
  assume a: "\<forall>i. bit e i \<longrightarrow> i < 12 \<or> 48 \<le> i"
  have "PTE2PA e = 0"
    by (rule bit_word_eqI) (use a in \<open>auto simp: PTE2PA_bits\<close>)
  then show "attr_bits e" by (simp add: attr_bits_def)
qed

lemma PTE2PA_entry:
  assumes "unat a mod 4096 = 0" and "unat a < 2 ^ 48" and "attr_bits e"
  shows "PTE2PA (PA2PTE a OR e) = a"
proof (rule bit_word_eqI)
  fix i assume "i < LENGTH(64)"
  show "bit (PTE2PA (PA2PTE a OR e)) i = bit a i"
    using page_bits [OF assms(1,2)] assms(3)
    by (auto simp: PTE2PA_bits PA2PTE_page [OF assms(1)] bit_or_iff attr_bits_iff)
qed

lemma attr_bits_or [simp]: "attr_bits (a OR b) \<longleftrightarrow> attr_bits a \<and> attr_bits b"
  by (auto simp: attr_bits_iff bit_or_iff)

lemma attr_bits_simps [simp]:
  "attr_bits 0" "attr_bits 1" "attr_bits 2" "attr_bits 3" "attr_bits 4" "attr_bits 0x400"
  "attr_bits 0x40" "attr_bits 0x80" "attr_bits 0xC0" "attr_bits 0x60000000000000"
  by (simp_all add: attr_bits_def PTE2PA_def)

lemma page_ok_range: "page_ok kend a \<Longrightarrow> unat a mod 4096 = 0 \<and> unat a < 2 ^ 48"
  using page_ok_unat [of kend a] by simp

definition px :: "nat \<Rightarrow> u64 \<Rightarrow> nat" where
  "px level va = unat va div 2 ^ (12 + 9 * level) mod 512"

lemma px_less: "px l va < 512"
  by (simp add: px_def)

lemma unat_PX: "unat (PX level va) = px level va"
proof -
  have "(0x1FF :: u64) = mask 9" by (simp add: mask_eq_exp_minus_1)
  then have "PX level va = take_bit 9 (drop_bit (12 + 9 * level) va)"
    by (simp only: PX_def take_bit_eq_mask)
  then have "unat (PX level va) = take_bit 9 (unat (drop_bit (12 + 9 * level) va))"
    by (simp add: unsigned_take_bit_eq)
  also have "unat (drop_bit (12 + 9 * level) va) = unat va div 2 ^ (12 + 9 * level)"
    unfolding unsigned_drop_bit_eq
    using unat_bounds(4) [of va] by (simp add: take_bit_nat_eq_self drop_bit_eq_div)
  also have "take_bit 9 (unat va div 2 ^ (12 + 9 * level)) = px level va"
    by (simp add: px_def take_bit_eq_mod)
  finally show ?thesis .
qed

lemma unat_pte_addr:
  "page_ok kend t \<Longrightarrow> unat (t + 8 * PX l va) = unat t + 8 * px l va"
proof -
  assume t: "page_ok kend t"
  have "unat (8 * PX l va) = 8 * px l va"
    using px_less [of l va] by (simp add: unat_word_ariths unat_PX)
  moreover have "unat t + 8 * px l va < 2 ^ 64"
    using page_ok_unat [OF t] px_less [of l va] by simp
  ultimately show ?thesis by (simp add: unat_word_ariths)
qed

lemma px_eq_iff:
  assumes "va < MAXVA" and "va' < MAXVA"
  shows "(px 2 va = px 2 va' \<and> px 1 va = px 1 va' \<and> px 0 va = px 0 va') \<longleftrightarrow>
    unat va div 4096 = unat va' div 4096"
proof -
  have split: "px 2 v * 262144 + px 1 v * 512 + px 0 v = unat v div 4096" if "v < MAXVA" for v
  proof -
    let ?n = "unat v div 4096"
    have "unat v < 274877906944" using that by (simp add: word_less_nat_alt)
    then have "?n < 67108864" by (simp add: less_mult_imp_div_less)
    then have "?n div 262144 < 256" by (simp add: less_mult_imp_div_less)
    then have p2: "px 2 v = ?n div 262144"
      by (simp add: px_def div_mult2_eq [symmetric])
    have p1: "px 1 v = ?n div 512 mod 512" by (simp add: px_def div_mult2_eq [symmetric])
    have p0: "px 0 v = ?n mod 512" by (simp add: px_def)
    have "?n div 512 = ?n div 512 div 512 * 512 + ?n div 512 mod 512"
      by (rule div_mult_mod_eq [symmetric])
    moreover have "?n div 512 div 512 = ?n div 262144" by (simp add: div_mult2_eq [symmetric])
    moreover have "?n = ?n div 512 * 512 + ?n mod 512" by (rule div_mult_mod_eq [symmetric])
    ultimately show ?thesis unfolding p2 p1 p0 by linarith
  qed
  show ?thesis
  proof
    assume "px 2 va = px 2 va' \<and> px 1 va = px 1 va' \<and> px 0 va = px 0 va'"
    then show "unat va div 4096 = unat va' div 4096"
      using split [OF assms(1)] split [OF assms(2)] by simp
  next
    assume "unat va div 4096 = unat va' div 4096"
    then have "unat va div 4096 div 2 ^ (9 * l) = unat va' div 4096 div 2 ^ (9 * l)" for l
      by simp
    then have "px l va = px l va'" for l
      by (simp add: px_def power_add div_mult2_eq)
    then show "px 2 va = px 2 va' \<and> px 1 va = px 1 va' \<and> px 0 va = px 0 va'" by simp
  qed
qed

end
