(* ===== verification/Vm_Refine.thy ===== *)
theory Vm_Refine
  imports Vm
begin

text \<open>
  The refinement of the page-table code: the tables in memory as a tree (\<open>node\<close>), the
  translation they define (\<open>xlate\<close>), the invariant \<open>vm_inv\<close>, and the proof that \<open>walk\<close> and
  \<open>mappages\<close> keep the invariant and have the effect on \<open>xlate\<close> that the callers rely on.
\<close>

section \<open>Tables as a tree\<close>

definition pte_at :: "store \<Rightarrow> u64 \<Rightarrow> nat \<Rightarrow> u64" where
  "pte_at m t i = load64 m (unat t + 8 * i)"

definition is_table :: "u64 \<Rightarrow> bool" where
  "is_table e \<longleftrightarrow> e AND PTE_VALID \<noteq> 0 \<and> e AND PTE_TABLE \<noteq> 0"

definition is_clear :: "u64 \<Rightarrow> bool" where
  "is_clear e \<longleftrightarrow> e AND PTE_V = 0"

text \<open>\<open>node m t is\<close> is the table that the indices \<open>is\<close> lead to from the table \<open>t\<close>.\<close>

fun node :: "store \<Rightarrow> u64 \<Rightarrow> nat list \<Rightarrow> u64 option" where
  "node m t [] = Some t"
| "node m t (i # is) = (if is_table (pte_at m t i) then node m (PTE2PA (pte_at m t i)) is else None)"

definition xlate :: "store \<Rightarrow> u64 \<Rightarrow> u64 \<Rightarrow> u64 option" where
  "xlate m pt va =
     (case node m pt [px 2 va, px 1 va] of
        None \<Rightarrow> None
      | Some t \<Rightarrow> let e = pte_at m t (px 0 va) in if is_clear e then None else Some e)"

definition path_ok :: "nat list \<Rightarrow> bool" where
  "path_ok is \<longleftrightarrow> length is \<le> 2 \<and> (\<forall>i \<in> set is. i < 512)"

text \<open>The tables below \<open>pt\<close> are pages of the allocator, pairwise distinct and not free.\<close>

definition pt_inv :: "u64 \<Rightarrow> store \<Rightarrow> u64 \<Rightarrow> u64 list \<Rightarrow> bool" where
  "pt_inv kend m pt xs \<longleftrightarrow>
     (\<forall>is a. path_ok is \<longrightarrow> node m pt is = Some a \<longrightarrow> page_ok kend a \<and> a \<notin> set xs) \<and>
     (\<forall>is js a. path_ok is \<longrightarrow> path_ok js \<longrightarrow> node m pt is = Some a \<longrightarrow> node m pt js = Some a \<longrightarrow> is = js)"

text \<open>
  Free pages hold no valid entry. Nothing in the code establishes this for a page that is freed:
  \<^verbatim>\<open>kalloc\<close> and \<^verbatim>\<open>kfree\<close> do not clear pages, so it is an assumption on the pages a page table
  is built from, true of memory that starts out as zeros.
\<close>

definition pages_clear :: "store \<Rightarrow> u64 list \<Rightarrow> bool" where
  "pages_clear m xs \<longleftrightarrow> (\<forall>a \<in> set xs. \<forall>i < 512. is_clear (pte_at m a i))"

definition vm_inv :: "u64 \<Rightarrow> 'a pmem_scheme \<Rightarrow> u64 \<Rightarrow> u64 list \<Rightarrow> bool" where
  "vm_inv kend k pt xs \<longleftrightarrow>
     kmem_inv kend k xs \<and> pages_clear (mem k) xs \<and> pt_inv kend (mem k) pt xs"

lemma is_clear_not_table: "is_clear e \<Longrightarrow> \<not> is_table e"
proof
  assume c: "is_clear e" and t: "is_table e"
  have "\<not> bit (e AND 3) 0" using c by (simp add: is_clear_def)
  moreover have "bit (3 :: u64) 0" by simp
  ultimately have "\<not> bit e 0" by (simp add: bit_and_iff)
  moreover have "e AND 1 = (if bit e 0 then 1 else 0)"
    by (simp add: and_one_eq mod_2_eq_odd bit_0)
  ultimately show False using t by (simp add: is_table_def)
qed

lemma node_snoc:
  "node m t (is @ [i]) = (case node m t is of None \<Rightarrow> None
     | Some a \<Rightarrow> if is_table (pte_at m a i) then Some (PTE2PA (pte_at m a i)) else None)"
  by (induction "is" arbitrary: t) (auto split: option.splits)

lemma new_entry:
  assumes "page_ok kend n"
  shows "is_table (PA2PTE n OR PTE_VALID OR PTE_TABLE)"
    and "PTE2PA (PA2PTE n OR PTE_VALID OR PTE_TABLE) = n"
proof -
  have "bit ((PA2PTE n OR 1 OR 2) AND 1) 0" "bit ((PA2PTE n OR 1 OR 2) AND 2) 1"
    by (simp_all add: bit_simps)
  then have "(PA2PTE n OR 1 OR 2) AND 1 \<noteq> 0" "(PA2PTE n OR 1 OR 2) AND 2 \<noteq> 0"
    by (metis bit_0_eq bot_apply bot_bool_def)+
  then show "is_table (PA2PTE n OR PTE_VALID OR PTE_TABLE)"
    by (simp add: is_table_def)
  show "PTE2PA (PA2PTE n OR PTE_VALID OR PTE_TABLE) = n"
    using PTE2PA_entry [of n "1 OR 2"] page_ok_range [OF assms] by (simp only: or.assoc) simp
qed

lemma pte_at_store_same: "pte_at (store64 m (unat t + 8 * i) e) t i = e"
  by (simp add: pte_at_def)

lemma pte_at_store_other:
  assumes "page_ok kend t" and "page_ok kend a" and "i < 512" and "j < 512" and "a \<noteq> t \<or> j \<noteq> i"
  shows "pte_at (store64 m (unat t + 8 * i) e) a j = pte_at m a j"
proof -
  have "unat a + 8 * j + 8 \<le> unat t + 8 * i \<or> unat t + 8 * i + 8 \<le> unat a + 8 * j"
  proof (cases "a = t")
    case True
    with assms(5) have "j < i \<or> i < j" by auto
    with True show ?thesis by auto
  next
    case False
    then have "unat a + 4096 \<le> unat t \<or> unat t + 4096 \<le> unat a"
      using page_ok_apart [OF assms(2,1)] by simp
    with assms(3,4) show ?thesis by auto
  qed
  then show ?thesis by (simp add: pte_at_def load_store_disjoint)
qed

section \<open>Installing a table\<close>

lemma pt_inv_node: "pt_inv kend m pt xs \<Longrightarrow> path_ok is \<Longrightarrow> node m pt is = Some a \<Longrightarrow>
    page_ok kend a \<and> a \<notin> set xs"
  by (simp add: pt_inv_def)

lemma pt_inv_inj: "pt_inv kend m pt xs \<Longrightarrow> path_ok is \<Longrightarrow> path_ok js \<Longrightarrow>
    node m pt is = Some a \<Longrightarrow> node m pt js = Some a \<Longrightarrow> is = js"
  by (auto simp: pt_inv_def)

lemma path_ok_snoc: "path_ok (is @ [i]) \<longleftrightarrow> length is \<le> 1 \<and> path_ok is \<and> i < 512"
  by (auto simp: path_ok_def)

text \<open>
  Storing an entry for the free page \<open>n\<close> at index \<open>i\<close> of the table at path \<open>p\<close>: the path
  \<open>p @ [i]\<close> now leads to \<open>n\<close>, nothing hangs below it, and every other path is as before.
\<close>

text \<open>Installing the free page \<open>n\<close> as entry \<open>i\<close> of the table \<open>t\<close>: every other entry of a table stays, and the new table is empty.\<close>

lemma node_install_other:
  assumes inv: "pt_inv kend m pt xs" and t: "node m pt p = Some t" "path_ok p" "i < 512" and q: "path_ok q" "j < 512" "\<not> (q = p \<and> j = i)"
    and same: "node (store64 m (unat t + 8 * i) e) pt q = node m pt q"
  shows "node (store64 m (unat t + 8 * i) e) pt (q @ [j]) = node m pt (q @ [j])"
proof (cases "node m pt q")
  case None
  then show ?thesis using same by (simp add: node_snoc)
next
  case (Some a)
  have "a \<noteq> t \<or> j \<noteq> i" using pt_inv_inj [OF inv q(1) t(2) Some] t(1) q(3) by auto
  moreover have "page_ok kend a" "page_ok kend t" using pt_inv_node [OF inv q(1) Some] pt_inv_node [OF inv t(2,1)] by simp_all
  ultimately have "pte_at (store64 m (unat t + 8 * i) e) a j = pte_at m a j"
    using t(3) q(2) by (intro pte_at_store_other [of kend]) auto
  then show ?thesis using Some same by (simp add: node_snoc)
qed

lemma node_install_empty:
  assumes clear: "pages_clear m (n # xs)" and ok: "page_ok kend n" "page_ok kend t" "t \<noteq> n" and "i < 512" "j < 512"
    and q: "node (store64 m (unat t + 8 * i) e) pt q = Some n"
  shows "node (store64 m (unat t + 8 * i) e) pt (q @ [j]) = None"
proof -
  have "pte_at (store64 m (unat t + 8 * i) e) n j = pte_at m n j" using assms by (intro pte_at_store_other [of kend]) auto
  then have "\<not> is_table (pte_at (store64 m (unat t + 8 * i) e) n j)" using clear assms(6) by (auto simp: pages_clear_def is_clear_not_table)
  then show ?thesis unfolding node_snoc [of _ pt q j] using q by simp
qed

lemma node_install:
  assumes inv: "pt_inv kend m pt (n # xs)" and clear: "pages_clear m (n # xs)"
    and n: "page_ok kend n" and t: "node m pt p = Some t" and pi: "path_ok (p @ [i])"
    and free: "\<not> is_table (pte_at m t i)"
    and m': "m' = store64 m (unat t + 8 * i) (PA2PTE n OR PTE_VALID OR PTE_TABLE)"
  shows "path_ok q \<Longrightarrow> node m' pt q =
    (if q = p @ [i] then Some n else if take (length p + 1) q = p @ [i] then None else node m pt q)"
proof (induction q rule: rev_induct)
  case (snoc j q)
  then have q: "path_ok q" "j < 512" and IH: "node m' pt q =
    (if q = p @ [i] then Some n else if take (length p + 1) q = p @ [i] then None else node m pt q)"
    by (auto simp: path_ok_snoc)
  have p: "path_ok p" "i < 512" using pi by (auto simp: path_ok_snoc)
  have tok: "page_ok kend t" "t \<noteq> n" using pt_inv_node [OF inv p(1) t] by auto
  show ?case
  proof (cases "take (length p + 1) q = p @ [i]")
    case True
    then have len: "length q > length p" by (metis length_append_singleton length_take lessI min_less_iff_conj)
    have "node m' pt (q @ [j]) = None"
    proof (cases "q = p @ [i]")
      case True
      then have "node m' pt q = Some n" using IH by simp
      then show ?thesis unfolding m' by (rule node_install_empty [OF clear n tok p(2) q(2)])
    next
      case False
      with IH True show ?thesis by (simp add: node_snoc)
    qed
    with True len show ?thesis by auto
  next
    case False
    then have same: "node m' pt q = node m pt q" using IH by auto
    have tk: "take (length p + 1) (q @ [j]) = p @ [i] \<longleftrightarrow> q = p \<and> j = i"
      using False by (cases "length q \<le> length p") (auto simp: take_append)
    show ?thesis
    proof (cases "q = p \<and> j = i")
      case True
      then have "pte_at m' t j = PA2PTE n OR PTE_VALID OR PTE_TABLE" using m' by (simp add: pte_at_store_same)
      with True same t new_entry [OF n] show ?thesis by (simp add: node_snoc)
    next
      case ne: False
      then show ?thesis using node_install_other [OF inv t p q ne] same m' tk by auto
    qed
  qed
qed simp

lemma pt_inv_install:
  assumes "pt_inv kend m pt (n # xs)" and "pages_clear m (n # xs)"
    and "page_ok kend n" and "n \<notin> set xs" and "node m pt p = Some t" and "path_ok (p @ [i])"
    and "\<not> is_table (pte_at m t i)"
    and "m' = store64 m (unat t + 8 * i) (PA2PTE n OR PTE_VALID OR PTE_TABLE)"
  shows "pt_inv kend m' pt xs"
proof -
  have nd: "node m' pt q = (if q = p @ [i] then Some n
      else if take (length p + 1) q = p @ [i] then None else node m pt q)" if "path_ok q" for q
    using node_install [OF assms(1-3,5-8)] that by simp
  have old: "page_ok kend a \<and> a \<notin> set xs \<and> a \<noteq> n" if "path_ok q" "node m pt q = Some a" for q a
    using pt_inv_node [OF assms(1) that] by auto
  show ?thesis unfolding pt_inv_def
  proof (intro conjI allI impI, goal_cases)
    case (1 q a)
    then show ?case using nd [of q] old [of q a] assms(3) by (auto split: if_splits)
  next
    case (2 q a)
    then show ?case using nd [of q] old [of q a] assms(4) by (auto split: if_splits)
  next
    case (3 q r a)
    then show ?case
      using nd [of q] nd [of r] old [of q a] old [of r a] pt_inv_inj [OF assms(1), of q r a]
      by (auto split: if_splits)
  qed
qed

lemma xlate_install:
  assumes inv: "pt_inv kend m pt (n # xs)" and clear: "pages_clear m (n # xs)"
    and n: "page_ok kend n" and t: "node m pt p = Some t" and pi: "path_ok (p @ [i])"
    and free: "\<not> is_table (pte_at m t i)"
    and m': "m' = store64 m (unat t + 8 * i) (PA2PTE n OR PTE_VALID OR PTE_TABLE)"
  shows "xlate m' pt va = xlate m pt va"
proof -
  let ?q = "[px 2 va, px 1 va]"
  have q: "path_ok ?q" by (simp add: path_ok_def px_less)
  have p: "path_ok p" "i < 512" "length p \<le> 1" using pi by (auto simp: path_ok_snoc)
  have tok: "page_ok kend t" "t \<noteq> n" using pt_inv_node [OF inv p(1) t] by auto
  note nd = node_install [OF assms q]
  have leaf: "pte_at m' a (px 0 va) = pte_at m a (px 0 va)" if "page_ok kend a" "a \<noteq> t" for a
    unfolding m' using tok(1) p(2) that by (intro pte_at_store_other [of kend]) (auto simp: px_less)
  show ?thesis
  proof (cases "take (length p + 1) ?q = p @ [i]")
    case True
    have "node m pt ?q = None"
    proof (cases p)
      case Nil
      with True t free show ?thesis by auto
    next
      case (Cons a as)
      with p(3) True have "?q = p @ [i]" by auto
      then show ?thesis using t free by (simp only: node_snoc) simp
    qed
    moreover have "is_clear (pte_at m n (px 0 va))"
      using clear by (simp add: pages_clear_def px_less)
    ultimately show ?thesis
      using nd True leaf [OF n] tok(2) by (auto simp: xlate_def Let_def)
  next
    case False
    then have "node m' pt ?q = node m pt ?q" using nd by auto
    moreover have "a \<noteq> t \<and> page_ok kend a" if "node m pt ?q = Some a" for a
      using pt_inv_inj [OF inv q p(1) that] t p(3) pt_inv_node [OF inv q that] by auto
    ultimately show ?thesis using leaf by (auto simp: xlate_def split: option.splits)
  qed
qed

section \<open>Walking\<close>

lemma vm_inv_root: "vm_inv kend k pt xs \<Longrightarrow> page_ok kend pt \<and> pt \<noteq> 0"
  using pt_inv_node [of kend "mem k" pt xs "[]" pt] by (auto simp: vm_inv_def path_ok_def page_ok_def)

lemma walk_eq:
  "vm_inv kend k pt xs \<Longrightarrow> va < MAXVA \<Longrightarrow> walk pt va alloc k = Inr (walk_levels 2 pt va alloc k)"
  by (simp add: walk_def linorder_not_le vm_inv_root)

text \<open>
  One level of \<open>walk\<close> with allocation: at the table of path \<open>p\<close> either the entry is there, or
  a page is taken from the free list and installed, or memory is exhausted.
\<close>

definition descend :: "u64 \<Rightarrow> nat \<Rightarrow> u64 \<Rightarrow> 'a pmem_scheme \<Rightarrow> u64 option \<times> 'a pmem_scheme" where
  "descend t level va k =
     (let pte = t + 8 * PX level va; e = load64 (mem k) (unat pte)
      in if is_table e then (Some (PTE2PA e), k)
         else case kalloc k of (n, k1) \<Rightarrow>
           if n = 0 then (None, k1)
           else (Some n, k1\<lparr>mem := store64 (mem k1) (unat pte) (PA2PTE n OR PTE_VALID OR PTE_TABLE)\<rparr>))"

lemma walk_levels_descend:
  "walk_levels (Suc level) t va True k =
     (case descend t (Suc level) va k of (None, k1) \<Rightarrow> (0, k1)
      | (Some t', k1) \<Rightarrow> walk_levels level t' va True k1)"
  by (auto simp: descend_def Let_def is_table_def split: prod.splits)

lemma pages_clear_store:
  assumes "pages_clear m xs" and "page_ok kend t" and "t \<notin> set xs" and "i < 512"
    and "\<forall>a \<in> set xs. page_ok kend a"
  shows "pages_clear (store64 m (unat t + 8 * i) e) xs"
  unfolding pages_clear_def
proof (intro ballI allI impI)
  fix a j assume a: "a \<in> set xs" and j: "j < (512 :: nat)"
  then have "pte_at (store64 m (unat t + 8 * i) e) a j = pte_at m a j"
    using assms by (intro pte_at_store_other [of kend]) auto
  with assms(1) a j show "is_clear (pte_at (store64 m (unat t + 8 * i) e) a j)"
    by (simp add: pages_clear_def)
qed

lemma kmem_inv_store:
  assumes "kmem_inv kend k xs" and "page_ok kend t" and "t \<notin> set xs" and "i < 512"
  shows "kmem_inv kend (k\<lparr>mem := store64 (mem k) (unat t + 8 * i) e\<rparr>) xs"
  using assms(1-3) by (rule kmem_inv_frame) (use assms(4) in \<open>auto simp: store64_other\<close>)

lemma descend_inv:
  assumes inv: "vm_inv kend k pt xs" and t: "node (mem k) pt p = Some t" and p: "path_ok p" "length p \<le> 1"
    and d: "descend t level va k = (r, k')"
  shows "\<exists>xs'. vm_inv kend k' pt xs' \<and> length xs \<le> length xs' + 1 \<and>
    (\<forall>v. xlate (mem k') pt v = xlate (mem k) pt v) \<and>
    node (mem k') pt (p @ [px level va]) = r \<and> (r = None \<longrightarrow> xs = [])"
proof -
  let ?i = "px level va"
  have kinv: "kmem_inv kend k xs" and cl: "pages_clear (mem k) xs" and ptinv: "pt_inv kend (mem k) pt xs"
    using inv by (auto simp: vm_inv_def)
  have tok: "page_ok kend t" "t \<notin> set xs" using pt_inv_node [OF ptinv p(1) t] by auto
  have u: "unat (t + 8 * PX level va) = unat t + 8 * ?i" by (rule unat_pte_addr [OF tok(1)])
  have e: "load64 (mem k) (unat (t + 8 * PX level va)) = pte_at (mem k) t ?i"
    by (simp add: u pte_at_def)
  show ?thesis
  proof (cases "is_table (pte_at (mem k) t ?i)")
    case True
    with d e have "r = Some (PTE2PA (pte_at (mem k) t ?i))" "k' = k" by (auto simp: descend_def Let_def)
    with True t inv show ?thesis by (intro exI [of _ xs]) (auto simp: node_snoc)
  next
    case nt: False
    show ?thesis
    proof (cases xs)
      case Nil
      then have "kalloc k = (0, k)" using kinv kpages.alloc_none by blast
      with d e nt have "r = None" "k' = k" by (auto simp: descend_def Let_def)
      with Nil inv nt t show ?thesis by (intro exI [of _ xs]) (auto simp: node_snoc)
    next
      case (Cons n ns)
      let ?m = "store64 (mem k) (unat t + 8 * ?i) (PA2PTE n OR PTE_VALID OR PTE_TABLE)"
      have n: "page_ok kend n" "n \<notin> set ns" "n \<noteq> 0"
        using kinv Cons by (auto simp: kmem_inv_def page_ok_def)
      obtain k1 where k1: "kalloc k = (n, k1)" "kmem_inv kend k1 ns" "mem k1 = mem k"
        using kalloc_Cons [OF kinv [unfolded Cons]] by metis
      have k': "r = Some n" "k' = k1\<lparr>mem := ?m\<rparr>"
        using d nt n(3) k1(1,3) unfolding descend_def Let_def e by (auto simp: u split: if_splits)
      have pi: "path_ok (p @ [?i])" using p by (simp add: path_ok_snoc px_less)
      note args = ptinv [unfolded Cons] cl [unfolded Cons] n(1)
      have "kmem_inv kend k' ns"
        unfolding k' using kmem_inv_store [OF k1(2) tok(1), of ?i] tok(2) Cons
        by (auto simp: k1(3) px_less)
      moreover have "pages_clear ?m ns"
        using cl tok Cons k1(2) by (intro pages_clear_store) (auto simp: pages_clear_def kmem_inv_def px_less)
      moreover have "pt_inv kend ?m pt ns" using pt_inv_install [OF args n(2) t pi nt refl] .
      moreover have "xlate ?m pt v = xlate (mem k) pt v" for v
        using xlate_install [OF args t pi nt refl] .
      moreover have "node ?m pt (p @ [?i]) = Some n"
        using node_install [OF args t pi nt refl pi] by simp
      ultimately show ?thesis using k' Cons by (intro exI [of _ ns]) (auto simp: vm_inv_def)
    qed
  qed
qed

lemma walk_inv:
  assumes inv: "vm_inv kend k pt xs" and w: "walk_levels 2 pt va True k = (pte, k')"
  shows "\<exists>xs'. vm_inv kend k' pt xs' \<and> length xs \<le> length xs' + 2 \<and>
    (\<forall>v. xlate (mem k') pt v = xlate (mem k) pt v) \<and>
    (if pte = 0 then length xs \<le> 1 else \<exists>t. node (mem k') pt [px 2 va, px 1 va] = Some t \<and> pte = t + 8 * PX 0 va)"
proof -
  obtain r1 k1 where d1: "descend pt 2 va k = (r1, k1)" by force
  have "node (mem k) pt [] = Some pt" "path_ok []" by (auto simp: path_ok_def)
  then obtain xs1 where 1: "vm_inv kend k1 pt xs1" "length xs \<le> length xs1 + 1"
    "\<forall>v. xlate (mem k1) pt v = xlate (mem k) pt v" "node (mem k1) pt [px 2 va] = r1" "r1 = None \<longrightarrow> xs = []"
    using descend_inv [OF inv _ _ _ d1, of "[]"] by auto
  have w2: "walk_levels 2 pt va True k = (case r1 of None \<Rightarrow> (0, k1) | Some t \<Rightarrow> walk_levels 1 t va True k1)"
    using walk_levels_descend [of 1 pt va k] d1 by (simp add: numeral_2_eq_2)
  show ?thesis
  proof (cases r1)
    case None
    with w w2 1 show ?thesis by (intro exI [of _ xs1]) auto
  next
    case (Some t1)
    obtain r2 k2 where d2: "descend t1 1 va k1 = (r2, k2)" by force
    have "path_ok [px 2 va]" by (simp add: path_ok_def px_less)
    then obtain xs2 where 2: "vm_inv kend k2 pt xs2" "length xs1 \<le> length xs2 + 1"
      "\<forall>v. xlate (mem k2) pt v = xlate (mem k1) pt v" "node (mem k2) pt [px 2 va, px 1 va] = r2"
      "r2 = None \<longrightarrow> xs1 = []"
      using descend_inv [OF 1(1) _ _ _ d2, of "[px 2 va]"] 1(4) Some by auto
    have w1: "walk_levels 1 t1 va True k1 = (case r2 of None \<Rightarrow> (0, k2) | Some t \<Rightarrow> (t + 8 * PX 0 va, k2))"
      using walk_levels_descend [of 0 t1 va k1] d2 by (simp split: option.splits)
    show ?thesis
    proof (cases r2)
      case None
      with w w2 w1 Some 1 2 show ?thesis by (intro exI [of _ xs2]) auto
    next
      case (Some t)
      have "path_ok [px 2 va, px 1 va]" by (simp add: path_ok_def px_less)
      then have "page_ok kend t" using 2(1,4) Some by (auto simp: vm_inv_def dest: pt_inv_node)
      then have "unat (t + 8 * PX 0 va) \<noteq> 0"
        using page_ok_unat by (simp add: unat_pte_addr)
      then have "t + 8 * PX 0 va \<noteq> 0" by (metis unat_0)
      with w w2 w1 \<open>r1 = Some t1\<close> Some 1 2 show ?thesis by (intro exI [of _ xs2]) auto
    qed
  qed
qed

text \<open>When the tables are there, \<open>walk\<close> takes no page.\<close>

lemma walk_levels_found:
  assumes inv: "vm_inv kend k pt xs" and t: "node (mem k) pt [px 2 va, px 1 va] = Some t"
  shows "walk_levels 2 pt va alloc k = (t + 8 * PX 0 va, k)"
proof -
  obtain t1 where t1: "node (mem k) pt [px 2 va] = Some t1" "is_table (pte_at (mem k) pt (px 2 va))"
    "t1 = PTE2PA (pte_at (mem k) pt (px 2 va))" "is_table (pte_at (mem k) t1 (px 1 va))" "t = PTE2PA (pte_at (mem k) t1 (px 1 va))"
    using t by (auto split: if_splits)
  have "path_ok []" "path_ok [px 2 va]" by (simp_all add: path_ok_def px_less)
  then have "page_ok kend pt" "page_ok kend t1"
    using inv t1(1) by (auto simp: vm_inv_def simp del: node.simps(2) dest: pt_inv_node)
  then have e: "load64 (mem k) (unat (pt + 8 * PX 2 va)) = pte_at (mem k) pt (px 2 va)"
    "load64 (mem k) (unat (t1 + 8 * PX 1 va)) = pte_at (mem k) t1 (px 1 va)"
    by (simp_all add: unat_pte_addr pte_at_def)
  then show ?thesis using t1(2-5) by (simp add: numeral_2_eq_2 Let_def is_table_def)
qed

section \<open>Writing a leaf entry\<close>

definition same_page :: "u64 \<Rightarrow> u64 \<Rightarrow> bool" where
  "same_page va va' \<longleftrightarrow> unat va div 4096 = unat va' div 4096"

lemma leaf_store_node:
  assumes inv: "vm_inv kend k pt xs" and t: "node (mem k) pt [px 2 va, px 1 va] = Some t"
    and m': "m' = store64 (mem k) (unat t + 8 * px 0 va) e"
  shows "path_ok r \<Longrightarrow> node m' pt r = node (mem k) pt r"
proof (induction r rule: rev_induct)
  case (snoc j r)
  let ?q = "[px 2 va, px 1 va]"
  have ptinv: "pt_inv kend (mem k) pt xs" using inv by (simp add: vm_inv_def)
  have q: "path_ok ?q" by (simp add: path_ok_def px_less)
  have tok: "page_ok kend t" using pt_inv_node [OF ptinv q t] by simp
  have r: "path_ok r" "j < 512" "length r \<le> 1" and IH: "node m' pt r = node (mem k) pt r"
    using snoc by (auto simp: path_ok_snoc)
  show ?case
  proof (cases "node (mem k) pt r")
    case (Some a)
    then have "a \<noteq> t" "page_ok kend a"
      using pt_inv_inj [OF ptinv r(1) q Some] t r(3) pt_inv_node [OF ptinv r(1) Some] by auto
    then have "pte_at m' a j = pte_at (mem k) a j"
      unfolding m' using tok r(2) by (intro pte_at_store_other [of kend]) (auto simp: px_less)
    with Some IH show ?thesis by (simp add: node_snoc)
  qed (simp add: node_snoc IH)
qed simp

lemma leaf_store:
  assumes inv: "vm_inv kend k pt xs" and t: "node (mem k) pt [px 2 va, px 1 va] = Some t"
    and m': "m' = store64 (mem k) (unat t + 8 * px 0 va) e" and va: "va < MAXVA"
  shows "vm_inv kend (k\<lparr>mem := m'\<rparr>) pt xs"
    and "va' < MAXVA \<Longrightarrow> xlate m' pt va' =
      (if same_page va va' then (if is_clear e then None else Some e) else xlate (mem k) pt va')"
proof -
  let ?q = "[px 2 va, px 1 va]"
  have kinv: "kmem_inv kend k xs" and cl: "pages_clear (mem k) xs" and ptinv: "pt_inv kend (mem k) pt xs"
    using inv by (auto simp: vm_inv_def)
  have q: "path_ok ?q" by (simp add: path_ok_def px_less)
  have tok: "page_ok kend t" "t \<notin> set xs" using pt_inv_node [OF ptinv q t] by auto
  note nd = leaf_store_node [OF inv t m']
  have "pt_inv kend m' pt xs" using ptinv nd by (simp add: pt_inv_def)
  moreover have "pages_clear m' xs"
    unfolding m' using cl tok kinv by (intro pages_clear_store) (auto simp: kmem_inv_def px_less)
  moreover have "kmem_inv kend (k\<lparr>mem := m'\<rparr>) xs"
    unfolding m' using kinv tok by (intro kmem_inv_store) (auto simp: px_less)
  ultimately show "vm_inv kend (k\<lparr>mem := m'\<rparr>) pt xs" by (simp add: vm_inv_def)
  assume va': "va' < MAXVA"
  let ?q' = "[px 2 va', px 1 va']"
  have q': "path_ok ?q'" by (simp add: path_ok_def px_less)
  show "xlate m' pt va' =
      (if same_page va va' then (if is_clear e then None else Some e) else xlate (mem k) pt va')"
  proof (cases "same_page va va'")
    case True
    then have "px 2 va' = px 2 va" "px 1 va' = px 1 va" "px 0 va' = px 0 va"
      using px_eq_iff [OF va va'] by (auto simp: same_page_def)
    with True nd [OF q] t m' show ?thesis
      by (simp add: xlate_def Let_def pte_at_store_same del: node.simps)
  next
    case False
    have "pte_at m' a (px 0 va') = pte_at (mem k) a (px 0 va')" if "node (mem k) pt ?q' = Some a" for a
    proof -
      have "a \<noteq> t \<or> px 0 va' \<noteq> px 0 va"
        using pt_inv_inj [OF ptinv q' q that] t False px_eq_iff [OF va va'] by (auto simp: same_page_def)
      moreover have "page_ok kend a" using pt_inv_node [OF ptinv q' that] by simp
      ultimately show ?thesis
        unfolding m' using tok(1) by (intro pte_at_store_other [of kend]) (auto simp: px_less)
    qed
    with False nd [OF q'] show ?thesis
      by (auto simp: xlate_def simp del: node.simps split: option.splits)
  qed
qed

lemma xlate_same_page:
  assumes "same_page va va'" and "va < MAXVA" and "va' < MAXVA"
  shows "xlate m pt va = xlate m pt va'"
proof -
  have "px 2 va = px 2 va'" "px 1 va = px 1 va'" "px 0 va = px 0 va'"
    using px_eq_iff [OF assms(2,3)] assms(1) by (auto simp: same_page_def)
  then show ?thesis by (simp only: xlate_def)
qed

section \<open>mappages\<close>

text \<open>The entry \<open>mappages\<close> writes for the page at offset \<open>d\<close> of the range.\<close>

definition leaf_entry :: "u64 \<Rightarrow> u64 \<Rightarrow> u64" where
  "leaf_entry pa perm = PA2PTE pa OR perm OR PTE_AF OR PTE_V"

lemma leaf_entry_valid: "\<not> is_clear (leaf_entry pa perm)"
proof -
  have "bit (leaf_entry pa perm AND 3) 0" by (simp add: leaf_entry_def bit_simps)
  then show ?thesis by (metis bit_0_eq bot_apply bot_bool_def is_clear_def)
qed

text \<open>
  The specification: the translations after mapping \<open>n\<close> pages from \<open>va\<close> to \<open>pa\<close>.
\<close>

definition in_range :: "u64 \<Rightarrow> nat \<Rightarrow> u64 \<Rightarrow> bool" where
  "in_range va n v \<longleftrightarrow> unat va div 4096 \<le> unat v div 4096 \<and> unat v div 4096 < unat va div 4096 + n"

definition map_spec :: "u64 \<Rightarrow> u64 \<Rightarrow> nat \<Rightarrow> u64 \<Rightarrow> (u64 \<Rightarrow> u64 option) \<Rightarrow> u64 \<Rightarrow> u64 option" where
  "map_spec va pa n perm f v =
     (if in_range va n v
      then Some (leaf_entry (pa + PGSIZE * of_nat (unat v div 4096 - unat va div 4096)) perm)
      else f v)"

lemma xlate_leaf: "node m pt [px 2 va, px 1 va] = Some t \<Longrightarrow>
    xlate m pt va = (if is_clear (pte_at m t (px 0 va)) then None else Some (pte_at m t (px 0 va)))"
  by (simp add: xlate_def Let_def del: node.simps)

text \<open>
  The free pages \<open>walk\<close> needs: none if the table for the address is there, at most two otherwise.
\<close>

definition walk_cost :: "store \<Rightarrow> u64 \<Rightarrow> u64 \<Rightarrow> nat" where
  "walk_cost m pt va = (if node m pt [px 2 va, px 1 va] = None then 2 else 0)"

lemma walk_cost_le: "walk_cost m pt va \<le> 2"
  by (simp add: walk_cost_def)

lemma walk_alloc:
  assumes inv: "vm_inv kend k pt xs" and len: "walk_cost (mem k) pt va \<le> length xs"
  obtains t pte k1 xs1 where "walk_levels 2 pt va True k = (pte, k1)" and "pte \<noteq> 0" and "unat pte = unat t + 8 * px 0 va"
    and "vm_inv kend k1 pt xs1" and "length xs \<le> length xs1 + walk_cost (mem k) pt va"
    and "\<forall>v. xlate (mem k1) pt v = xlate (mem k) pt v" and "node (mem k1) pt [px 2 va, px 1 va] = Some t"
proof -
  have q: "path_ok [px 2 va, px 1 va]" by (simp add: path_ok_def px_less)
  obtain t k1 xs1 where 1: "walk_levels 2 pt va True k = (t + 8 * PX 0 va, k1)" "vm_inv kend k1 pt xs1"
    "length xs \<le> length xs1 + walk_cost (mem k) pt va" "\<forall>v. xlate (mem k1) pt v = xlate (mem k) pt v"
    "node (mem k1) pt [px 2 va, px 1 va] = Some t"
  proof (cases "node (mem k) pt [px 2 va, px 1 va]")
    case None
    obtain pte k1 where w: "walk_levels 2 pt va True k = (pte, k1)" by force
    show thesis
      using walk_inv [OF inv w] len None w by (auto simp: walk_cost_def simp del: node.simps split: if_splits intro: that)
  next
    case (Some t)
    then show thesis using that [OF walk_levels_found [OF inv Some] inv] by simp
  qed
  then have "page_ok kend t" using q by (auto simp: vm_inv_def dest: pt_inv_node)
  then have u: "unat (t + 8 * PX 0 va) = unat t + 8 * px 0 va" "0 < unat t"
    using page_ok_unat by (simp_all add: unat_pte_addr)
  then have "t + 8 * PX 0 va \<noteq> 0" by (metis add_is_0 less_irrefl unat_0)
  with 1 u show thesis using that by blast
qed

text \<open>One iteration of the loop, on an address that is not mapped yet.\<close>

lemma mappages_step:
  assumes inv: "vm_inv kend k pt xs" and a: "a < MAXVA" and len: "walk_cost (mem k) pt a \<le> length xs"
    and un: "xlate (mem k) pt a = None"
  shows "\<exists>k2 xs2. mappages_loop pt lastva perm a pa k =
      (if a = lastva then Inr (0, k2) else mappages_loop pt lastva perm (a + PGSIZE) (pa + PGSIZE) k2) \<and>
    vm_inv kend k2 pt xs2 \<and> length xs \<le> length xs2 + walk_cost (mem k) pt a \<and>
    (\<forall>v < MAXVA. xlate (mem k2) pt v =
      (if same_page a v then Some (leaf_entry pa perm) else xlate (mem k) pt v)) \<and>
    walk_cost (mem k2) pt a = 0"
proof -
  obtain t pte k1 xs1 where w: "walk_levels 2 pt a True k = (pte, k1)" "pte \<noteq> 0" and u: "unat pte = unat t + 8 * px 0 a"
    and 1: "vm_inv kend k1 pt xs1" "length xs \<le> length xs1 + walk_cost (mem k) pt a"
    "\<forall>v. xlate (mem k1) pt v = xlate (mem k) pt v" "node (mem k1) pt [px 2 a, px 1 a] = Some t"
    using walk_alloc [OF inv len] .
  have "xlate (mem k1) pt a = None" using 1(3) un by simp
  then have clr: "load64 (mem k1) (unat pte) AND PTE_V = 0"
    using xlate_leaf [OF 1(4)] u by (auto simp: is_clear_def pte_at_def split: if_splits)
  let ?k2 = "k1\<lparr>mem := store64 (mem k1) (unat pte) (leaf_entry pa perm)\<rparr>"
  have "walk pt a True k = Inr (pte, k1)" using walk_eq [OF inv a] w by simp
  then have "mappages_loop pt lastva perm a pa k =
      (if a = lastva then Inr (0, ?k2) else mappages_loop pt lastva perm (a + PGSIZE) (pa + PGSIZE) ?k2)"
    by (subst mappages_loop.simps)
      (simp only: bindR.simps prod.case clr w(2) leaf_entry_def Let_def if_False refl not_True_eq_False)
  moreover have "vm_inv kend ?k2 pt xs1" using leaf_store(1) [OF 1(1,4) refl a] u by simp
  moreover have "\<forall>v < MAXVA. xlate (mem ?k2) pt v =
      (if same_page a v then Some (leaf_entry pa perm) else xlate (mem k) pt v)"
    using leaf_store(2) [OF 1(1,4) refl a, of _ "leaf_entry pa perm"] u 1(3) leaf_entry_valid by simp
  moreover have "walk_cost (mem ?k2) pt a = 0"
    using leaf_store_node [OF 1(1,4) refl, of "[px 2 a, px 1 a]" "leaf_entry pa perm"] u 1(4)
    by (simp add: walk_cost_def path_ok_def px_less del: node.simps)
  ultimately show ?thesis using 1(2) by blast
qed

lemma map_spec_Suc:
  assumes "unat a mod 4096 = 0" and "unat (a + PGSIZE) = unat a + 4096"
  shows "map_spec (a + PGSIZE) (pa + PGSIZE) n perm
      (\<lambda>v. if same_page a v then Some (leaf_entry pa perm) else f v) v = map_spec a pa (Suc n) perm f v"
proof -
  let ?A = "unat a div 4096" and ?V = "unat v div 4096"
  have A: "unat (a + PGSIZE) div 4096 = Suc ?A" using assms(2) by simp
  consider "?V < ?A" | "?V = ?A" | d where "?V = Suc (?A + d)"
    by (metis less_iff_Suc_add linorder_neqE_nat)
  then show ?thesis
  proof cases
    case 3
    then have "pa + PGSIZE + PGSIZE * of_nat (?V - Suc ?A) = pa + PGSIZE * of_nat (?V - ?A)"
      by (simp add: distrib_left)
    with 3 A show ?thesis by (simp add: map_spec_def in_range_def same_page_def add.assoc)
  qed (use A in \<open>auto simp: map_spec_def in_range_def same_page_def\<close>)
qed

text \<open>
  The tables that mapping \<open>n + 1\<close> pages from \<open>a\<close> needs: at most two when the range enters the
  region of 2 MB of another last-level table, and those for the first page.
\<close>

definition map_cost :: "store \<Rightarrow> u64 \<Rightarrow> u64 \<Rightarrow> nat \<Rightarrow> nat" where
  "map_cost m pt a n = walk_cost m pt a + 2 * ((unat a div 4096 + n) div 512 - unat a div 4096 div 512)"

lemma walk_cost_region:
  assumes "unat a div 4096 div 512 = unat a' div 4096 div 512"
  shows "walk_cost m pt a' = walk_cost m pt a"
proof -
  have "px 1 v = unat v div 4096 div 512 mod 512" "px 2 v = unat v div 4096 div 512 div 512 mod 512" for v
    by (simp_all add: px_def flip: div_mult2_eq)
  with assms show ?thesis by (simp only: walk_cost_def)
qed

lemma map_cost_step:
  assumes "unat (a + PGSIZE) = unat a + 4096" and "walk_cost m' pt a = 0"
  shows "map_cost m' pt (a + PGSIZE) n + walk_cost m pt a \<le> map_cost m pt a (Suc n)"
proof -
  let ?P = "unat a div 4096"
  have P: "unat (a + PGSIZE) div 4096 = Suc ?P" using assms(1) by simp
  have le: "Suc ?P div 512 \<le> (Suc ?P + n) div 512" by (rule div_le_mono) simp
  show ?thesis
  proof (cases "Suc ?P div 512 = ?P div 512")
    case True
    then have "walk_cost m' pt (a + PGSIZE) = 0" using walk_cost_region [of a "a + PGSIZE" m' pt] P assms(2) by simp
    then show ?thesis using True P by (simp add: map_cost_def)
  next
    case False
    then have "Suc ?P div 512 = Suc (?P div 512)" by (simp add: div_Suc split: if_splits)
    moreover from this le obtain d where "(Suc ?P + n) div 512 = Suc (?P div 512) + d" by (metis le_Suc_ex)
    ultimately show ?thesis using P walk_cost_le [of m' pt "a + PGSIZE"] by (simp add: map_cost_def)
  qed
qed

lemma map_cost_le: "map_cost m pt a n \<le> 2 * Suc n"
proof -
  let ?P = "unat a div 4096"
  have "(?P + n) div 512 \<le> (?P div 512 * 512 + 511 + n) div 512"
    using mod_less_divisor [of 512 ?P] div_mult_mod_eq [of ?P 512] by (intro div_le_mono) linarith
  also have "\<dots> = ?P div 512 + (511 + n) div 512"
    using div_mult_self3 [of 512 "?P div 512" "511 + n"] by (simp add: add.assoc)
  finally have "(?P + n) div 512 - ?P div 512 \<le> n" by linarith
  then show ?thesis using walk_cost_le [of m pt a] by (simp add: map_cost_def)
qed

lemma last_page:
  assumes "unat a + 4096 * Suc (Suc n) \<le> unat MAXVA"
  shows "unat (a + PGSIZE) = unat a + 4096" and "a \<noteq> a + PGSIZE * of_nat (Suc n)"
proof -
  show "unat (a + PGSIZE) = unat a + 4096" using assms by (simp add: unat_word_ariths)
  have "unat (PGSIZE * of_nat (Suc n) :: u64) = 4096 * Suc n"
    using assms by (simp add: unat_word_ariths unat_of_nat)
  then have "PGSIZE * of_nat (Suc n) \<noteq> (0 :: u64)" by (metis mult_is_0 nat.simps(3) unat_0 zero_neq_numeral)
  then show "a \<noteq> a + PGSIZE * of_nat (Suc n)" by simp
qed

lemma mappages_loop_maps:
  assumes "vm_inv kend k pt xs" and "unat a mod 4096 = 0" and "unat a + 4096 * Suc n \<le> unat MAXVA"
    and "map_cost (mem k) pt a n \<le> length xs" and "\<forall>v < MAXVA. in_range a (Suc n) v \<longrightarrow> xlate (mem k) pt v = None"
    and "lastva = a + PGSIZE * of_nat n"
  shows "\<exists>k' xs'. mappages_loop pt lastva perm a pa k = Inr (0, k') \<and> vm_inv kend k' pt xs' \<and>
    length xs \<le> length xs' + map_cost (mem k) pt a n \<and>
    (\<forall>v < MAXVA. xlate (mem k') pt v = map_spec a pa (Suc n) perm (xlate (mem k) pt) v)"
  using assms
proof (induction n arbitrary: k xs a pa)
  case 0
  have a: "a < MAXVA" using "0.prems"(3) by (simp add: word_less_nat_alt)
  have un: "xlate (mem k) pt a = None" using "0.prems"(5) a by (simp add: in_range_def)
  have l: "a = lastva" and c: "map_cost (mem k) pt a 0 = walk_cost (mem k) pt a" using "0.prems"(6) by (simp_all add: map_cost_def)
  obtain k2 xs2 where "mappages_loop pt lastva perm a pa k = Inr (0, k2)" "vm_inv kend k2 pt xs2"
    "length xs \<le> length xs2 + walk_cost (mem k) pt a"
    "\<forall>v < MAXVA. xlate (mem k2) pt v = (if same_page a v then Some (leaf_entry pa perm) else xlate (mem k) pt v)"
    using mappages_step [OF "0.prems"(1) a "0.prems"(4) [unfolded c] un, of lastva perm pa] l by auto
  then show ?case
    unfolding c by (intro exI [of _ k2] exI [of _ xs2]) (auto simp: map_spec_def in_range_def same_page_def)
next
  case (Suc n)
  have a: "a < MAXVA" using Suc.prems(3) by (simp add: word_less_nat_alt)
  have un: "xlate (mem k) pt a = None" using Suc.prems(5) a by (simp add: in_range_def)
  note u = last_page(1) [OF Suc.prems(3)] and ne = last_page(2) [OF Suc.prems(3), folded Suc.prems(6)]
  have "walk_cost (mem k) pt a \<le> length xs" using Suc.prems(4) by (simp add: map_cost_def)
  then obtain k2 xs2 where
    2: "mappages_loop pt lastva perm a pa k = mappages_loop pt lastva perm (a + PGSIZE) (pa + PGSIZE) k2"
    "vm_inv kend k2 pt xs2" "length xs \<le> length xs2 + walk_cost (mem k) pt a"
    "\<forall>v < MAXVA. xlate (mem k2) pt v = (if same_page a v then Some (leaf_entry pa perm) else xlate (mem k) pt v)"
    "walk_cost (mem k2) pt a = 0"
    using mappages_step [OF Suc.prems(1) a _ un, of lastva perm pa] ne by auto
  note c = map_cost_step [OF u 2(5), of n "mem k"]
  have "\<exists>k' xs'. mappages_loop pt lastva perm (a + PGSIZE) (pa + PGSIZE) k2 = Inr (0, k') \<and>
    vm_inv kend k' pt xs' \<and> length xs2 \<le> length xs' + map_cost (mem k2) pt (a + PGSIZE) n \<and>
    (\<forall>v < MAXVA. xlate (mem k') pt v = map_spec (a + PGSIZE) (pa + PGSIZE) (Suc n) perm (xlate (mem k2) pt) v)"
  proof (rule Suc.IH [OF 2(2)])
    show "unat (a + PGSIZE) mod 4096 = 0" using u Suc.prems(2) by simp
    show "unat (a + PGSIZE) + 4096 * Suc n \<le> unat MAXVA" using u Suc.prems(3) by simp
    show "map_cost (mem k2) pt (a + PGSIZE) n \<le> length xs2" using 2(3) c Suc.prems(4) by linarith
    show "\<forall>v < MAXVA. in_range (a + PGSIZE) (Suc n) v \<longrightarrow> xlate (mem k2) pt v = None"
      using 2(4) Suc.prems(5) u by (auto simp: in_range_def same_page_def)
    show "lastva = a + PGSIZE + PGSIZE * of_nat n" using Suc.prems(6) by (simp add: distrib_left)
  qed
  then obtain k' xs' where
    3: "mappages_loop pt lastva perm (a + PGSIZE) (pa + PGSIZE) k2 = Inr (0, k')"
    "vm_inv kend k' pt xs'" "length xs2 \<le> length xs' + map_cost (mem k2) pt (a + PGSIZE) n"
    "\<forall>v < MAXVA. xlate (mem k') pt v = map_spec (a + PGSIZE) (pa + PGSIZE) (Suc n) perm (xlate (mem k2) pt) v"
    by auto
  have "xlate (mem k') pt v = map_spec a pa (Suc (Suc n)) perm (xlate (mem k) pt) v" if "v < MAXVA" for v
    using 3(4) 2(4) that unfolding map_spec_Suc [OF Suc.prems(2) u, symmetric] by (simp add: map_spec_def)
  then show ?case using 2(1,3) 3 c by (intro exI [of _ k'] exI [of _ xs']) auto
qed

lemma sz_pages:
  assumes "sz mod PGSIZE = 0" and "sz \<noteq> 0"
  obtains n where "unat sz = 4096 * Suc n" and "sz = PGSIZE * of_nat (Suc n)"
    and "va + sz - PGSIZE = va + PGSIZE * of_nat n"
proof -
  have m: "unat sz mod 4096 = 0" using assms(1) by (simp add: word_mod_0_iff)
  have "0 < unat sz" using assms(2) by (simp add: unat_gt_0)
  with m obtain q where q: "unat sz = 4096 * q" "0 < q"
    by (metis dvd_eq_mod_eq_0 dvd_def gr0I mult_0_right nat_less_le)
  then obtain n where n: "q = Suc n" by (cases q) auto
  have "sz = of_nat (unat sz)" by simp
  then have "sz = of_nat (4096 * Suc n)" using q n by metis
  then have sz: "sz = PGSIZE * of_nat (Suc n)" by (simp only: of_nat_mult of_nat_numeral)
  show thesis
    using q n sz by (intro that [of n]) (simp_all add: distrib_left)
qed

lemma mappages_uses:
  assumes inv: "vm_inv kend k pt xs" and va: "va mod PGSIZE = 0" and sz: "sz mod PGSIZE = 0" "sz \<noteq> 0"
    and top: "unat va + unat sz \<le> unat MAXVA" and mem: "map_cost (mem k) pt va (unat sz div 4096 - 1) \<le> length xs"
    and un: "\<forall>v < MAXVA. in_range va (unat sz div 4096) v \<longrightarrow> xlate (mem k) pt v = None"
  shows "\<exists>k' xs'. mappages pt va pa sz perm k = Inr (0, k') \<and> vm_inv kend k' pt xs' \<and>
    length xs \<le> length xs' + map_cost (mem k) pt va (unat sz div 4096 - 1) \<and>
    (\<forall>v < MAXVA. xlate (mem k') pt v = map_spec va pa (unat sz div 4096) perm (xlate (mem k) pt) v)"
proof -
  obtain n where n: "unat sz = 4096 * Suc n" "va + sz - PGSIZE = va + PGSIZE * of_nat n"
    using sz_pages [OF sz] by metis
  then have d: "unat sz div 4096 = Suc n" by simp
  have "mappages pt va pa sz perm k = mappages_loop pt (va + sz - PGSIZE) perm va pa k"
    by (simp only: mappages_def va sz refl if_False not_True_eq_False)
  moreover have "\<exists>k' xs'. mappages_loop pt (va + sz - PGSIZE) perm va pa k = Inr (0, k') \<and>
    vm_inv kend k' pt xs' \<and> length xs \<le> length xs' + map_cost (mem k) pt va n \<and>
    (\<forall>v < MAXVA. xlate (mem k') pt v = map_spec va pa (Suc n) perm (xlate (mem k) pt) v)"
  proof (rule mappages_loop_maps [OF inv])
    show "unat va mod 4096 = 0" using va by (simp only: word_mod_0_iff)
    show "unat va + 4096 * Suc n \<le> unat MAXVA" using top n(1) by simp
    show "map_cost (mem k) pt va n \<le> length xs" using mem d by simp
    show "\<forall>v < MAXVA. in_range va (Suc n) v \<longrightarrow> xlate (mem k) pt v = None" using un d by simp
    show "va + sz - PGSIZE = va + PGSIZE * of_nat n" by (rule n(2))
  qed
  ultimately show ?thesis unfolding d by auto
qed

text \<open>A coarser bound, for small ranges: two pages for every page mapped.\<close>

lemma mappages_maps:
  assumes inv: "vm_inv kend k pt xs" and va: "va mod PGSIZE = 0" and sz: "sz mod PGSIZE = 0" "sz \<noteq> 0"
    and top: "unat va + unat sz \<le> unat MAXVA" and mem: "2 * (unat sz div 4096) \<le> length xs"
    and un: "\<forall>v < MAXVA. in_range va (unat sz div 4096) v \<longrightarrow> xlate (mem k) pt v = None"
  shows "\<exists>k' xs'. mappages pt va pa sz perm k = Inr (0, k') \<and> vm_inv kend k' pt xs' \<and>
    length xs \<le> length xs' + 2 * (unat sz div 4096) \<and>
    (\<forall>v < MAXVA. xlate (mem k') pt v = map_spec va pa (unat sz div 4096) perm (xlate (mem k) pt) v)"
proof -
  obtain n where "unat sz = 4096 * Suc n" using sz_pages [OF sz] by metis
  then have c: "map_cost (mem k) pt va (unat sz div 4096 - 1) \<le> 2 * (unat sz div 4096)"
    using map_cost_le [of "mem k" pt va n] by simp
  with mem have "map_cost (mem k) pt va (unat sz div 4096 - 1) \<le> length xs" by (rule le_trans [rotated])
  then obtain k' xs' where r: "mappages pt va pa sz perm k = Inr (0, k')" "vm_inv kend k' pt xs'"
    "length xs \<le> length xs' + map_cost (mem k) pt va (unat sz div 4096 - 1)"
    "\<forall>v < MAXVA. xlate (mem k') pt v = map_spec va pa (unat sz div 4096) perm (xlate (mem k) pt) v"
    using mappages_uses [OF inv va sz top _ un] by meson
  from r(3) c have "length xs \<le> length xs' + 2 * (unat sz div 4096)" by linarith
  with r(1,2,4) show ?thesis by blast
qed

text \<open>A page of the range that is already mapped makes the loop panic when it gets there.\<close>

lemma mappages_step_remap:
  assumes inv: "vm_inv kend k pt xs" and a: "a < MAXVA" and len: "2 \<le> length xs"
    and some: "xlate (mem k) pt a \<noteq> None"
  shows "mappages_loop pt lastva perm a pa k = Inl (Panic ''mappages:remap'')"
proof -
  have "walk_cost (mem k) pt a \<le> length xs" using len walk_cost_le [of "mem k" pt a] by linarith
  then obtain t pte k1 xs1 where w: "walk_levels 2 pt a True k = (pte, k1)" "pte \<noteq> 0" and u: "unat pte = unat t + 8 * px 0 a"
    and 1: "\<forall>v. xlate (mem k1) pt v = xlate (mem k) pt v" "node (mem k1) pt [px 2 a, px 1 a] = Some t"
    using walk_alloc [OF inv] by metis
  have "xlate (mem k1) pt a \<noteq> None" using 1(1) some by simp
  then have set: "load64 (mem k1) (unat pte) AND PTE_V \<noteq> 0"
    using xlate_leaf [OF 1(2)] u by (auto simp: is_clear_def pte_at_def split: if_splits)
  have "walk pt a True k = Inr (pte, k1)" using walk_eq [OF inv a] w by simp
  then show ?thesis
    by (subst mappages_loop.simps) (simp only: bindR.simps prod.case set w(2) if_False if_True simp_thms)
qed

lemma mappages_loop_remap:
  assumes "vm_inv kend k pt xs" and "unat a mod 4096 = 0" and "unat a + 4096 * Suc n \<le> unat MAXVA"
    and "2 * Suc n \<le> length xs" and "v < MAXVA" and "in_range a (Suc n) v" and "xlate (mem k) pt v \<noteq> None"
    and "lastva = a + PGSIZE * of_nat n"
  shows "mappages_loop pt lastva perm a pa k = Inl (Panic ''mappages:remap'')"
  using assms
proof (induction n arbitrary: k xs a pa)
  case 0
  have "a < MAXVA" using "0.prems"(3) by (simp add: word_less_nat_alt)
  moreover have "same_page a v" using "0.prems"(6) by (auto simp: in_range_def same_page_def)
  then have "xlate (mem k) pt a = xlate (mem k) pt v"
    using calculation "0.prems"(5) by (rule xlate_same_page)
  ultimately show ?case using mappages_step_remap [OF "0.prems"(1), of a lastva perm pa] "0.prems"(4,7) by simp
next
  case (Suc n)
  have a: "a < MAXVA" using Suc.prems(3) by (simp add: word_less_nat_alt)
  note u = last_page(1) [OF Suc.prems(3)] and ne = last_page(2) [OF Suc.prems(3), folded Suc.prems(8)]
  have len: "2 \<le> length xs" using Suc.prems(4) by simp
  show ?case
  proof (cases "xlate (mem k) pt a")
    case (Some e)
    then show ?thesis using mappages_step_remap [OF Suc.prems(1) a len] by simp
  next
    case None
    have np: "\<not> same_page a v"
      using None Suc.prems(7) xlate_same_page [OF _ a Suc.prems(5)] by auto
    have cost: "walk_cost (mem k) pt a \<le> 2" by (rule walk_cost_le)
    with len have "walk_cost (mem k) pt a \<le> length xs" by linarith
    then obtain k2 xs2 where
      2: "mappages_loop pt lastva perm a pa k = mappages_loop pt lastva perm (a + PGSIZE) (pa + PGSIZE) k2"
      "vm_inv kend k2 pt xs2" "length xs \<le> length xs2 + walk_cost (mem k) pt a"
      "\<forall>v < MAXVA. xlate (mem k2) pt v = (if same_page a v then Some (leaf_entry pa perm) else xlate (mem k) pt v)"
      using mappages_step [OF Suc.prems(1) a _ None, of lastva perm pa] ne by auto
    have "mappages_loop pt lastva perm (a + PGSIZE) (pa + PGSIZE) k2 = Inl (Panic ''mappages:remap'')"
    proof (rule Suc.IH [OF 2(2)])
      show "unat (a + PGSIZE) mod 4096 = 0" using u Suc.prems(2) by simp
      show "unat (a + PGSIZE) + 4096 * Suc n \<le> unat MAXVA" using u Suc.prems(3) by simp
      show "2 * Suc n \<le> length xs2" using 2(3) cost Suc.prems(4) by simp
      show "v < MAXVA" by (rule Suc.prems(5))
      show "in_range (a + PGSIZE) (Suc n) v"
        using Suc.prems(6) np u by (auto simp: in_range_def same_page_def)
      show "xlate (mem k2) pt v \<noteq> None" using 2(4) np Suc.prems(5,7) by simp
      show "lastva = a + PGSIZE + PGSIZE * of_nat n" using Suc.prems(8) by (simp add: distrib_left)
    qed
    then show ?thesis using 2(1) by simp
  qed
qed

section \<open>walkaddr\<close>

lemma walk_levels_no_alloc:
  assumes inv: "vm_inv kend k pt xs"
  shows "walk_levels 2 pt va False k =
    (case node (mem k) pt [px 2 va, px 1 va] of None \<Rightarrow> (0, k) | Some t \<Rightarrow> (t + 8 * PX 0 va, k))"
proof -
  have "path_ok []" "path_ok [px 2 va]" by (simp_all add: path_ok_def px_less)
  then have ok: "node (mem k) pt [] = Some pt \<Longrightarrow> page_ok kend pt"
    "node (mem k) pt [px 2 va] = Some t \<Longrightarrow> page_ok kend t" for t
    using inv by (auto simp: vm_inv_def dest: pt_inv_node simp del: node.simps)
  have e: "load64 (mem k) (unat (t + 8 * PX l va)) = pte_at (mem k) t (px l va)" if "page_ok kend t" for t l
    using that by (simp add: unat_pte_addr pte_at_def)
  have step: "walk_levels (Suc l) t va False k = (if is_table (pte_at (mem k) t (px (Suc l) va))
      then walk_levels l (PTE2PA (pte_at (mem k) t (px (Suc l) va))) va False k else (0, k))"
    if "page_ok kend t" for t l
    using e [OF that, of "Suc l"] by (auto simp: Let_def is_table_def)
  have "page_ok kend pt" using ok(1) by simp
  moreover have "page_ok kend (PTE2PA (pte_at (mem k) pt (px 2 va)))"
    if "is_table (pte_at (mem k) pt (px 2 va))"
    using ok(2) that by simp
  moreover have "walk_levels 0 t va False k = (t + 8 * PX 0 va, k)" for t by simp
  ultimately show ?thesis
    using step [of pt 1, unfolded Suc_1]
      step [of "PTE2PA (pte_at (mem k) pt (px 2 va))" 0, folded One_nat_def]
    by (simp del: walk_levels.simps)
qed

lemma walkaddr_xlate:
  assumes "vm_inv kend k pt xs" and "va < MAXVA" and "xlate (mem k) pt va = Some e"
  shows "walkaddr pt va k = Inr (PTE2PA e)"
proof -
  obtain t where t: "node (mem k) pt [px 2 va, px 1 va] = Some t" "pte_at (mem k) t (px 0 va) = e"
    using assms(3) by (auto simp: xlate_def Let_def simp del: node.simps split: option.splits if_splits)
  have "path_ok [px 2 va, px 1 va]" by (simp add: path_ok_def px_less)
  then have tok: "page_ok kend t" using assms(1) t(1) by (auto simp: vm_inv_def dest: pt_inv_node)
  have u: "unat (t + 8 * PX 0 va) = unat t + 8 * px 0 va" by (rule unat_pte_addr [OF tok])
  then have "t + 8 * PX 0 va \<noteq> 0" using page_ok_unat [OF tok] by (metis add_is_0 less_irrefl unat_0)
  then show ?thesis
    using assms(2) t u by (simp add: walkaddr_def walk_eq [OF assms(1)] walk_levels_no_alloc [OF assms(1)] pte_at_def
        del: node.simps)
qed

section \<open>A fresh page table\<close>

text \<open>A cleared free page taken by \<^verbatim>\<open>uvmcreat\<close> is a page table that maps nothing.\<close>

lemma uvmcreat_fresh:
  assumes "kmem_inv kend k (n # xs)" and "pages_clear (mem k) (n # xs)"
  shows "\<exists>k'. uvmcreat k = (n, k') \<and> vm_inv kend k' n xs \<and> (\<forall>v. xlate (mem k') n v = None)"
proof -
  have n: "page_ok kend n" "n \<noteq> 0" "n \<notin> set xs"
    using assms(1) by (auto simp: kmem_inv_def page_ok_def)
  obtain k1 where k1: "kalloc k = (n, k1)" "kmem_inv kend k1 xs" "mem k1 = mem k"
    using kalloc_Cons [OF assms(1)] by metis
  have nt: "\<not> is_table (pte_at (mem k) n i)" if "i < 512" for i
    using assms(2) that by (auto simp: pages_clear_def dest: is_clear_not_table)
  have "is = [] \<and> a = n" if "path_ok is" "node (mem k) n is = Some a" for "is" a
    using that nt by (cases "is") (auto simp: path_ok_def split: if_splits)
  then have "pt_inv kend (mem k) n xs" using n by (auto simp: pt_inv_def)
  moreover have "xlate (mem k) n v = None" for v using nt [OF px_less] by (simp add: xlate_def)
  ultimately show ?thesis
    using k1 n(2) assms(2) by (auto simp: uvmcreat_def vm_inv_def pages_clear_def)
qed

text \<open>A small machine with a page table and four free pages, to evaluate the theorems on.\<close>

definition demo_mem :: store where
  "demo_mem = store64 (store64 (store64 (store64 (\<lambda>_. 0) 0x8000000 0x8001000) 0x8001000 0x8002000)
     0x8002000 0x8003000) 0x8003000 0x8004000"

definition demo_pmem :: pmem where
  "demo_pmem = \<lparr>mem = demo_mem, freelist = 0x8001000\<rparr>"

lemma demo_loads:
  "load64 demo_mem 0x8000000 = 0x8001000" "load64 demo_mem 0x8001000 = 0x8002000"
  "load64 demo_mem 0x8002000 = 0x8003000" "load64 demo_mem 0x8003000 = 0x8004000"
  by (simp_all add: demo_mem_def load_store_disjoint)

lemma demo_load_other:
  assumes "b \<notin> {0x8000000, 0x8001000, 0x8002000, 0x8003000}" and "b mod 8 = 0"
  shows "load64 demo_mem b = 0"
proof -
  have apart: "b + 8 \<le> c \<or> c + 8 \<le> b" if "c mod 8 = 0" "b \<noteq> c" for c :: nat
  proof -
    obtain q r where "b = 8 * q" "c = 8 * r"
      using assms(2) \<open>c mod 8 = 0\<close> by (auto simp: mod_eq_0_iff_dvd elim!: dvdE)
    with that show ?thesis by auto
  qed
  have "b + 8 \<le> c \<or> c + 8 \<le> b" if "c \<in> {0x8000000, 0x8001000, 0x8002000, 0x8003000}" for c
    using assms(1) that by (intro apart) auto
  then have "b + 8 \<le> 0x8000000 \<or> 0x8000000 + 8 \<le> b" "b + 8 \<le> 0x8001000 \<or> 0x8001000 + 8 \<le> b"
    "b + 8 \<le> 0x8002000 \<or> 0x8002000 + 8 \<le> b" "b + 8 \<le> 0x8003000 \<or> 0x8003000 + 8 \<le> b"
    by blast+
  then show ?thesis unfolding demo_mem_def by (simp only: load_store_disjoint(7) load_zeros)
qed

lemma demo_free: "kmem_inv 0x7000000 (demo_pmem\<lparr>freelist := 0x8000000\<rparr>)
    [0x8000000, 0x8001000, 0x8002000, 0x8003000, 0x8004000]"
  by (simp add: kmem_inv_def demo_pmem_def demo_loads demo_load_other page_ok_def)

lemma demo_clear: "pages_clear demo_mem [0x8000000, 0x8001000, 0x8002000, 0x8003000, 0x8004000]"
proof -
  have "is_clear (load64 demo_mem b)" if "b mod 8 = 0" for b
  proof (cases "b \<in> {0x8000000, 0x8001000, 0x8002000, 0x8003000}")
    case True
    then show ?thesis by (auto simp: demo_loads is_clear_def)
  next
    case False
    then show ?thesis using demo_load_other [OF False that] by (simp add: is_clear_def)
  qed
  then show ?thesis by (auto simp: pages_clear_def pte_at_def)
qed

lemma demo_vm: "vm_inv 0x7000000 demo_pmem 0x8000000 [0x8001000, 0x8002000, 0x8003000, 0x8004000]"
  and demo_unmapped: "xlate demo_mem 0x8000000 v = None"
proof -
  let ?k = "demo_pmem\<lparr>freelist := 0x8000000\<rparr>"
  have "uvmcreat ?k = (0x8000000, demo_pmem)"
    by (simp add: uvmcreat_def kalloc_def demo_pmem_def demo_loads)
  moreover have "pages_clear (mem ?k) [0x8000000, 0x8001000, 0x8002000, 0x8003000, 0x8004000]"
    using demo_clear by (simp add: demo_pmem_def)
  ultimately have "vm_inv 0x7000000 demo_pmem 0x8000000 [0x8001000, 0x8002000, 0x8003000, 0x8004000] \<and>
      xlate (mem demo_pmem) 0x8000000 v = None"
    using uvmcreat_fresh [OF demo_free] by auto
  then show "vm_inv 0x7000000 demo_pmem 0x8000000 [0x8001000, 0x8002000, 0x8003000, 0x8004000]"
    and "xlate demo_mem 0x8000000 v = None"
    by (auto simp: demo_pmem_def)
qed

section \<open>Properties\<close>

text \<open>
  C1. Refinement of \<^verbatim>\<open>mappages\<close>. On a page table in good order, with an aligned range below
  \<^verbatim>\<open>MAXVA\<close> none of which is mapped, and with as many free pages as the missing tables need
  (\<open>map_cost\<close>), \<^verbatim>\<open>mappages\<close> returns 0, keeps the page table and the free list in good order, and changes the translation
  exactly as specified: every page of the range is mapped to the corresponding physical page with
  the given permissions, every other virtual address keeps its translation.
\<close>

theorem mappages_refines:
  assumes "vm_inv kend k pt xs" and "va mod PGSIZE = 0" and "sz mod PGSIZE = 0" and "sz \<noteq> 0"
    and "unat va + unat sz \<le> unat MAXVA" and "map_cost (mem k) pt va (unat sz div 4096 - 1) \<le> length xs"
    and "\<forall>v < MAXVA. in_range va (unat sz div 4096) v \<longrightarrow> xlate (mem k) pt v = None"
  shows "\<exists>k' xs'. mappages pt va pa sz perm k = Inr (0, k') \<and> vm_inv kend k' pt xs' \<and>
    (\<forall>v < MAXVA. xlate (mem k') pt v = map_spec va pa (unat sz div 4096) perm (xlate (mem k) pt) v)"
  using mappages_uses [OF assms] by blast

theorem mappages_refines_witness:
  "\<exists>k' xs'. mappages 0x8000000 0x3000 0x9000 0x1000 0x40 demo_pmem = Inr (0, k') \<and>
     vm_inv 0x7000000 k' 0x8000000 xs' \<and>
     (\<forall>v < MAXVA. xlate (mem k') 0x8000000 v =
        map_spec 0x3000 0x9000 (unat (0x1000 :: u64) div 4096) 0x40 (xlate (mem demo_pmem) 0x8000000) v)"
  by (rule mappages_refines [OF demo_vm]) (simp_all add: demo_pmem_def demo_unmapped map_cost_def walk_cost_def del: node.simps)

lemma leaf_entry_pa:
  assumes "unat pa mod 4096 = 0" and "unat pa < 2 ^ 48" and "attr_bits perm"
  shows "PTE2PA (leaf_entry pa perm) = pa"
  using PTE2PA_entry [OF assms(1,2), of "perm OR PTE_AF OR PTE_V"] assms(3)
  by (simp only: leaf_entry_def or.assoc attr_bits_or attr_bits_simps simp_thms)

text \<open>
  C10. Round trip of \<^verbatim>\<open>mappages\<close> and \<^verbatim>\<open>walkaddr\<close>: after an aligned range has been mapped,
  \<^verbatim>\<open>walkaddr\<close> of any address in it finds the physical page it was mapped to.
\<close>

theorem walkaddr_after_mappages:
  assumes inv: "vm_inv kend k pt xs" and va: "va mod PGSIZE = 0" and sz: "sz mod PGSIZE = 0" "sz \<noteq> 0"
    and top: "unat va + unat sz \<le> unat MAXVA" and mem: "2 * (unat sz div 4096) \<le> length xs"
    and un: "\<forall>v < MAXVA. in_range va (unat sz div 4096) v \<longrightarrow> xlate (mem k) pt v = None"
    and pa: "pa mod PGSIZE = 0" "unat pa + unat sz \<le> 2 ^ 48" and perm: "attr_bits perm"
    and v: "in_range va (unat sz div 4096) v"
  shows "\<exists>k'. mappages pt va pa sz perm k = Inr (0, k') \<and>
    walkaddr pt v k' = Inr (pa + PGSIZE * of_nat (unat v div 4096 - unat va div 4096))"
proof -
  let ?d = "unat v div 4096 - unat va div 4096"
  have d: "?d < unat sz div 4096" using v by (auto simp: in_range_def)
  then have "4096 * Suc ?d \<le> 4096 * (unat sz div 4096)" by (intro mult_le_mono2) simp
  then have "4096 * ?d + 4096 \<le> unat sz" using times_div_less_eq_dividend [of 4096 "unat sz"] by (simp only: mult_Suc_right)
  then have u: "unat (pa + PGSIZE * of_nat ?d) = unat pa + 4096 * ?d"
    using pa(2) by (simp add: unat_word_ariths unat_of_nat)
  have vmax: "v < MAXVA"
  proof -
    have "unat v div 4096 < unat va div 4096 + unat sz div 4096" using v by (simp add: in_range_def)
    moreover have "unat va mod 4096 = 0" "unat sz mod 4096 = 0"
      using va sz by (simp_all add: word_mod_0_iff)
    ultimately have "unat v < (unat va div 4096 + unat sz div 4096) * 4096"
      by (simp only: div_less_iff_less_mult zero_less_numeral)
    also have "\<dots> = unat va + unat sz"
      using \<open>unat va mod 4096 = 0\<close> \<open>unat sz mod 4096 = 0\<close>
        div_mult_mod_eq [of "unat va" 4096] div_mult_mod_eq [of "unat sz" 4096]
      by (simp only: distrib_right add_0_right)
    finally have "unat v < unat va + unat sz" .
    then show ?thesis using top by (simp add: word_less_nat_alt)
  qed
  obtain k' xs' where k': "mappages pt va pa sz perm k = Inr (0, k')" "vm_inv kend k' pt xs'"
    "xlate (mem k') pt v = map_spec va pa (unat sz div 4096) perm (xlate (mem k) pt) v"
    using mappages_maps [OF inv va sz top mem un] vmax by blast
  have "PTE2PA (leaf_entry (pa + PGSIZE * of_nat ?d) perm) = pa + PGSIZE * of_nat ?d"
    using u pa \<open>4096 * ?d + 4096 \<le> unat sz\<close> perm
    by (intro leaf_entry_pa) (simp_all add: word_mod_0_iff mod_add_eq)
  then show ?thesis
    using k' v walkaddr_xlate [OF k'(2) vmax] by (simp add: map_spec_def)
qed

theorem walkaddr_after_mappages_witness:
  "\<exists>k'. mappages 0x8000000 0x3000 0x9000 0x1000 0x40 demo_pmem = Inr (0, k') \<and>
     walkaddr 0x8000000 0x3004 k' =
       Inr (0x9000 + PGSIZE * of_nat (unat (0x3004 :: u64) div 4096 - unat (0x3000 :: u64) div 4096))"
  by (rule walkaddr_after_mappages [OF demo_vm]) (simp_all add: demo_pmem_def demo_unmapped in_range_def)

text \<open>
  C14. \<^verbatim>\<open>mappages\<close> never overwrites a mapping: if some page of the range is already mapped, and
  memory does not run out before, it panics with \<^verbatim>\<open>mappages:remap\<close>.
\<close>

theorem mappages_remap_panics:
  assumes "vm_inv kend k pt xs" and "va mod PGSIZE = 0" and "sz mod PGSIZE = 0" and "sz \<noteq> 0"
    and "unat va + unat sz \<le> unat MAXVA" and "2 * (unat sz div 4096) \<le> length xs"
    and "v < MAXVA" and "in_range va (unat sz div 4096) v" and "xlate (mem k) pt v \<noteq> None"
  shows "mappages pt va pa sz perm k = Inl (Panic ''mappages:remap'')"
proof -
  obtain n where n: "unat sz = 4096 * Suc n" "va + sz - PGSIZE = va + PGSIZE * of_nat n"
    using sz_pages [OF assms(3,4)] by metis
  then have d: "unat sz div 4096 = Suc n" by simp
  have "mappages_loop pt (va + sz - PGSIZE) perm va pa k = Inl (Panic ''mappages:remap'')"
    using assms d n by (intro mappages_loop_remap [where v = v and n = n]) (auto simp: word_mod_0_iff)
  then show ?thesis by (simp only: mappages_def assms refl if_False not_True_eq_False)
qed

theorem mappages_remap_panics_witness:
  "\<exists>k1. mappages 0x8000000 0x3000 0x9000 0x1000 0x40 demo_pmem = Inr (0, k1) \<and>
     mappages 0x8000000 0x3000 0xA000 0x1000 0x40 k1 = Inl (Panic ''mappages:remap'')"
proof -
  obtain k1 xs1 where k1: "mappages 0x8000000 0x3000 0x9000 0x1000 0x40 demo_pmem = Inr (0, k1)"
    "vm_inv 0x7000000 k1 0x8000000 xs1" "4 \<le> length xs1 + 2 * (unat (0x1000 :: u64) div 4096)"
    "\<forall>v < MAXVA. xlate (mem k1) 0x8000000 v =
       map_spec 0x3000 0x9000 (unat (0x1000 :: u64) div 4096) 0x40 (xlate (mem demo_pmem) 0x8000000) v"
    using mappages_maps [OF demo_vm, where va = "0x3000" and sz = "0x1000" and pa = "0x9000" and perm = "0x40"]
    by (auto simp: demo_pmem_def demo_unmapped)
  have "mappages 0x8000000 0x3000 0xA000 0x1000 0x40 k1 = Inl (Panic ''mappages:remap'')"
    by (rule mappages_remap_panics [OF k1(2), where v = "0x3000"])
      (use k1(3,4) in \<open>simp_all add: in_range_def map_spec_def\<close>)
  with k1(1) show ?thesis by blast
qed

text \<open>
  A page table made by \<^verbatim>\<open>uvmcreat\<close> from a cleared free page is in good order and maps nothing.
\<close>

theorem uvmcreat_maps_nothing:
  assumes "kmem_inv kend k (n # xs)" and "pages_clear (mem k) (n # xs)"
  shows "\<exists>k'. uvmcreat k = (n, k') \<and> vm_inv kend k' n xs \<and> (\<forall>v. xlate (mem k') n v = None)"
  using assms by (rule uvmcreat_fresh)

theorem uvmcreat_maps_nothing_witness:
  "\<exists>k'. uvmcreat (demo_pmem\<lparr>freelist := 0x8000000\<rparr>) = (0x8000000, k') \<and>
     vm_inv 0x7000000 k' 0x8000000 [0x8001000, 0x8002000, 0x8003000, 0x8004000] \<and>
     (\<forall>v. xlate (mem k') 0x8000000 v = None)"
  by (rule uvmcreat_maps_nothing [OF demo_free]) (simp add: demo_pmem_def demo_clear)

end
