(* ===== verification/Vm_Frame.thy ===== *)
theory Vm_Frame
  imports Vm_Refine "HOL-Library.Sublist"
begin

text \<open>
  What building a page table leaves alone: \<open>walk\<close> and \<open>mappages\<close> change nothing of the state but
  the memory and the free list, and in the memory nothing but the tables of the page table they
  work on and pages they take from the free list. So mapping memory for one process keeps the
  translations of every other.
\<close>

section \<open>The rest of the state\<close>

lemma kalloc_more: "pmem.more (snd (kalloc k)) = pmem.more k"
  by (simp add: kalloc_def Let_def)

lemma walk_levels_more: "pmem.more (snd (walk_levels l pt va alloc k)) = pmem.more k"
proof (induction l pt va alloc k rule: walk_levels.induct)
  case (2 level pagetable va alloc k)
  then show ?case
    using kalloc_more [of k] by (auto simp: Let_def split: prod.splits)
qed simp

lemma walk_more: "walk pt va alloc k = Inr (pte, k1) \<Longrightarrow> pmem.more k1 = pmem.more k"
  using walk_levels_more [of 2 pt va alloc k] by (auto simp: walk_def split: if_splits)

lemma mappages_loop_more: "mappages_loop pt lastva perm a pa k = Inr (r, k') \<Longrightarrow> pmem.more k' = pmem.more k"
proof (induction pt lastva perm a pa k rule: mappages_loop.induct)
  case (1 pt lastva perm a pa k)
  from "1.prems" obtain pte k1 where w: "walk pt a True k = Inr (pte, k1)"
    by (auto simp: mappages_loop.simps [of _ _ _ a] result_simps)
  show ?case using "1.prems" "1.IH" [OF w refl] walk_more [OF w]
    by (auto simp: mappages_loop.simps [of _ _ _ a] w Let_def split: if_splits)
qed

lemma mappages_more: "mappages pt va pa sz perm k = Inr (r, k') \<Longrightarrow> pmem.more k' = pmem.more k"
  using mappages_loop_more by (auto simp: mappages_def split: if_splits)

section \<open>The rest of the memory\<close>

definition tables :: "store \<Rightarrow> u64 \<Rightarrow> u64 set" where
  "tables m pt = {a. \<exists>is. path_ok is \<and> node m pt is = Some a}"

definition same_bytes :: "store \<Rightarrow> store \<Rightarrow> u64 \<Rightarrow> bool" where
  "same_bytes m m' b \<longleftrightarrow> (\<forall>i. unat b \<le> i \<longrightarrow> i < unat b + 4096 \<longrightarrow> m' i = m i)"

definition pt_frame :: "u64 \<Rightarrow> u64 \<Rightarrow> 'a pmem_scheme \<Rightarrow> u64 list \<Rightarrow> 'a pmem_scheme \<Rightarrow> u64 list \<Rightarrow> bool" where
  "pt_frame kend pt k xs k' xs' \<longleftrightarrow>
     suffix xs' xs \<and> tables (mem k') pt \<subseteq> tables (mem k) pt \<union> set xs \<and>
     (\<forall>b. page_ok kend b \<longrightarrow> b \<notin> set xs \<longrightarrow> b \<notin> tables (mem k) pt \<longrightarrow> same_bytes (mem k) (mem k') b)"

lemma pt_frame_refl: "pt_frame kend pt k xs k xs"
  by (auto simp: pt_frame_def same_bytes_def)

lemma pt_frame_trans:
  assumes "pt_frame kend pt k xs k1 xs1" and "pt_frame kend pt k1 xs1 k2 xs2"
  shows "pt_frame kend pt k xs k2 xs2"
proof -
  have "set xs1 \<subseteq> set xs" using assms(1) by (auto simp: pt_frame_def suffix_def)
  with assms show ?thesis
    unfolding pt_frame_def same_bytes_def by (auto intro: suffix_order.order_trans)
qed

lemma same_bytes_entry:
  assumes "page_ok kend t" and "page_ok kend b" and "b \<noteq> t" and "i < 512"
  shows "same_bytes m (store64 m (unat t + 8 * i) e) b"
  using page_ok_apart [OF assms(1,2)] assms(3,4) by (auto simp: same_bytes_def store64_other)

lemma vm_inv_unique: "vm_inv kend k pt xs \<Longrightarrow> vm_inv kend k pt ys \<Longrightarrow> xs = ys"
  by (auto simp: vm_inv_def kmem_inv_def dest: flist_unique)

lemma descend_frame:
  assumes inv: "vm_inv kend k pt xs" and t: "node (mem k) pt p = Some t" and p: "path_ok p" "length p \<le> 1"
    and d: "descend t level va k = (r, k')" and inv': "vm_inv kend k' pt xs'"
  shows "pt_frame kend pt k xs k' xs'"
proof (cases "k' = k")
  case True
  then have "xs' = xs" using inv inv' vm_inv_unique by blast
  with True show ?thesis by (simp add: pt_frame_refl)
next
  case False
  let ?i = "px level va"
  have kinv: "kmem_inv kend k xs" and cl: "pages_clear (mem k) xs" and ptinv: "pt_inv kend (mem k) pt xs"
    using inv by (auto simp: vm_inv_def)
  have tok: "page_ok kend t" "t \<notin> set xs" using pt_inv_node [OF ptinv p(1) t] by auto
  have u: "unat (t + 8 * PX level va) = unat t + 8 * ?i" by (rule unat_pte_addr [OF tok(1)])
  have "xs \<noteq> []"
    using d False kinv kpages.alloc_none [of kend k] by (auto simp: descend_def Let_def split: if_splits)
  then obtain n ns where xs: "xs = n # ns" by (cases xs) auto
  let ?m = "store64 (mem k) (unat t + 8 * ?i) (PA2PTE n OR PTE_VALID OR PTE_TABLE)"
  have n: "page_ok kend n" "n \<noteq> 0" using kinv xs by (auto simp: kmem_inv_def page_ok_def)
  obtain k1 where k1: "kalloc k = (n, k1)" "kmem_inv kend k1 ns" "mem k1 = mem k"
    using kalloc_Cons [OF kinv [unfolded xs]] by metis
  have nt: "\<not> is_table (pte_at (mem k) t ?i)" and k': "k' = k1\<lparr>mem := ?m\<rparr>"
    using d False n(2) k1(1,3) unfolding descend_def Let_def u by (auto simp: pte_at_def split: if_splits)
  have pi: "path_ok (p @ [?i])" using p by (simp add: path_ok_snoc px_less)
  have "kmem_inv kend k' ns"
    unfolding k' using kmem_inv_store [OF k1(2) tok(1), of ?i] tok(2) xs by (auto simp: k1(3) px_less)
  then have "xs' = ns" using inv' by (auto simp: vm_inv_def kmem_inv_def dest: flist_unique)
  moreover have "tables ?m pt \<subseteq> insert n (tables (mem k) pt)"
    using node_install [OF ptinv [unfolded xs] cl [unfolded xs] n(1) t pi nt refl]
    by (auto simp: tables_def split: if_splits)
  moreover have "t \<in> tables (mem k) pt" using t p by (auto simp: tables_def)
  then have "same_bytes (mem k) ?m b" if "page_ok kend b" "b \<notin> tables (mem k) pt" for b
    using that tok(1) by (intro same_bytes_entry) (auto simp: px_less)
  ultimately show ?thesis using k' xs by (auto simp: pt_frame_def suffix_def)
qed

lemma walk_frame:
  assumes inv: "vm_inv kend k pt xs" and w: "walk_levels 2 pt va True k = (pte, k')"
    and inv': "vm_inv kend k' pt xs'"
  shows "pt_frame kend pt k xs k' xs'"
proof -
  obtain r1 k1 where d1: "descend pt 2 va k = (r1, k1)" by force
  have p0: "node (mem k) pt [] = Some pt" "path_ok []" by (auto simp: path_ok_def)
  then obtain xs1 where 1: "vm_inv kend k1 pt xs1" "node (mem k1) pt [px 2 va] = r1"
    using descend_inv [OF inv _ _ _ d1, of "[]"] by auto
  have f1: "pt_frame kend pt k xs k1 xs1" using descend_frame [OF inv p0 _ d1 1(1)] by simp
  have w2: "walk_levels 2 pt va True k = (case r1 of None \<Rightarrow> (0, k1) | Some t \<Rightarrow> walk_levels 1 t va True k1)"
    using walk_levels_descend [of 1 pt va k] d1 by (simp add: numeral_2_eq_2)
  show ?thesis
  proof (cases r1)
    case None
    then have "k' = k1" using w w2 by simp
    moreover from this have "xs' = xs1" using 1(1) inv' vm_inv_unique by blast
    ultimately show ?thesis using f1 by simp
  next
    case (Some t1)
    obtain r2 k2 where d2: "descend t1 1 va k1 = (r2, k2)" by force
    have "walk_levels 1 t1 va True k1 = (case r2 of None \<Rightarrow> (0, k2) | Some t \<Rightarrow> (t + 8 * PX 0 va, k2))"
      using walk_levels_descend [of 0 t1 va k1] d2 by (simp split: option.splits)
    then have "k' = k2" using w w2 Some by (auto split: option.splits)
    then have "pt_frame kend pt k1 xs1 k' xs'"
      using descend_frame [OF 1(1) 1(2) [unfolded Some] _ _ d2] inv' by (simp add: path_ok_def px_less)
    with f1 show ?thesis by (rule pt_frame_trans)
  qed
qed

lemma leaf_frame:
  assumes inv: "vm_inv kend k pt xs" and t: "node (mem k) pt [px 2 va, px 1 va] = Some t" and va: "va < MAXVA"
  shows "pt_frame kend pt k xs (k\<lparr>mem := store64 (mem k) (unat t + 8 * px 0 va) e\<rparr>) xs"
proof -
  have q: "path_ok [px 2 va, px 1 va]" by (simp add: path_ok_def px_less)
  have tok: "page_ok kend t" "t \<in> tables (mem k) pt"
    using inv t q by (auto simp: vm_inv_def tables_def dest: pt_inv_node)
  have "tables (store64 (mem k) (unat t + 8 * px 0 va) e) pt \<subseteq> tables (mem k) pt"
    using leaf_store_node [OF inv t refl] by (auto simp: tables_def)
  then show ?thesis
    using tok by (auto simp: pt_frame_def px_less intro!: same_bytes_entry)
qed

lemma mappages_loop_step:
  assumes "walk pt a True k = Inr (pte, k1)" and "pte \<noteq> 0" and "load64 (mem k1) (unat pte) AND PTE_V = 0"
  shows "mappages_loop pt lastva perm a pa k =
    (let k2 = k1\<lparr>mem := store64 (mem k1) (unat pte) (leaf_entry pa perm)\<rparr>
     in if a = lastva then Inr (0, k2) else mappages_loop pt lastva perm (a + PGSIZE) (pa + PGSIZE) k2)"
  by (subst mappages_loop.simps) (simp only: assms bindR.simps prod.case leaf_entry_def if_False refl not_True_eq_False)

lemma mappages_loop_frame:
  "vm_inv kend k pt xs \<Longrightarrow> mappages_loop pt lastva perm a pa k = Inr (r, k') \<Longrightarrow>
    \<exists>xs'. vm_inv kend k' pt xs' \<and> pt_frame kend pt k xs k' xs'"
proof (induction pt lastva perm a pa k arbitrary: xs rule: mappages_loop.induct)
  case (1 pt lastva perm a pa k)
  from "1.prems" obtain pte k1 where w: "walk pt a True k = Inr (pte, k1)"
    by (auto simp: mappages_loop.simps [of _ _ _ a] result_simps)
  then have a: "a < MAXVA" and wl: "walk_levels 2 pt a True k = (pte, k1)"
    by (auto simp: walk_def split: if_splits)
  from walk_inv [OF "1.prems"(1) wl] obtain xs1 where x1: "vm_inv kend k1 pt xs1"
    "pte = 0 \<or> (\<exists>t. node (mem k1) pt [px 2 a, px 1 a] = Some t \<and> pte = t + 8 * PX 0 a)"
    by (auto split: if_splits)
  note f1 = walk_frame [OF "1.prems"(1) wl x1(1)]
  show ?case
  proof (cases "pte = 0")
    case True
    with "1.prems"(2) w x1 f1 show ?thesis by (auto simp: mappages_loop.simps [of _ _ _ a])
  next
    case False
    let ?e = "leaf_entry pa perm"
    let ?k2 = "k1\<lparr>mem := store64 (mem k1) (unat pte) ?e\<rparr>"
    obtain t where t: "node (mem k1) pt [px 2 a, px 1 a] = Some t" "pte = t + 8 * PX 0 a"
      using False x1(2) by auto
    have "path_ok [px 2 a, px 1 a]" by (simp add: path_ok_def px_less)
    then have "page_ok kend t" using x1(1) t(1) by (auto simp: vm_inv_def dest: pt_inv_node)
    then have u: "unat pte = unat t + 8 * px 0 a" using t(2) by (simp add: unat_pte_addr)
    have i2: "vm_inv kend ?k2 pt xs1" using leaf_store(1) [OF x1(1) t(1) refl a] u by simp
    have f2: "pt_frame kend pt k xs ?k2 xs1"
      using pt_frame_trans [OF f1 leaf_frame [OF x1(1) t(1) a]] u by simp
    have ok: "load64 (mem k1) (unat pte) AND PTE_V = 0"
      using "1.prems"(2) w False by (auto simp: mappages_loop.simps [of _ _ _ a] split: if_splits)
    note step = mappages_loop_step [OF w False ok, of lastva perm pa]
    show ?thesis
    proof (cases "a = lastva")
      case True
      then have "k' = ?k2" using "1.prems"(2) step by simp
      with i2 f2 show ?thesis by blast
    next
      case ne: False
      have "mappages_loop pt lastva perm (a + PGSIZE) (pa + PGSIZE) ?k2 = Inr (r, k')"
        using "1.prems"(2) step ne by simp
      then obtain xs' where "vm_inv kend k' pt xs'" "pt_frame kend pt ?k2 xs1 k' xs'"
        using "1.IH" [OF w refl False _ _ ne i2] ok by (auto simp: leaf_entry_def Let_def or.assoc)
      then show ?thesis using pt_frame_trans [OF f2] by blast
    qed
  qed
qed

lemma mappages_frame:
  assumes "vm_inv kend k pt xs" and "mappages pt va pa sz perm k = Inr (r, k')"
  shows "\<exists>xs'. vm_inv kend k' pt xs' \<and> pt_frame kend pt k xs k' xs'"
  using mappages_loop_frame [OF assms(1)] assms(2) by (auto simp: mappages_def split: if_splits)

section \<open>Other page tables\<close>

lemma pte_at_same: "same_bytes m m' t \<Longrightarrow> i < 512 \<Longrightarrow> pte_at m' t i = pte_at m t i"
  by (auto simp: pte_at_def same_bytes_def intro: load64_cong)

lemma node_same:
  assumes "\<forall>b \<in> tables m pt. same_bytes m m' b"
  shows "path_ok q \<Longrightarrow> node m' pt q = node m pt q"
proof (induction q rule: rev_induct)
  case (snoc j q)
  then have q: "path_ok q" "j < 512" "node m' pt q = node m pt q" by (auto simp: path_ok_snoc)
  then have "pte_at m' a j = pte_at m a j" if "node m pt q = Some a" for a
    using that assms by (intro pte_at_same) (auto simp: tables_def)
  with q show ?case by (auto simp: node_snoc split: option.splits)
qed simp

lemma xlate_same:
  assumes "\<forall>b \<in> tables m pt. same_bytes m m' b"
  shows "xlate m' pt v = xlate m pt v"
proof -
  have q: "path_ok [px 2 v, px 1 v]" by (simp add: path_ok_def px_less)
  then have "pte_at m' a (px 0 v) = pte_at m a (px 0 v)" if "node m pt [px 2 v, px 1 v] = Some a" for a
    using that assms by (intro pte_at_same) (auto simp: tables_def px_less simp del: node.simps)
  then show ?thesis
    using node_same [OF assms q] by (auto simp: xlate_def simp del: node.simps split: option.splits)
qed

lemma pt_frame_other:
  assumes fr: "pt_frame kend pt k xs k' xs'" and inv': "vm_inv kend k' pt xs'"
    and o: "vm_inv kend k pt2 xs" and dis: "tables (mem k) pt \<inter> tables (mem k) pt2 = {}"
  shows "vm_inv kend k' pt2 xs' \<and> tables (mem k') pt2 = tables (mem k) pt2 \<and>
    tables (mem k') pt \<inter> tables (mem k') pt2 = {} \<and> (\<forall>v. xlate (mem k') pt2 v = xlate (mem k) pt2 v)"
proof -
  have o2: "page_ok kend b \<and> b \<notin> set xs" if "b \<in> tables (mem k) pt2" for b
    using that o by (auto simp: tables_def vm_inv_def dest: pt_inv_node)
  have same: "\<forall>b \<in> tables (mem k) pt2. same_bytes (mem k) (mem k') b"
    using fr dis o2 by (auto simp: pt_frame_def)
  note nd = node_same [OF same]
  have t2: "tables (mem k') pt2 = tables (mem k) pt2" using nd by (auto simp: tables_def)
  have "set xs' \<subseteq> set xs" using fr by (auto simp: pt_frame_def suffix_def)
  then have "pt_inv kend (mem k') pt2 xs'" using o nd by (auto simp: vm_inv_def pt_inv_def)
  then have "vm_inv kend k' pt2 xs'" using inv' by (simp add: vm_inv_def)
  moreover have "tables (mem k') pt \<inter> tables (mem k') pt2 = {}"
    using fr dis o2 t2 by (auto simp: pt_frame_def)
  ultimately show ?thesis using t2 xlate_same [OF same] by simp
qed

lemma vm_inv_kalloc:
  assumes "vm_inv kend k pt (n # xs)"
  shows "\<exists>k1. kalloc k = (n, k1) \<and> vm_inv kend k1 pt xs \<and> mem k1 = mem k"
proof -
  obtain k1 where "kalloc k = (n, k1)" "kmem_inv kend k1 xs" "mem k1 = mem k"
    using kalloc_Cons [of kend k n xs] assms by (auto simp: vm_inv_def)
  moreover have "pt_inv kend (mem k) pt xs" "pages_clear (mem k) xs"
    using assms by (auto simp: vm_inv_def pt_inv_def pages_clear_def)
  ultimately show ?thesis by (auto simp: vm_inv_def)
qed

lemma tables_root: "pt \<in> tables m pt"
  by (auto simp: tables_def path_ok_def intro!: exI [of _ "[]"])

lemma tables_fresh: "\<forall>i < 512. is_clear (pte_at m pt i) \<Longrightarrow> tables m pt = {pt}"
proof -
  assume c: "\<forall>i < 512. is_clear (pte_at m pt i)"
  then have "a = pt" if "path_ok q" "node m pt q = Some a" for q a
    using that is_clear_not_table by (cases q) (auto simp: path_ok_def split: if_splits)
  then show ?thesis using tables_root by (auto simp: tables_def)
qed

section \<open>Machines with clear free pages\<close>

text \<open>\<open>n\<close> clear pages on the free list, to evaluate the theorems on.\<close>

fun free_mem :: "nat \<Rightarrow> store" where
  "free_mem 0 = (\<lambda>_. 0)"
| "free_mem (Suc n) = store64 (free_mem n) (0x8000000 + 4096 * n) (if n = 0 then 0 else 0x8000000 + 4096 * (of_nat n - 1))"

fun free_pages :: "nat \<Rightarrow> u64 list" where
  "free_pages 0 = []"
| "free_pages (Suc n) = (0x8000000 + 4096 * of_nat n) # free_pages n"

definition free_top :: "nat \<Rightarrow> u64" where
  "free_top n = (if n = 0 then 0 else 0x8000000 + 4096 * (of_nat n - 1))"

lemma unat_free_page: "n < 100 \<Longrightarrow> unat (0x8000000 + 4096 * of_nat n :: u64) = 0x8000000 + 4096 * n"
  by (simp add: unat_word_ariths unat_of_nat)

lemma free_pages_set: "set (free_pages n) = (\<lambda>i. 0x8000000 + 4096 * of_nat i) ` {..<n}"
  by (induction n) (auto simp: lessThan_Suc)

lemma free_page_ok: "n < 100 \<Longrightarrow> page_ok 0x7000000 (0x8000000 + 4096 * of_nat n)"
  using unat_free_page [of n] by (simp add: page_ok_def word_le_nat_alt word_less_nat_alt word_unat_eq_iff)

lemma free_page_new: "n < 100 \<Longrightarrow> (0x8000000 + 4096 * of_nat n :: u64) \<notin> set (free_pages n)"
proof
  assume n: "n < 100" and "(0x8000000 + 4096 * of_nat n :: u64) \<in> set (free_pages n)"
  then obtain i where i: "i < n" "(0x8000000 + 4096 * of_nat n :: u64) = 0x8000000 + 4096 * of_nat i"
    by (auto simp: free_pages_set)
  then have "unat (0x8000000 + 4096 * of_nat n :: u64) = unat (0x8000000 + 4096 * of_nat i :: u64)" by simp
  then show False using i(1) n unat_free_page [of n] unat_free_page [of i] by simp
qed

lemma free_mem_inv:
  "n \<le> 100 \<Longrightarrow> kmem_inv 0x7000000 \<lparr>mem = free_mem n, freelist = free_top n\<rparr> (free_pages n)"
proof (induction n)
  case (Suc n)
  then have n: "n < 100" and IH: "kmem_inv 0x7000000 \<lparr>mem = free_mem n, freelist = free_top n\<rparr> (free_pages n)"
    by simp_all
  have "kmem_inv 0x7000000 \<lparr>mem = store64 (free_mem n) (unat (0x8000000 + 4096 * of_nat n :: u64)) (free_top n),
      freelist = 0x8000000 + 4096 * of_nat n\<rparr> (free_pages (Suc n))"
    using kfree_pages [OF IH free_page_ok [OF n] free_page_new [OF n]] 
      kfree_ok [OF free_page_ok [OF n], of "\<lparr>mem = free_mem n, freelist = free_top n\<rparr>"] by auto
  then show ?case using n by (simp add: unat_free_page free_top_def)
qed (simp add: kmem_inv_def free_top_def)

lemma aligned_clear: "unat a mod 4096 = 0 \<Longrightarrow> is_clear a"
proof -
  assume a: "unat a mod 4096 = 0"
  have "a AND 3 = take_bit 2 a" by (simp add: take_bit_eq_mask mask_eq_exp_minus_1)
  then have "unat (a AND 3) = unat a mod 4" by (simp add: take_bit_eq_mod unat_mod)
  also have "unat a mod 4 = unat a mod 4096 mod 4" by (rule mod_mod_cancel [symmetric]) simp
  also have "\<dots> = 0" using a by simp
  finally show ?thesis by (simp add: is_clear_def unat_eq_zero)
qed

lemma free_mem_clear: "n \<le> 100 \<Longrightarrow> m \<le> 100 \<Longrightarrow> pages_clear (free_mem n) (free_pages m)"
proof (induction n)
  case 0
  then show ?case by (simp add: pages_clear_def pte_at_def is_clear_def)
next
  case (Suc n)
  have top: "is_clear (free_top n)"
    using unat_free_page [of "n - 1"] Suc.prems(1)
    by (cases n) (auto simp: free_top_def intro!: aligned_clear)
  have ok: "\<forall>a \<in> set (free_pages m). page_ok 0x7000000 a" using Suc.prems(2) free_page_ok by (auto simp: free_pages_set)
  show ?case unfolding pages_clear_def
  proof (intro ballI allI impI)
    fix a i assume a: "a \<in> set (free_pages m)" and i: "i < (512 :: nat)"
    let ?p = "0x8000000 + 4096 * of_nat n :: u64"
    have e: "free_mem (Suc n) = store64 (free_mem n) (unat ?p + 8 * 0) (free_top n)"
      using Suc.prems(1) by (simp add: unat_free_page free_top_def)
    show "is_clear (pte_at (free_mem (Suc n)) a i)"
    proof (cases "a = ?p \<and> i = 0")
      case True
      then show ?thesis unfolding e using top by (metis pte_at_store_same)
    next
      case False
      then have "pte_at (free_mem (Suc n)) a i = pte_at (free_mem n) a i"
        unfolding e using ok a i Suc.prems by (intro pte_at_store_other [of "0x7000000"]) (auto intro: free_page_ok)
      then show ?thesis using Suc a i by (simp add: pages_clear_def)
    qed
  qed
qed

section \<open>Properties\<close>

text \<open>
  C9. Address spaces are separate. If two page tables in good order share no table, then whatever
  \<^verbatim>\<open>mappages\<close> does in one of them, unless it panics, keeps all translations of the other, and both
  stay in good order and apart.
\<close>

theorem mappages_isolates:
  assumes "vm_inv kend k pt xs" and "vm_inv kend k pt2 xs" and "tables (mem k) pt \<inter> tables (mem k) pt2 = {}"
    and "mappages pt va pa sz perm k = Inr (r, k')"
  shows "(\<forall>v. xlate (mem k') pt2 v = xlate (mem k) pt2 v) \<and>
    tables (mem k') pt \<inter> tables (mem k') pt2 = {} \<and>
    (\<exists>xs'. vm_inv kend k' pt xs' \<and> vm_inv kend k' pt2 xs')"
  using mappages_frame [OF assms(1,4)] pt_frame_other [OF _ _ assms(2,3)] by metis

theorem mappages_isolates_witness:
  "\<exists>k k'. uvmcreat (demo_pmem\<lparr>freelist := 0x8001000\<rparr>) = (0x8001000, k) \<and>
     mappages 0x8001000 0x3000 0x9000 0x1000 0x40 k = Inr (0, k') \<and>
     (\<forall>v. xlate (mem k') 0x8000000 v = xlate (mem k) 0x8000000 v)"
proof -
  let ?xs = "[0x8002000, 0x8003000, 0x8004000] :: u64 list"
  let ?k0 = "demo_pmem\<lparr>freelist := 0x8001000\<rparr>"
  have k0: "?k0 = demo_pmem" by (simp add: demo_pmem_def)
  have i0: "kmem_inv 0x7000000 ?k0 (0x8001000 # ?xs)" and c0: "pages_clear (mem ?k0) (0x8001000 # ?xs)"
    using demo_vm k0 by (simp_all add: vm_inv_def)
  obtain k where k: "uvmcreat ?k0 = (0x8001000, k)" "vm_inv 0x7000000 k 0x8001000 ?xs"
    "\<forall>v. xlate (mem k) 0x8001000 v = None"
    using uvmcreat_fresh [OF i0 c0] by blast
  obtain k1 where k1: "kalloc demo_pmem = (0x8001000, k1)" "vm_inv 0x7000000 k1 0x8000000 ?xs" "mem k1 = mem demo_pmem"
    using vm_inv_kalloc [OF demo_vm] by blast
  with k(1) k0 have kk: "k1 = k" by (auto simp: uvmcreat_def)
  have clr: "\<forall>i < 512. is_clear (pte_at (mem k) 0x8000000 i)" "\<forall>i < 512. is_clear (pte_at (mem k) 0x8001000 i)"
    using demo_clear k1(3) kk by (auto simp: pages_clear_def demo_pmem_def)
  have dis: "tables (mem k) 0x8001000 \<inter> tables (mem k) 0x8000000 = {}"
    using tables_fresh [OF clr(1)] tables_fresh [OF clr(2)] by simp
  obtain k' where k': "mappages 0x8001000 0x3000 0x9000 0x1000 0x40 k = Inr (0, k')"
    using mappages_maps [OF k(2), where va = "0x3000" and sz = "0x1000" and pa = "0x9000" and perm = "0x40"] k(3)
    by auto
  show ?thesis
    using mappages_isolates [OF k(2) k1(2) [unfolded kk] dis k'] k(1) k' by blast
qed

end
