(* ===== verification/Kvm.thy ===== *)
theory Kvm
  imports Vm_Frame
begin

text \<open>
  The address space of the kernel, \<^verbatim>\<open>kvmmake\<close> of \<^verbatim>\<open>kernel/vm.c\<close> with \<^verbatim>\<open>proc_mapstacks\<close> of
  \<^verbatim>\<open>kernel/proc.c\<close>. The abstract specification \<open>kernel_space\<close> gives the entry of every virtual
  address; the refinement lemma says that \<open>kvmmake\<close> builds exactly this space and never runs into
  the panic of \<^verbatim>\<open>mappages\<close> for a page mapped twice.
\<close>

section \<open>The specification\<close>

definition kernel_space :: "u64 \<Rightarrow> u64 \<Rightarrow> u64 list \<Rightarrow> u64 \<Rightarrow> u64 option" where
  "kernel_space etext trampoline stks v =
     (let P = unat v div 4096; same = (\<lambda>perm. Some (leaf_entry (of_nat (4096 * P)) perm)) in
      if 0xFF841 \<le> P \<and> P < 0xFF845 \<or> P = 0xFE201 \<or> P = 0xFE300 then same (PTE_DEVICE OR PTE_XN OR PTE_AP_RW_EL1)
      else if 0x80 \<le> P \<and> P < unat etext div 4096 then same (PTE_NORMAL OR PTE_AP_RO_EL1)
      else if unat etext div 4096 \<le> P \<and> P < 0x8080 then same (PTE_NORMAL OR PTE_XN)
      else if P = 0x3FFFFFE \<or> P = 0x3FFFFFF then Some (leaf_entry (trampoline + PGSIZE * of_nat (P - 0x3FFFFFE)) (PTE_NORMAL OR PTE_AP_RO))
      else if 0x3FFFFFE - 2 * length stks \<le> P \<and> P < 0x3FFFFFE \<and> even P
        then Some (leaf_entry (stks ! ((0x3FFFFFE - P) div 2 - 1)) (PTE_NORMAL OR PTE_AP_RW_EL1))
      else None)"

section \<open>One region\<close>

text \<open>The page table \<open>n\<close> implements the space \<open>f\<close>, with the free pages \<open>xs\<close>.\<close>

definition has_space :: "u64 \<Rightarrow> u64 \<Rightarrow> (u64 \<Rightarrow> u64 option) \<Rightarrow> 'a pmem_scheme \<Rightarrow> u64 list \<Rightarrow> bool" where
  "has_space kend n f k xs \<longleftrightarrow> vm_inv kend k n xs \<and> (\<forall>v < MAXVA. xlate (mem k) n v = f v)"

lemma map_cost_regions: "map_cost m pt a n \<le> 2 + 2 * ((unat a div 4096 + n) div 512 - unat a div 4096 div 512)"
  using walk_cost_le [of m pt a] by (simp add: map_cost_def)

lemma kvmmap_space:
  assumes inv: "has_space kend n f k xs" and va: "va mod PGSIZE = 0" and sz: "sz mod PGSIZE = 0" "sz \<noteq> 0"
    and top: "unat va + unat sz \<le> unat MAXVA" and len: "c \<le> length xs"
    and c: "2 + 2 * ((unat va div 4096 + (unat sz div 4096 - 1)) div 512 - unat va div 4096 div 512) \<le> c"
    and un: "\<And>v. v < MAXVA \<Longrightarrow> in_range va (unat sz div 4096) v \<Longrightarrow> f v = None"
    and g: "\<And>v. v < MAXVA \<Longrightarrow> map_spec va pa (unat sz div 4096) perm f v = g v"
  obtains k' xs' where "kvmmap n va pa sz perm k = Inr k'" and "has_space kend n g k' xs'"
    and "length xs \<le> length xs' + c" and "pt_frame kend n k xs k' xs'" and "pmem.more k' = pmem.more k"
proof -
  have vi: "vm_inv kend k n xs" and x: "\<forall>v < MAXVA. xlate (mem k) n v = f v" using inv by (simp_all add: has_space_def)
  have mc: "map_cost (mem k) n va (unat sz div 4096 - 1) \<le> c"
    using map_cost_regions [of "mem k" n va "unat sz div 4096 - 1"] c by linarith
  with len have m: "map_cost (mem k) n va (unat sz div 4096 - 1) \<le> length xs" by linarith
  have un': "\<forall>v < MAXVA. in_range va (unat sz div 4096) v \<longrightarrow> xlate (mem k) n v = None" using un x by simp
  obtain k' xs' where r: "mappages n va pa sz perm k = Inr (0, k')" "vm_inv kend k' n xs'"
    "length xs \<le> length xs' + map_cost (mem k) n va (unat sz div 4096 - 1)"
    "\<forall>v < MAXVA. xlate (mem k') n v = map_spec va pa (unat sz div 4096) perm (xlate (mem k) n) v"
    using mappages_uses [OF vi va sz top m un'] by meson
  have "pt_frame kend n k xs k' xs'" using mappages_frame [OF vi r(1)] r(2) vm_inv_unique by metis
  moreover have "xlate (mem k') n v = g v" if "v < MAXVA" for v
    using r(4) that x unfolding g [OF that, symmetric] by (simp add: map_spec_def)
  ultimately show thesis
    using that [of k' xs'] r(1,2,3) mc mappages_more [OF r(1)] by (simp add: kvmmap_def has_space_def)
qed

section \<open>The stacks\<close>

lemma unat_KSTACK: "p < NPROC \<Longrightarrow> unat (KSTACK p) = 4096 * (0x3FFFFFE - 2 * (p + 1))"
proof -
  assume p: "p < NPROC"
  have "KSTACK p = of_nat (4096 * (0x3FFFFFE - 2 * (p + 1)))"
    using p by (simp add: KSTACK_def of_nat_diff algebra_simps)
  moreover have "unat (of_nat (4096 * (0x3FFFFFE - 2 * (p + 1))) :: u64) = 4096 * (0x3FFFFFE - 2 * (p + 1))"
    by (simp only: unat_of_nat) simp
  ultimately show ?thesis by simp
qed

text \<open>The space with the stacks of the first slots only.\<close>

lemma kernel_space_high:
  assumes "unat etext div 4096 < 0x8080" and "0x3FFFF00 \<le> unat v div 4096" and "unat v div 4096 < 0x3FFFFFE"
  shows "kernel_space etext trampoline stks v =
    (if 0x3FFFFFE - 2 * length stks \<le> unat v div 4096 \<and> even (unat v div 4096)
     then Some (leaf_entry (stks ! ((0x3FFFFFE - unat v div 4096) div 2 - 1)) (PTE_NORMAL OR PTE_AP_RW_EL1)) else None)"
  using assms by (simp add: kernel_space_def Let_def)

lemma kernel_space_low:
  assumes "\<not> (0x3FFFF00 \<le> unat v div 4096 \<and> unat v div 4096 < 0x3FFFFFE)" and "length stks \<le> NPROC" and "length stks' \<le> NPROC"
  shows "kernel_space etext trampoline stks v = kernel_space etext trampoline stks' v"
proof -
  have n: "\<not> (0x3FFFFFE - 2 * length l \<le> unat v div 4096 \<and> unat v div 4096 < 0x3FFFFFE \<and> even (unat v div 4096))"
    if "length l \<le> NPROC" for l :: "u64 list"
    using that assms(1) by linarith
  show ?thesis by (simp only: kernel_space_def Let_def n [OF assms(2)] n [OF assms(3)] if_False)
qed

lemma kernel_space_stack:
  assumes p: "length stks < NPROC" and e: "unat etext div 4096 < 0x8080"
  shows "map_spec (KSTACK (length stks)) pa 1 (PTE_NORMAL OR PTE_AP_RW_EL1) (kernel_space etext trampoline stks) v =
      kernel_space etext trampoline (stks @ [pa]) v"
    and "in_range (KSTACK (length stks)) 1 v \<Longrightarrow> kernel_space etext trampoline stks v = None"
proof -
  let ?P = "unat v div 4096" and ?p = "length stks"
  have r: "in_range (KSTACK ?p) 1 v \<longleftrightarrow> ?P = 0x3FFFFFE - 2 * (?p + 1)"
    using p by (auto simp: in_range_def unat_KSTACK)
  have h: "0x3FFFF00 \<le> ?P \<and> ?P < 0x3FFFFFE" if "?P = 0x3FFFFFE - 2 * (?p + 1)" using p that by (intro conjI; simp)
  show un: "in_range (KSTACK ?p) 1 v \<Longrightarrow> kernel_space etext trampoline stks v = None"
    unfolding r using h p kernel_space_high [OF e] by simp
  show "map_spec (KSTACK ?p) pa 1 (PTE_NORMAL OR PTE_AP_RW_EL1) (kernel_space etext trampoline stks) v =
      kernel_space etext trampoline (stks @ [pa]) v"
  proof (cases "0x3FFFF00 \<le> ?P \<and> ?P < 0x3FFFFFE")
    case True
    then obtain d where d: "?P = 0x3FFFFFE - d" "0 < d" "d \<le> 0xFE" by (intro that [of "0x3FFFFFE - ?P"]) auto
    have c: "0x3FFFFFE - d = 0x3FFFFFE - 2 * (?p + 1) \<longleftrightarrow> d = 2 * (?p + 1)" using p d(2,3) by auto
    show ?thesis
      using p d(2,3) unfolding kernel_space_high [OF e True [THEN conjunct1] True [THEN conjunct2]] map_spec_def r d(1) c
      by (cases "d = 2 * (?p + 1)") (auto simp: nth_append unat_KSTACK elim!: evenE)
  next
    case False
    then have "\<not> in_range (KSTACK ?p) 1 v" using h r by blast
    then show ?thesis using kernel_space_low [OF False, of stks "stks @ [pa]"] p by (simp add: map_spec_def)
  qed
qed

lemma mapstacks_space:
  assumes "has_space kend n (kernel_space etext trampoline stks) k xs" and "3 * length ps \<le> length xs"
    and "ps = [length stks..<NPROC]" and "length stks \<le> NPROC"
    and "unat etext div 4096 < 0x8080"
  shows "\<exists>k' xs' new. proc_mapstacks_loop n ps k = Inr k' \<and> has_space kend n (kernel_space etext trampoline (stks @ new)) k' xs' \<and>
    length new = length ps \<and> distinct new \<and> set new \<subseteq> set xs \<and> set new \<inter> (set xs' \<union> tables (mem k') n) = {} \<and>
    length xs \<le> length xs' + 3 * length ps \<and> pt_frame kend n k xs k' xs' \<and> pmem.more k' = pmem.more k"
  using assms
proof (induction ps arbitrary: stks k xs)
  case Nil
  then show ?case by (intro exI [of _ k] exI [of _ xs] exI [of _ "[]"]) (simp add: pt_frame_refl)
next
  case (Cons p ps)
  have ps: "p = length stks" "ps = [length (stks @ [q])..<NPROC]" "length stks < NPROC" for q
    using upt_eq_Cons_conv [of "length stks" NPROC p ps] Cons.prems(3) by auto
  obtain q ys where xs: "xs = q # ys" "3 * length ps + 2 \<le> length ys" using Cons.prems(2) by (cases xs) auto
  have vi: "vm_inv kend k n (q # ys)" using Cons.prems(1) xs by (simp add: has_space_def)
  obtain k1 where k1: "kalloc k = (q, k1)" "vm_inv kend k1 n ys" "mem k1 = mem k" using vm_inv_kalloc [OF vi] by blast
  have sp: "has_space kend n (kernel_space etext trampoline stks) k1 ys"
    using Cons.prems(1) k1(2,3) by (simp add: has_space_def)
  have q: "q \<notin> set ys" "q \<notin> tables (mem k1) n" using vi k1(3) by (auto simp: vm_inv_def kmem_inv_def tables_def dest: pt_inv_node)
  note u = unat_KSTACK [OF ps(3)]
  obtain k2 zs where k2: "kvmmap n (KSTACK p) q PGSIZE (PTE_NORMAL OR PTE_AP_RW_EL1) k1 = Inr k2"
    "has_space kend n (kernel_space etext trampoline (stks @ [q])) k2 zs" "length ys \<le> length zs + 2"
    "pt_frame kend n k1 ys k2 zs" "pmem.more k2 = pmem.more k1"
  proof (rule kvmmap_space [OF sp, of "KSTACK p" PGSIZE 2])
    show "KSTACK p mod PGSIZE = 0" unfolding word_mod_0_iff using u ps(1) by simp
    show "unat (KSTACK p) + unat PGSIZE \<le> unat MAXVA" using u ps(1) by simp
    show "2 \<le> length ys" using xs(2) by simp
    fix v assume v: "v < MAXVA"
    show "in_range (KSTACK p) (unat PGSIZE div 4096) v \<Longrightarrow> kernel_space etext trampoline stks v = None"
      using kernel_space_stack(2) [OF ps(3) Cons.prems(5)] ps(1) by simp
    show "map_spec (KSTACK p) q (unat PGSIZE div 4096) (PTE_NORMAL OR PTE_AP_RW_EL1) (kernel_space etext trampoline stks) v =
        kernel_space etext trampoline (stks @ [q]) v"
      using kernel_space_stack(1) [OF ps(3) Cons.prems(5), of q] ps(1) by simp
  qed simp_all
  have "3 * length ps \<le> length zs" using xs(2) k2(3) by simp
  moreover have "length (stks @ [q]) \<le> NPROC" using ps(3) by simp
  ultimately obtain k' xs' new where r: "proc_mapstacks_loop n ps k2 = Inr k'"
    "has_space kend n (kernel_space etext trampoline (stks @ [q] @ new)) k' xs'" "length new = length ps" "distinct new"
    "set new \<subseteq> set zs" "set new \<inter> (set xs' \<union> tables (mem k') n) = {}" "length zs \<le> length xs' + 3 * length ps"
    "pt_frame kend n k2 zs k' xs'" "pmem.more k' = pmem.more k2"
    using Cons.IH [OF k2(2) _ ps(2) _ Cons.prems(5)] by auto
  have fr: "pt_frame kend n k1 ys k' xs'" by (rule pt_frame_trans [OF k2(4) r(8)])
  then have qx: "q \<notin> set xs'" "q \<notin> tables (mem k') n" "q \<notin> set zs" and zs: "set zs \<subseteq> set ys"
    using q k2(4) by (auto simp: pt_frame_def dest: set_mono_suffix)
  have "pt_frame kend n k xs k' xs'" using fr k1(3) xs(1) by (auto simp: pt_frame_def suffix_Cons)
  moreover have "proc_mapstacks_loop n (p # ps) k = Inr k'" using k1(1) k2(1) r(1) by simp
  moreover have "pmem.more k' = pmem.more k" using r(9) k2(5) kalloc_more [of k] k1(1) by simp
  ultimately show ?case
    using r(2-7) qx zs xs k2(3) by (intro exI [of _ k'] exI [of _ xs'] exI [of _ "q # new"]) auto
qed

section \<open>The whole space\<close>

text \<open>The bounds of the kernel image that the linker script gives: the text ends at a page border inside the memory.\<close>

definition text_end :: "u64 \<Rightarrow> bool" where
  "text_end etext \<longleftrightarrow> unat etext mod 4096 = 0 \<and> KERNBASE < etext \<and> etext < PHYSTOP"

text \<open>A range that is mapped to itself.\<close>

lemma map_spec_same:
  assumes "unat a mod 4096 = 0"
  shows "map_spec a a n perm f v = (if in_range a n v then Some (leaf_entry (of_nat (4096 * (unat v div 4096))) perm) else f v)"
proof -
  have "a + PGSIZE * of_nat (unat v div 4096 - unat a div 4096) = of_nat (4096 * (unat v div 4096))"
    if "unat a div 4096 \<le> unat v div 4096"
  proof -
    obtain q where q: "unat a = 4096 * q" using assms by (auto simp: mod_eq_0_iff_dvd)
    have "a = of_nat (unat a)" by simp
    then have a: "a = PGSIZE * of_nat q" unfolding q by simp
    show ?thesis using that q unfolding a by (simp add: of_nat_diff algebra_simps)
  qed
  then show ?thesis by (auto simp: map_spec_def in_range_def)
qed

definition device_space :: "u64 \<Rightarrow> u64 option" where
  "device_space v = (let P = unat v div 4096 in
     if 0xFF841 \<le> P \<and> P < 0xFF845 \<or> P = 0xFE201 \<or> P = 0xFE300 then Some (leaf_entry (of_nat (4096 * P)) (PTE_DEVICE OR PTE_XN OR PTE_AP_RW_EL1))
     else None)"

lemma kvmmake_devices:
  assumes "has_space kend n (\<lambda>_. None) k xs" and "6 \<le> length xs"
  obtains k1 k2 k3 xs3 where
    "kvmmap n GICD_BASE GICD_BASE (4 * PGSIZE) (PTE_DEVICE OR PTE_XN OR PTE_AP_RW_EL1) k = Inr k1"
    "kvmmap n PL011_BASE PL011_BASE PGSIZE (PTE_DEVICE OR PTE_XN OR PTE_AP_RW_EL1) k1 = Inr k2"
    "kvmmap n SDCARD SDCARD PGSIZE (PTE_DEVICE OR PTE_XN OR PTE_AP_RW_EL1) k2 = Inr k3"
    "has_space kend n device_space k3 xs3" "length xs \<le> length xs3 + 6" "pt_frame kend n k xs k3 xs3" "pmem.more k3 = pmem.more k"
proof -
  let ?perm = "PTE_DEVICE OR PTE_XN OR PTE_AP_RW_EL1"
  let ?f1 = "map_spec GICD_BASE GICD_BASE 4 ?perm (\<lambda>_. None)"
  let ?f2 = "map_spec PL011_BASE PL011_BASE 1 ?perm ?f1"
  obtain k1 xs1 where 1: "kvmmap n GICD_BASE GICD_BASE (4 * PGSIZE) ?perm k = Inr k1" "has_space kend n ?f1 k1 xs1"
    "length xs \<le> length xs1 + 2" "pt_frame kend n k xs k1 xs1" "pmem.more k1 = pmem.more k"
    by (rule kvmmap_space [OF assms(1), of GICD_BASE "4 * PGSIZE" 2]) (use assms(2) in simp_all)
  obtain k2 xs2 where 2: "kvmmap n PL011_BASE PL011_BASE PGSIZE ?perm k1 = Inr k2" "has_space kend n ?f2 k2 xs2"
    "length xs1 \<le> length xs2 + 2" "pt_frame kend n k1 xs1 k2 xs2" "pmem.more k2 = pmem.more k1"
    using assms(2) 1(3)
    by (auto intro: kvmmap_space [OF 1(2), where va = PL011_BASE and sz = PGSIZE and c = 2 and pa = PL011_BASE and perm = ?perm and g = ?f2]
      simp: map_spec_def [of GICD_BASE] in_range_def)
  obtain k3 xs3 where 3: "kvmmap n SDCARD SDCARD PGSIZE ?perm k2 = Inr k3" "has_space kend n device_space k3 xs3"
    "length xs2 \<le> length xs3 + 2" "pt_frame kend n k2 xs2 k3 xs3" "pmem.more k3 = pmem.more k2"
  proof (rule kvmmap_space [OF 2(2), of SDCARD PGSIZE 2])
    fix v :: u64
    show "map_spec SDCARD SDCARD (unat PGSIZE div 4096) ?perm ?f2 v = device_space v"
      by (auto simp: map_spec_same in_range_def device_space_def Let_def)
  qed (use assms(2) 1(3) 2(3) in \<open>simp_all add: map_spec_def in_range_def\<close>)
  have "pt_frame kend n k xs k3 xs3" using 1(4) 2(4) 3(4) by (blast intro: pt_frame_trans)
  then show thesis using that [OF 1(1) 2(1) 3(1,2)] 1(3,5) 2(3,5) 3(3,5) by simp
qed

lemma text_end_pages:
  assumes "text_end etext"
  obtains E where "unat etext = 4096 * E" and "0x80 < E" and "E < 0x8080"
    and "unat (etext - KERNBASE) = 4096 * (E - 0x80)" and "unat (PHYSTOP - etext) = 4096 * (0x8080 - E)"
proof -
  obtain E where E: "unat etext = 4096 * E" using assms by (auto simp: text_end_def mod_eq_0_iff_dvd)
  have b: "0x80 < E" "E < 0x8080" using assms E by (auto simp: text_end_def word_less_nat_alt)
  have "KERNBASE \<le> etext" "etext \<le> PHYSTOP" using assms by (auto simp: text_end_def)
  then have "unat (etext - KERNBASE) = unat etext - unat KERNBASE" "unat (PHYSTOP - etext) = unat PHYSTOP - unat etext"
    by (simp_all add: unat_sub)
  then show thesis using that [OF E b] E by (simp add: diff_mult_distrib2)
qed

lemma text_end_less: "text_end etext \<Longrightarrow> unat etext div 4096 < 0x8080"
  by (erule text_end_pages) simp

lemma kvmmake_memory:
  assumes sp: "has_space kend n device_space k xs" and len: "262 \<le> length xs" and te: "text_end etext"
  obtains k4 k5 k6 xs6 where
    "kvmmap n KERNBASE KERNBASE (etext - KERNBASE) (PTE_NORMAL OR PTE_AP_RO_EL1) k = Inr k4"
    "kvmmap n etext etext (PHYSTOP - etext) (PTE_NORMAL OR PTE_XN) k4 = Inr k5"
    "kvmmap n TRAMPOLINE trampoline (2 * PGSIZE) (PTE_NORMAL OR PTE_AP_RO) k5 = Inr k6"
    "has_space kend n (kernel_space etext trampoline []) k6 xs6" "length xs \<le> length xs6 + 262"
    "pt_frame kend n k xs k6 xs6" "pmem.more k6 = pmem.more k"
proof -
  obtain E where E: "unat etext = 4096 * E" "0x80 < E" "E < 0x8080"
    "unat (etext - KERNBASE) = 4096 * (E - 0x80)" "unat (PHYSTOP - etext) = 4096 * (0x8080 - E)"
    using text_end_pages [OF te] .
  let ?f4 = "map_spec KERNBASE KERNBASE (E - 0x80) (PTE_NORMAL OR PTE_AP_RO_EL1) device_space"
  let ?f5 = "map_spec etext etext (0x8080 - E) (PTE_NORMAL OR PTE_XN) ?f4"
  obtain k4 xs4 where 4: "kvmmap n KERNBASE KERNBASE (etext - KERNBASE) (PTE_NORMAL OR PTE_AP_RO_EL1) k = Inr k4"
    "has_space kend n ?f4 k4 xs4" "length xs \<le> length xs4 + 130" "pt_frame kend n k xs k4 xs4" "pmem.more k4 = pmem.more k"
  proof (rule kvmmap_space [OF sp, where va = KERNBASE and sz = "etext - KERNBASE" and c = 130 and g = ?f4])
    show "(etext - KERNBASE) mod PGSIZE = 0" unfolding word_mod_0_iff E(4) by simp
    show "etext - KERNBASE \<noteq> 0" unfolding unat_eq_0 [symmetric] E(4) using E(2) by simp
    have "(0x80 + (E - 0x80 - 1)) div 512 \<le> 0x8080 div 512" using E(2,3) by (intro div_le_mono) simp
    then show "2 + 2 * ((unat KERNBASE div 4096 + (unat (etext - KERNBASE) div 4096 - 1)) div 512 - unat KERNBASE div 4096 div 512) \<le> 130"
      unfolding E(4) by simp
  qed (use E len in \<open>simp_all add: in_range_def device_space_def Let_def\<close>)
  obtain k5 xs5 where 5: "kvmmap n etext etext (PHYSTOP - etext) (PTE_NORMAL OR PTE_XN) k4 = Inr k5"
    "has_space kend n ?f5 k5 xs5" "length xs4 \<le> length xs5 + 130" "pt_frame kend n k4 xs4 k5 xs5" "pmem.more k5 = pmem.more k4"
  proof (rule kvmmap_space [OF 4(2), where va = etext and sz = "PHYSTOP - etext" and c = 130 and g = ?f5])
    show "(PHYSTOP - etext) mod PGSIZE = 0" unfolding word_mod_0_iff E(5) by simp
    show "PHYSTOP - etext \<noteq> 0" unfolding unat_eq_0 [symmetric] E(5) using E(3) by simp
    have "(E + (0x8080 - E - 1)) div 512 \<le> 0x8080 div 512" using E(3) by (intro div_le_mono) simp
    then show "2 + 2 * ((unat etext div 4096 + (unat (PHYSTOP - etext) div 4096 - 1)) div 512 - unat etext div 4096 div 512) \<le> 130"
      unfolding E(1,5) by simp
    show "etext mod PGSIZE = 0" using E(1) by (simp add: word_mod_0_iff)
  qed (use E len 4(3) in \<open>simp_all add: map_spec_def in_range_def device_space_def Let_def\<close>)
  obtain k6 xs6 where 6: "kvmmap n TRAMPOLINE trampoline (2 * PGSIZE) (PTE_NORMAL OR PTE_AP_RO) k5 = Inr k6"
    "has_space kend n (kernel_space etext trampoline []) k6 xs6" "length xs5 \<le> length xs6 + 2" "pt_frame kend n k5 xs5 k6 xs6" "pmem.more k6 = pmem.more k5"
  proof (rule kvmmap_space [OF 5(2), where va = TRAMPOLINE and sz = "2 * PGSIZE" and c = 2 and g = "kernel_space etext trampoline []"])
    fix v :: u64
    show "map_spec TRAMPOLINE trampoline (unat (2 * PGSIZE) div 4096) (PTE_NORMAL OR PTE_AP_RO) ?f5 v = kernel_space etext trampoline [] v"
      unfolding map_spec_def [of TRAMPOLINE] using E(1-3)
      by (auto simp: map_spec_same in_range_def device_space_def kernel_space_def Let_def)
  qed (use E len 4(3) 5(3) in \<open>simp_all add: map_spec_def in_range_def device_space_def Let_def\<close>)
  have "pt_frame kend n k xs k6 xs6" using 4(4) 5(4) 6(4) by (blast intro: pt_frame_trans)
  then show thesis using that [OF 4(1) 5(1) 6(1,2)] 4(3,5) 5(3,5) 6(3,5) by simp
qed

lemma kvmmake_builds:
  assumes ki: "kmem_inv kend k (n # xs)" and cl: "pages_clear (mem k) (n # xs)" and len: "460 \<le> length xs" and te: "text_end etext"
  obtains k' xs' stks where "kvmmake etext trampoline k = Inr (n, k')" and "has_space kend n (kernel_space etext trampoline stks) k' xs'"
    and "length stks = NPROC" and "distinct stks" and "set stks \<subseteq> set xs" and "set stks \<inter> (set xs' \<union> tables (mem k') n) = {}"
    and "set xs' \<subseteq> set xs" and "length xs \<le> length xs' + 460" and "pmem.more k' = pmem.more k"
proof -
  obtain k0 where k0: "kalloc k = (n, k0)" and inv0: "vm_inv kend k0 n xs" "\<forall>v. xlate (mem k0) n v = None"
    using uvmcreat_fresh [OF ki cl] by (auto simp: uvmcreat_def split: prod.splits if_splits)
  then have sp0: "has_space kend n (\<lambda>_. None) k0 xs" by (simp add: has_space_def)
  obtain k1 k2 k3 xs3 where d: "kvmmap n GICD_BASE GICD_BASE (4 * PGSIZE) (PTE_DEVICE OR PTE_XN OR PTE_AP_RW_EL1) k0 = Inr k1"
    "kvmmap n PL011_BASE PL011_BASE PGSIZE (PTE_DEVICE OR PTE_XN OR PTE_AP_RW_EL1) k1 = Inr k2"
    "kvmmap n SDCARD SDCARD PGSIZE (PTE_DEVICE OR PTE_XN OR PTE_AP_RW_EL1) k2 = Inr k3"
    and 3: "has_space kend n device_space k3 xs3" "length xs \<le> length xs3 + 6" "pt_frame kend n k0 xs k3 xs3" "pmem.more k3 = pmem.more k0"
    by (rule kvmmake_devices [OF sp0]) (use len in simp)
  have l3: "262 \<le> length xs3" using 3(2) len by simp
  obtain k4 k5 k6 xs6 where m: "kvmmap n KERNBASE KERNBASE (etext - KERNBASE) (PTE_NORMAL OR PTE_AP_RO_EL1) k3 = Inr k4"
    "kvmmap n etext etext (PHYSTOP - etext) (PTE_NORMAL OR PTE_XN) k4 = Inr k5"
    "kvmmap n TRAMPOLINE trampoline (2 * PGSIZE) (PTE_NORMAL OR PTE_AP_RO) k5 = Inr k6"
    and 6: "has_space kend n (kernel_space etext trampoline []) k6 xs6" "length xs3 \<le> length xs6 + 262"
    "pt_frame kend n k3 xs3 k6 xs6" "pmem.more k6 = pmem.more k3"
    by (rule kvmmake_memory [OF 3(1) l3 te])
  have "3 * length [0..<NPROC] \<le> length xs6" using 3(2) 6(2) len by simp
  moreover have "unat etext div 4096 < 0x8080" by (rule text_end_less [OF te])
  ultimately obtain k' xs' stks where r: "proc_mapstacks_loop n [0..<NPROC] k6 = Inr k'"
    "has_space kend n (kernel_space etext trampoline stks) k' xs'" "length stks = length [0..<NPROC]" "distinct stks"
    "set stks \<subseteq> set xs6" "set stks \<inter> (set xs' \<union> tables (mem k') n) = {}" "length xs6 \<le> length xs' + 3 * length [0..<NPROC]"
    "pt_frame kend n k6 xs6 k' xs'" "pmem.more k' = pmem.more k6"
    using mapstacks_space [OF 6(1), of "[0..<NPROC]"] unfolding append_Nil list.size(3) by blast
  have fr: "pt_frame kend n k0 xs k6 xs6" by (rule pt_frame_trans [OF 3(3) 6(3)])
  have s: "set xs6 \<subseteq> set xs" "set xs' \<subseteq> set xs"
    using fr pt_frame_trans [OF fr r(8)] by (simp_all add: pt_frame_def set_mono_suffix)
  have "kvmmake etext trampoline k = Inr (n, k')"
    using k0 d m r(1) by (simp add: kvmmake_def proc_mapstacks_def)
  moreover have "pmem.more k' = pmem.more k" using 3(4) 6(4) r(9) kalloc_more [of k] k0 by simp
  ultimately show thesis
    using that [OF _ r(2) _ r(4) _ r(6) s(2)] r(3,5,7) s(1) 3(2) 6(2) by simp
qed

section \<open>The free list at the start\<close>

text \<open>
  The first page table is built from pages that nobody has cleared: \<^verbatim>\<open>kalloc\<close> hands them out as \<^verbatim>\<open>kinit\<close>
  found them, but for the link in their first eight bytes. The development assumes that memory starts without
  valid entries, as it does when the machine clears it.
\<close>

definition ram_clear :: "u64 \<Rightarrow> store \<Rightarrow> bool" where
  "ram_clear kend m \<longleftrightarrow> (\<forall>a. page_ok kend a \<longrightarrow> (\<forall>i < 512. is_clear (pte_at m a i)))"

lemma freerange_loop_frame:
  "freerange_loop kend stop i p k = Inr (i', p', k') \<Longrightarrow> unat p mod 4096 = 0 \<Longrightarrow>
    pmem.more k' = pmem.more k \<and> (\<forall>j. 8 \<le> j mod 4096 \<longrightarrow> mem k' j = mem k j)"
proof (induction kend stop i p k rule: freerange_loop.induct)
  case (1 kend stop i p k)
  show ?case
  proof (cases "p + PGSIZE \<le> stop")
    case True
    then obtain k1 where k1: "kfree kend p k = Inr k1" "freerange_loop kend stop (Suc i) (p + PGSIZE) k1 = Inr (i', p', k')"
      using "1.prems"(1) by (auto simp: freerange_loop.simps [of kend stop i p k] result_simps)
    have k1': "k1 = k\<lparr>mem := store64 (mem k) (unat p) (freelist k), freelist := p\<rparr>" and "p < PHYSTOP"
      using k1(1) by (auto simp: kfree_cases split: if_splits)
    then have "unat (p + PGSIZE) = unat p + 4096" by (simp add: unat_word_ariths word_less_nat_alt)
    then have IH: "pmem.more k' = pmem.more k1" "\<forall>j. 8 \<le> j mod 4096 \<longrightarrow> mem k' j = mem k1 j"
      using "1.IH" [OF True k1(1) k1(2)] "1.prems"(2) by simp_all
    have "mem k1 j = mem k j" if "8 \<le> j mod 4096" for j
    proof -
      have "j < unat p \<or> unat p + 8 \<le> j"
      proof (rule ccontr)
        assume "\<not> (j < unat p \<or> unat p + 8 \<le> j)"
        then obtain d where "j = unat p + d" "d < 8" by (auto simp: not_less intro: that [of "j - unat p"])
        then have "j mod 4096 < 8" using "1.prems"(2) mod_add_left_eq [of "unat p" 4096 d] by simp
        then show False using that by simp
      qed
      then show ?thesis unfolding k1' by (auto simp: store64_other)
    qed
    then show ?thesis using IH k1' by simp
  next
    case False
    then show ?thesis using "1.prems"(1) by (simp add: freerange_loop.simps [of kend stop i p k])
  qed
qed

lemma flist_next: "flist m p xs \<Longrightarrow> a \<in> set xs \<Longrightarrow> load64 m (unat a) \<in> insert 0 (set xs)"
proof (induction xs arbitrary: p)
  case (Cons x xs)
  then show ?case by (cases xs) auto
qed simp

lemma kinit_ready:
  assumes "0 < kend" and "kend \<le> PHYSTOP" and "freelist k = 0" and "ram_clear kend (mem k)"
  obtains k' xs where "kinit kend k = Inr k'" and "kmem_inv kend k' xs" and "set xs = {a. page_ok kend a}"
    and "pages_clear (mem k') xs" and "pmem.more k' = pmem.more k"
proof -
  note up = PGROUNDUP_kend [OF assms(2)]
  have "kmem_inv kend k []" using assms(3) by (simp add: kmem_inv_def)
  then have "\<exists>k' xs'. freerange_loop kend PHYSTOP 0 (PGROUNDUP kend) k =
      Inr (0 + (unat PHYSTOP - unat (PGROUNDUP kend)) div 4096, PHYSTOP, k') \<and>
      kmem_inv kend k' xs' \<and> set xs' = {a. page_ok kend a}"
    using up assms(1) by (intro freerange_loop_pages) auto
  then obtain k' xs where l: "freerange_loop kend PHYSTOP 0 (PGROUNDUP kend) k =
      Inr (0 + (unat PHYSTOP - unat (PGROUNDUP kend)) div 4096, PHYSTOP, k')"
    and inv: "kmem_inv kend k' xs" and s: "set xs = {a. page_ok kend a}" by blast
  have fr: "pmem.more k' = pmem.more k" "\<forall>j. 8 \<le> j mod 4096 \<longrightarrow> mem k' j = mem k j"
    using freerange_loop_frame [OF l] up by simp_all
  have "is_clear (pte_at (mem k') a i)" if a: "a \<in> set xs" and i: "i < 512" for a i
  proof (cases "i = 0")
    case True
    have "load64 (mem k') (unat a) \<in> insert 0 (set xs)" using inv a by (auto simp: kmem_inv_def dest: flist_next)
    then have "unat (load64 (mem k') (unat a)) mod 4096 = 0" unfolding s by (auto simp: page_ok_def)
    then show ?thesis unfolding True by (simp add: pte_at_def aligned_clear)
  next
    case False
    have ok: "page_ok kend a" using a s by simp
    have "mem k' j = mem k j" if j: "unat a + 8 * i \<le> j" "j < unat a + 8 * i + 8" for j
    proof -
      obtain d where "j = unat a + d" "8 \<le> d" "d < 4096" using j False i by (intro that [of "j - unat a"]) auto
      then have "j mod 4096 = d" using ok mod_add_left_eq [of "unat a" 4096 d] by (simp add: page_ok_def)
      then show ?thesis using fr(2) \<open>8 \<le> d\<close> by simp
    qed
    then have "pte_at (mem k') a i = pte_at (mem k) a i" by (auto simp: pte_at_def intro: load64_cong)
    then show ?thesis using assms(4) ok i by (simp add: ram_clear_def)
  qed
  then have "pages_clear (mem k') xs" by (simp add: pages_clear_def)
  then show thesis using that [of k' xs] l inv s fr(1) by (simp add: kinit_def freerange_def)
qed

text \<open>Enough memory above the kernel gives enough free pages.\<close>

lemma ram_pages:
  assumes "distinct xs" and "set xs = {a. page_ok kend a}" and "0 < kend" and "unat kend + 4096 * c \<le> unat PHYSTOP"
  shows "c \<le> length xs"
proof -
  let ?f = "\<lambda>i. of_nat (4096 * (0x8080 - Suc i)) :: u64"
  have u: "unat (?f i) = 4096 * (0x8080 - Suc i)" for i by (simp only: unat_of_nat) simp
  have b: "c \<le> 0x8080" using assms(4) by simp
  have "?f i \<in> set xs" if i: "i < c" for i
  proof -
    have "unat kend \<le> 4096 * (0x8080 - Suc i)" using assms(4) i b by simp
    then have "kend \<le> ?f i" unfolding word_le_nat_alt u .
    moreover have "?f i < PHYSTOP" unfolding word_less_nat_alt u by simp
    moreover have "?f i \<noteq> 0" using \<open>kend \<le> ?f i\<close> assms(3) by (auto simp del: of_nat_mult)
    ultimately show ?thesis using assms(2) u by (simp add: page_ok_def del: of_nat_mult)
  qed
  moreover have "inj_on ?f {..<c}"
  proof (rule inj_onI)
    fix i j assume "i \<in> {..<c}" "j \<in> {..<c}" "?f i = ?f j"
    then show "i = j" using u [of i] u [of j] b by (simp del: of_nat_mult)
  qed
  ultimately have "card {..<c} \<le> card (set xs)" by (intro card_inj_on_le) auto
  then show ?thesis using assms(1) by (simp add: distinct_card)
qed

lemma ram_clear_zero: "ram_clear kend (\<lambda>_. 0)"
proof -
  have "load64 (\<lambda>_. 0) a = 0" for a by (simp add: load64_def)
  then show ?thesis by (simp add: ram_clear_def pte_at_def is_clear_def)
qed

section \<open>Properties\<close>

text \<open>
  C3. \<^verbatim>\<open>kvmmake\<close> implements the specification of the kernel's address space: with 461 cleared free pages
  it returns a page table that maps the devices, the kernel text (read-only), the memory above it
  (not executable) and the trampoline as \<open>kernel_space\<close> says, one private page as the stack of every
  process slot with unmapped pages between the stacks, and no other address.
\<close>

theorem kvmmake_refines:
  assumes "kmem_inv kend k (n # xs)" and "pages_clear (mem k) (n # xs)" and "460 \<le> length xs" and "text_end etext"
  shows "\<exists>k' xs' stks. kvmmake etext trampoline k = Inr (n, k') \<and> vm_inv kend k' n xs' \<and>
    (\<forall>v < MAXVA. xlate (mem k') n v = kernel_space etext trampoline stks v) \<and>
    length stks = NPROC \<and> distinct stks \<and> set stks \<subseteq> set xs \<and> set stks \<inter> (set xs' \<union> tables (mem k') n) = {}"
  by (rule kvmmake_builds [OF assms, of trampoline]) (auto simp: has_space_def)

theorem kvmmake_refines_witness:
  "\<exists>k n xs k' xs' stks. kinit 0x100000 \<lparr>mem = (\<lambda>_. 0), freelist = 0\<rparr> = Inr k \<and> kmem_inv 0x100000 k (n # xs) \<and>
     kvmmake 0x90000 0x81000 k = Inr (n, k') \<and> vm_inv 0x100000 k' n xs' \<and>
     (\<forall>v < MAXVA. xlate (mem k') n v = kernel_space 0x90000 0x81000 stks v) \<and>
     length stks = NPROC \<and> distinct stks \<and> set stks \<subseteq> set xs \<and> set stks \<inter> (set xs' \<union> tables (mem k') n) = {}"
proof -
  let ?k0 = "\<lparr>mem = (\<lambda>_. 0), freelist = 0\<rparr> :: pmem"
  obtain k ys where k: "kinit 0x100000 ?k0 = Inr k" "kmem_inv 0x100000 k ys" "set ys = {a. page_ok 0x100000 a}"
    "pages_clear (mem k) ys"
    using kinit_ready [of "0x100000" ?k0] ram_clear_zero by auto
  have "512 \<le> length ys" using k(2,3) by (intro ram_pages [of ys "0x100000"]) (simp_all add: kmem_inv_def)
  then obtain n xs where ys: "ys = n # xs" "460 \<le> length xs" by (cases ys) auto
  have "text_end 0x90000" by (simp add: text_end_def)
  from kvmmake_refines [OF k(2) [unfolded ys(1)] k(4) [unfolded ys(1)] ys(2) this, of "0x81000"] show ?thesis
    using k(1,2) ys(1) by blast
qed

end
