(* ===== verification/Proc.thy ===== *)
theory Proc
  imports Vm_Frame
begin

text \<open>
  The process table, \<^verbatim>\<open>kernel/proc.c\<close> with \<^verbatim>\<open>include/proc.h\<close>: creation of a process, sleeping,
  waking, killing. The state \<open>pst\<close> adds the table \<^verbatim>\<open>proc[NPROC]\<close>, the next process id, the
  process each processor runs (\<^verbatim>\<open>cpus[c].proc\<close>) and \<^verbatim>\<open>initproc\<close> to the physical memory. A
  \<^verbatim>\<open>struct proc*\<close> is the index of a slot, a \<^verbatim>\<open>struct fd*\<close> the index of an open file, a page
  table or trap frame its physical address. Fork, exit and wait, which also work on files, are
  in \<open>Proc_Life\<close>; the loop of the scheduler is in \<open>Sched\<close>.

  \<^verbatim>\<open>sleep\<close> and \<^verbatim>\<open>yield\<close> give the processor away in their middle, so each is modelled by the part
  before the switch and the part after it.
\<close>

section \<open>State\<close>

abbreviation (input) NCPU :: nat where "NCPU \<equiv> 4"
abbreviation (input) NOFILE :: nat where "NOFILE \<equiv> 16"

datatype procstate = UNUSED | RUNNABLE | SLEEPING | ZOMBIE | RUNNING

text \<open>The addresses used as sleep channels; distinct objects have distinct addresses.\<close>

datatype chan =
    NoChan \<comment> \<open>the null pointer\<close>
  | ChanProc nat \<comment> \<open>\<^verbatim>\<open>&proc[i]\<close>\<close>
  | ChanInode nat \<comment> \<open>\<^verbatim>\<open>&inode[i]\<close>\<close>
  | ChanConsR \<comment> \<open>\<^verbatim>\<open>&cons.r\<close>\<close>
  | ChanReadp u64 \<comment> \<open>\<^verbatim>\<open>&p->readp\<close> of the pipe at an address\<close>
  | ChanWritep u64 \<comment> \<open>\<^verbatim>\<open>&p->writep\<close>\<close>

text \<open>The callee-saved registers; \<open>ctx_regs n\<close> is register \<open>x18 + n\<close>, up to \<open>x29\<close>.\<close>

record context_t =
  ctx_sp :: u64
  ctx_regs :: "nat \<Rightarrow> u64"
  ctx_x30 :: u64

record proc =
  p_pid :: u32
  p_ppid :: u32
  p_state :: procstate
  p_chan :: chan
  p_killed :: int
  p_pagetable :: u64
  p_sz :: u64
  p_ctx :: context_t
  p_fds :: "nat option list"
  p_kstack :: u64
  p_tf :: u64

record pst = pmem +
  procs :: "proc list"
  nextpid :: u32
  cpu_proc :: "nat \<Rightarrow> nat option"
  initproc :: "nat option"

text \<open>The offsets of \<^verbatim>\<open>struct trapframe\<close>.\<close>

definition tf_x :: "nat \<Rightarrow> nat" where "tf_x n = 8 * n"
abbreviation (input) tf_kernel_ttbr :: nat where "tf_kernel_ttbr \<equiv> 256"
abbreviation (input) tf_kernel_sp :: nat where "tf_kernel_sp \<equiv> 264"
abbreviation (input) tf_elr_el1 :: nat where "tf_elr_el1 \<equiv> 272"
abbreviation (input) tf_sp_el0 :: nat where "tf_sp_el0 \<equiv> 280"
abbreviation (input) tf_size :: nat where "tf_size \<equiv> 288"

definition upd_proc :: "nat \<Rightarrow> (proc \<Rightarrow> proc) \<Rightarrow> 'a pst_scheme \<Rightarrow> 'a pst_scheme" where
  "upd_proc p f s = s\<lparr>procs := (procs s)[p := f (procs s ! p)]\<rparr>"

section \<open>Operations\<close>

definition procinit :: "'a pst_scheme \<Rightarrow> 'a pst_scheme" where
  "procinit s = s\<lparr>procs := map (\<lambda>(i, p). p\<lparr>p_state := UNUSED, p_kstack := KSTACK i\<rparr>)
     (zip [0..<length (procs s)] (procs s))\<rparr>"

definition myproc :: "nat \<Rightarrow> 'a pst_scheme \<Rightarrow> nat option" where
  "myproc c s = cpu_proc s c"

definition allocpid :: "'a pst_scheme \<Rightarrow> u32 \<times> 'a pst_scheme" where
  "allocpid s = (nextpid s, s\<lparr>nextpid := nextpid s + 1\<rparr>)"

text \<open>The results of the two \<^verbatim>\<open>mappages\<close> calls are ignored, as in the source.\<close>

definition proc_pagetable :: "u64 \<Rightarrow> nat \<Rightarrow> 'a pst_scheme \<Rightarrow> (u64 \<times> 'a pst_scheme) result" where
  "proc_pagetable trampoline p s =
     (case uvmcreat s of (pagetable, s1) \<Rightarrow>
       bindR (mappages pagetable TRAMPOLINE trampoline (2 * PGSIZE) (PTE_NORMAL OR PTE_AP_RW_EL1) s1) (\<lambda>(_, s2).
         case kalloc s2 of (tf, s3) \<Rightarrow>
           let s4 = upd_proc p (\<lambda>q. q\<lparr>p_tf := tf\<rparr>) s3 in
           bindR (mappages pagetable TRAPFRAME tf PGSIZE (PTE_NORMAL OR PTE_AP_RW_EL1) s4) (\<lambda>(_, s5).
             Inr (pagetable, s5))))"

definition allocproc :: "u64 \<Rightarrow> 'a pst_scheme \<Rightarrow> (nat option \<times> 'a pst_scheme) result" where
  "allocproc trampoline s =
     (case first_index (\<lambda>q. p_state q = UNUSED) 0 (procs s) of
        None \<Rightarrow> Inr (None, s)
      | Some p \<Rightarrow>
          (case allocpid s of (pid, s1) \<Rightarrow>
             bindR (proc_pagetable trampoline p (upd_proc p (\<lambda>q. q\<lparr>p_pid := pid\<rparr>) s1)) (\<lambda>(pagetable, s2).
               Inr (Some p, upd_proc p (\<lambda>q. q\<lparr>p_pagetable := pagetable\<rparr>) s2))))"

definition userinit :: "u64 \<Rightarrow> u64 \<Rightarrow> 'a pst_scheme \<Rightarrow> 'a pst_scheme result" where
  "userinit trampoline forkret s =
     bindR (allocproc trampoline s) (\<lambda>(r, s1).
       let s2 = s1\<lparr>initproc := r\<rparr> in
       case r of None \<Rightarrow> Inl NullDeref
       | Some p \<Rightarrow> Inr (upd_proc p (\<lambda>q. q\<lparr>p_ctx := (p_ctx q)\<lparr>ctx_sp := p_kstack q + PGSIZE, ctx_x30 := forkret\<rparr>,
                                     p_state := RUNNABLE\<rparr>) s2))"

text \<open>\<^verbatim>\<open>sleep\<close> up to the call of \<^verbatim>\<open>sched\<close>, and what is left when the process runs again.\<close>

definition sleep_enter :: "nat \<Rightarrow> chan \<Rightarrow> 'a pst_scheme \<Rightarrow> 'a pst_scheme result" where
  "sleep_enter c ch s =
     (case myproc c s of None \<Rightarrow> Inl NullDeref
      | Some p \<Rightarrow> Inr (upd_proc p (\<lambda>q. q\<lparr>p_chan := ch, p_state := SLEEPING\<rparr>) s))"

definition sleep_exit :: "nat \<Rightarrow> 'a pst_scheme \<Rightarrow> 'a pst_scheme" where
  "sleep_exit p s = upd_proc p (\<lambda>q. q\<lparr>p_chan := NoChan\<rparr>) s"

definition wakeup_proc :: "chan \<Rightarrow> proc \<Rightarrow> proc" where
  "wakeup_proc ch p = (if p_state p = SLEEPING \<and> p_chan p = ch then p\<lparr>p_state := RUNNABLE\<rparr> else p)"

definition wakeup :: "chan \<Rightarrow> 'a pst_scheme \<Rightarrow> 'a pst_scheme" where
  "wakeup ch s = s\<lparr>procs := map (wakeup_proc ch) (procs s)\<rparr>"

fun proc_kill_loop :: "u32 \<Rightarrow> proc list \<Rightarrow> int \<times> proc list" where
  "proc_kill_loop pid [] = (- 1, [])"
| "proc_kill_loop pid (p # ps) =
     (if p_pid p = pid \<and> p_state p \<noteq> UNUSED
      then (0, p\<lparr>p_killed := 1, p_state := (if p_state p = SLEEPING then RUNNABLE else p_state p)\<rparr> # ps)
      else case proc_kill_loop pid ps of (r, ps') \<Rightarrow> (r, p # ps'))"

definition proc_kill :: "u32 \<Rightarrow> 'a pst_scheme \<Rightarrow> int \<times> 'a pst_scheme" where
  "proc_kill pid s = (case proc_kill_loop pid (procs s) of (r, ps) \<Rightarrow> (r, s\<lparr>procs := ps\<rparr>))"

text \<open>\<^verbatim>\<open>yield\<close> up to the call of \<^verbatim>\<open>sched\<close>.\<close>

definition yield :: "nat \<Rightarrow> 'a pst_scheme \<Rightarrow> 'a pst_scheme result" where
  "yield c s =
     (case myproc c s of None \<Rightarrow> Inl NullDeref
      | Some p \<Rightarrow> Inr (upd_proc p (\<lambda>q. q\<lparr>p_state := RUNNABLE\<rparr>) s))"

text \<open>
  \<^verbatim>\<open>swtch\<close> as \<^verbatim>\<open>sched\<close> and the scheduler use it: the registers are saved in the first context
  and loaded from the second.
\<close>

definition swtch :: "context_t \<Rightarrow> context_t \<Rightarrow> context_t \<times> context_t" where
  "swtch cur new = (cur, new)"

section \<open>Address spaces\<close>

lemma upd_proc_simps [simp]:
  "mem (upd_proc p f s) = mem s" "freelist (upd_proc p f s) = freelist s"
  "nextpid (upd_proc p f s) = nextpid s" "cpu_proc (upd_proc p f s) = cpu_proc s"
  "initproc (upd_proc p f s) = initproc s" "procs (upd_proc p f s) = (procs s)[p := f (procs s ! p)]"
  by (simp_all add: upd_proc_def)

lemma vm_inv_upd [simp]:
  "kmem_inv kend (upd_proc p f s) xs = kmem_inv kend s xs"
  "vm_inv kend (upd_proc p f s) pt xs = vm_inv kend s pt xs"
  by (simp_all add: kmem_inv_def vm_inv_def)

lemma procs_more:
  "pmem.more (s' :: 'a pst_scheme) = pmem.more s \<Longrightarrow>
     procs s' = procs s \<and> nextpid s' = nextpid s \<and> cpu_proc s' = cpu_proc s \<and> initproc s' = initproc s"
  by (cases s; cases s') simp

text \<open>What a new address space maps: the two trampoline pages and the trap frame, nothing else.\<close>

definition user_xlate :: "u64 \<Rightarrow> u64 \<Rightarrow> u64 \<Rightarrow> u64 option" where
  "user_xlate trampoline tf =
     map_spec TRAPFRAME tf 1 (PTE_NORMAL OR PTE_AP_RW_EL1)
       (map_spec TRAMPOLINE trampoline 2 (PTE_NORMAL OR PTE_AP_RW_EL1) (\<lambda>_. None))"

text \<open>The page tables \<open>pt\<close> and \<open>pt2\<close> are in good order and share no table.\<close>

definition apart :: "u64 \<Rightarrow> 'a pmem_scheme \<Rightarrow> u64 list \<Rightarrow> u64 \<Rightarrow> u64 \<Rightarrow> bool" where
  "apart kend k xs pt pt2 \<longleftrightarrow>
     vm_inv kend k pt xs \<and> vm_inv kend k pt2 xs \<and> tables (mem k) pt \<inter> tables (mem k) pt2 = {}"

lemma apart_mappages:
  assumes "apart kend k xs pt pt2" and "mappages pt va pa sz perm k = Inr (r, k')" and "vm_inv kend k' pt xs'"
  shows "apart kend k' xs' pt pt2 \<and> (\<forall>v. xlate (mem k') pt2 v = xlate (mem k) pt2 v)"
proof -
  obtain ys where "vm_inv kend k' pt ys" "pt_frame kend pt k xs k' ys"
    using mappages_frame [OF _ assms(2), of kend xs] assms(1) by (auto simp: apart_def)
  moreover from this have "ys = xs'" using assms(3) vm_inv_unique by blast
  ultimately show ?thesis
    using pt_frame_other [of kend pt k xs k' xs' pt2] assms(1) by (auto simp: apart_def)
qed

lemma apart_uvmcreat:
  assumes "vm_inv kend k pt2 (n # xs)" and "uvmcreat k = (n, k1)"
  shows "apart kend k1 xs n pt2 \<and> mem k1 = mem k"
proof -
  have i: "kmem_inv kend k (n # xs)" and c: "pages_clear (mem k) (n # xs)" using assms(1) by (auto simp: vm_inv_def)
  have n: "n \<notin> tables (mem k) pt2" using assms(1) by (auto simp: tables_def vm_inv_def dest: pt_inv_node)
  have "n \<noteq> 0" using i by (auto simp: kmem_inv_def page_ok_def)
  obtain k2 where "kalloc k = (n, k2)" "vm_inv kend k2 pt2 xs" "mem k2 = mem k"
    using vm_inv_kalloc [OF assms(1)] by blast
  moreover from this assms(2) \<open>n \<noteq> 0\<close> have "k2 = k1" by (auto simp: uvmcreat_def)
  moreover have "vm_inv kend k1 n xs" using uvmcreat_fresh [OF i c] assms(2) by auto
  moreover have "tables (mem k) n = {n}" using c by (intro tables_fresh) (simp add: pages_clear_def)
  ultimately show ?thesis using n by (auto simp: apart_def)
qed

lemma apart_kalloc:
  assumes "apart kend k (n # xs) pt pt2" and "kalloc k = (n, k1)"
  shows "apart kend k1 xs pt pt2 \<and> mem k1 = mem k"
  using vm_inv_kalloc [of kend k pt n xs] vm_inv_kalloc [of kend k pt2 n xs] assms by (auto simp: apart_def)

lemma apart_upd [simp]: "apart kend (upd_proc p f s) xs pt pt2 = apart kend s xs pt pt2"
  by (simp add: apart_def)

text \<open>
  The pages of a new address space with root \<open>n\<close> and trap frame \<open>tf\<close> come from the free list
  \<open>n # xs\<close>, of which \<open>xs'\<close> is left, and no other page is written.
\<close>

definition fresh_space :: "u64 \<Rightarrow> u64 \<Rightarrow> u64 list \<Rightarrow> store \<Rightarrow> u64 \<Rightarrow> store \<Rightarrow> u64 list \<Rightarrow> bool" where
  "fresh_space kend n xs m tf m' xs' \<longleftrightarrow>
     tf \<in> set xs \<and> tf \<notin> set xs' \<and> tf \<notin> tables m' n \<and> set xs' \<subseteq> set xs \<and> length xs \<le> length xs' + 7 \<and>
     tables m' n \<subseteq> set (n # xs) \<and> (\<forall>b. page_ok kend b \<longrightarrow> b \<notin> set (n # xs) \<longrightarrow> same_bytes m m' b)"

lemma fresh_space_steps:
  assumes f1: "pt_frame kend n k1 xs k2 (tf # ys)" and f2: "pt_frame kend n k3 ys k4 zs" and m: "mem k3 = mem k2"
    and t: "tables (mem k1) n = {n}" and i: "vm_inv kend k2 n (tf # ys)" and len: "length xs \<le> length zs + 7"
  shows "fresh_space kend n xs (mem k1) tf (mem k4) zs"
proof -
  have s1: "set (tf # ys) \<subseteq> set xs" and s2: "set zs \<subseteq> set ys" using f1 f2 by (auto simp: pt_frame_def suffix_def)
  have "tf \<notin> set ys" using i by (simp add: vm_inv_def kmem_inv_def)
  moreover have "tf \<notin> tables (mem k3) n" using i m by (auto simp: tables_def vm_inv_def dest: pt_inv_node)
  moreover have t2: "tables (mem k3) n \<subseteq> insert n (set xs)" using f1 t m by (auto simp: pt_frame_def)
  moreover have "tables (mem k4) n \<subseteq> tables (mem k3) n \<union> set ys" using f2 by (simp add: pt_frame_def)
  moreover have "same_bytes (mem k1) (mem k4) b" if "page_ok kend b" "b \<notin> set (n # xs)" for b
  proof -
    have "same_bytes (mem k1) (mem k2) b" using f1 that t by (auto simp: pt_frame_def)
    moreover have "same_bytes (mem k3) (mem k4) b" using f2 that t2 s1 by (auto simp: pt_frame_def)
    ultimately show ?thesis using m by (auto simp: same_bytes_def)
  qed
  ultimately show ?thesis using s1 s2 len by (auto simp: fresh_space_def)
qed

lemma in_range_one: "in_range TRAPFRAME 1 v \<Longrightarrow> \<not> in_range TRAMPOLINE 2 v"
  by (simp add: in_range_def)

text \<open>The calls of \<^verbatim>\<open>proc_pagetable\<close> one by one, on a free list that is long enough.\<close>

lemma proc_pagetable_steps:
  fixes s :: "'a pst_scheme"
  assumes inv: "kmem_inv kend s (n # xs)" and clear: "pages_clear (mem s) (n # xs)" and len: "7 \<le> length xs"
    and perm: "perm = PTE_NORMAL OR PTE_AP_RW_EL1"
  obtains s1 s2 s3 s5 :: "'a pst_scheme" and tf ys xs5 where "uvmcreat s = (n, s1)" and "vm_inv kend s1 n xs" and "mem s1 = mem s"
    and "mappages n TRAMPOLINE trampoline (2 * PGSIZE) perm s1 = Inr (0, s2)" and "vm_inv kend s2 n (tf # ys)"
    and "kalloc s2 = (tf, s3)" and "vm_inv kend s3 n ys" and "mem s3 = mem s2"
    and "mappages n TRAPFRAME tf PGSIZE perm (upd_proc p (\<lambda>q. q\<lparr>p_tf := tf\<rparr>) s3) = Inr (0, s5)" and "vm_inv kend s5 n xs5"
    and "length xs \<le> length xs5 + 7" and "\<forall>v < MAXVA. xlate (mem s5) n v = user_xlate trampoline tf v"
proof -
  obtain s1 where s1: "uvmcreat s = (n, s1)" "vm_inv kend s1 n xs" "\<forall>v. xlate (mem s1) n v = None"
    using uvmcreat_fresh [OF inv clear] by blast
  obtain s2 xs2 where s2: "mappages n TRAMPOLINE trampoline (2 * PGSIZE) perm s1 = Inr (0, s2)"
    "vm_inv kend s2 n xs2" "length xs \<le> length xs2 + 4"
    "\<forall>v < MAXVA. xlate (mem s2) n v = map_spec TRAMPOLINE trampoline 2 perm (\<lambda>_. None) v"
    using mappages_maps [OF s1(2), where va = TRAMPOLINE and sz = "2 * PGSIZE" and pa = trampoline and perm = perm]
      s1(3) len by (auto simp: map_spec_def perm)
  have "3 \<le> length xs2" using s2(3) len by simp
  then obtain tf ys where xs2: "xs2 = tf # ys" "2 \<le> length ys" by (cases xs2) auto
  obtain s3 where s3: "kalloc s2 = (tf, s3)" "vm_inv kend s3 n ys" "mem s3 = mem s2"
    using vm_inv_kalloc s2(2) xs2 by metis
  let ?s4 = "upd_proc p (\<lambda>q. q\<lparr>p_tf := tf\<rparr>) s3"
  have un: "\<forall>v < MAXVA. in_range TRAPFRAME (unat PGSIZE div 4096) v \<longrightarrow> xlate (mem ?s4) n v = None"
    using s2(4) s3(3) in_range_one by (simp add: map_spec_def)
  obtain s5 xs5 where s5: "mappages n TRAPFRAME tf PGSIZE perm ?s4 = Inr (0, s5)" "vm_inv kend s5 n xs5"
    "\<forall>v < MAXVA. xlate (mem s5) n v = map_spec TRAPFRAME tf 1 perm (xlate (mem ?s4) n) v"
    "length ys \<le> length xs5 + 2"
    using mappages_maps [where kend = kend and xs = ys and k = ?s4 and va = TRAPFRAME and sz = PGSIZE and pa = tf and perm = perm, OF _ _ _ _ _ _ un]
      s3(2) xs2(2) by (auto simp: perm)
  have "\<forall>v < MAXVA. xlate (mem s5) n v = user_xlate trampoline tf v"
    using s5(3) s2(4) s3(3) by (auto simp: user_xlate_def map_spec_def perm)
  moreover have "mem s1 = mem s" using kalloc_Cons [OF inv] s1(1) by (auto simp: uvmcreat_def split: prod.splits if_splits)
  moreover have "length xs \<le> length xs5 + 7" using s2(3) xs2 s5(4) by simp
  ultimately show thesis using that s1 s2 s3 s5 xs2 by metis
qed

lemma proc_pagetable_maps:
  assumes inv: "kmem_inv kend s (n # xs)" and clear: "pages_clear (mem s) (n # xs)" and len: "7 \<le> length xs"
  obtains tf s' xs' where "proc_pagetable trampoline p s = Inr (n, s')" and "vm_inv kend s' n xs'"
    and "fresh_space kend n xs (mem s) tf (mem s') xs'" and "pst.more s' = pst.more s"
    and "procs s' = (procs s)[p := (procs s ! p)\<lparr>p_tf := tf\<rparr>]" and "nextpid s' = nextpid s"
    and "cpu_proc s' = cpu_proc s" and "initproc s' = initproc s" and "page_ok kend tf"
    and "\<forall>v < MAXVA. xlate (mem s') n v = user_xlate trampoline tf v"
    and "\<And>pt2. vm_inv kend s pt2 (n # xs) \<Longrightarrow>
      apart kend s' xs' n pt2 \<and> (\<forall>v. xlate (mem s') pt2 v = xlate (mem s) pt2 v)"
proof -
  let ?perm = "PTE_NORMAL OR PTE_AP_RW_EL1"
  obtain s1 s2 s3 s5 tf ys xs5 where s1: "uvmcreat s = (n, s1)" "vm_inv kend s1 n xs" "mem s1 = mem s"
    and s2: "mappages n TRAMPOLINE trampoline (2 * PGSIZE) ?perm s1 = Inr (0, s2)" "vm_inv kend s2 n (tf # ys)"
    and s3: "kalloc s2 = (tf, s3)" "vm_inv kend s3 n ys" "mem s3 = mem s2"
    and s5: "mappages n TRAPFRAME tf PGSIZE ?perm (upd_proc p (\<lambda>q. q\<lparr>p_tf := tf\<rparr>) s3) = Inr (0, s5)" "vm_inv kend s5 n xs5"
    and l: "length xs \<le> length xs5 + 7" and x: "\<forall>v < MAXVA. xlate (mem s5) n v = user_xlate trampoline tf v"
    by (rule proc_pagetable_steps [OF inv clear len refl])
  let ?s4 = "upd_proc p (\<lambda>q. q\<lparr>p_tf := tf\<rparr>) s3"
  have r: "proc_pagetable trampoline p s = Inr (n, s5)" using s1(1) s2(1) s3(1) s5(1) by (simp add: proc_pagetable_def Let_def)
  have m: "pmem.more s5 = pmem.more ?s4" "pmem.more s3 = pmem.more s"
    using mappages_more [OF s5(1)] mappages_more [OF s2(1)] kalloc_more [of s2] s3(1) kalloc_more [of s] s1(1)
    by (auto simp: uvmcreat_def split: prod.splits if_splits)
  have d: "tables (mem s1) n = {n}" unfolding s1(3) using clear by (intro tables_fresh) (simp add: pages_clear_def)
  have v4: "vm_inv kend ?s4 n ys" using s3(2) by simp
  have f1: "pt_frame kend n s1 xs s2 (tf # ys)" using mappages_frame [OF s1(2) s2(1)] s2(2) vm_inv_unique by metis
  have f2: "pt_frame kend n ?s4 ys s5 xs5" using mappages_frame [OF v4 s5(1)] s5(2) vm_inv_unique by metis
  have fr: "fresh_space kend n xs (mem s) tf (mem s5) xs5" using fresh_space_steps [OF f1 f2 _ d s2(2)] s3(3) s1(3) l by simp
  have pm: "pst.more s5 = pst.more s" using m by (cases s; cases s3; cases s5) (simp add: upd_proc_def)
  show thesis
  proof (rule that [OF r s5(2) fr pm _ _ _ _ _ x])
    show "procs s5 = (procs s)[p := (procs s ! p)\<lparr>p_tf := tf\<rparr>]" "nextpid s5 = nextpid s"
      "cpu_proc s5 = cpu_proc s" "initproc s5 = initproc s"
      using procs_more [OF m(1)] procs_more [OF m(2)] by auto
    show "page_ok kend tf" using s2(2) by (auto simp: vm_inv_def kmem_inv_def)
  next
    fix pt2 assume pt2: "vm_inv kend s pt2 (n # xs)"
    note a1 = apart_uvmcreat [OF pt2 s1(1)]
    note a2 = apart_mappages [OF conjunct1 [OF a1] s2(1,2)]
    note a3 = apart_kalloc [OF conjunct1 [OF a2] s3(1)]
    have a4: "apart kend ?s4 ys n pt2" using a3 by simp
    note a5 = apart_mappages [OF a4 s5(1,2)]
    show "apart kend s5 xs5 n pt2 \<and> (\<forall>v. xlate (mem s5) pt2 v = xlate (mem s) pt2 v)"
      using a1 a2 a3 a5 by simp
  qed
qed

section \<open>Slots and process ids\<close>

definition live :: "proc \<Rightarrow> bool" where
  "live p \<longleftrightarrow> p_state p \<noteq> UNUSED"

text \<open>No two live processes have the same id, and all ids in use have been given out.\<close>

definition pid_inv :: "'a pst_scheme \<Rightarrow> bool" where
  "pid_inv s \<longleftrightarrow>
     (\<forall>i < length (procs s). live (procs s ! i) \<longrightarrow> sint (p_pid (procs s ! i)) < sint (nextpid s) \<and>
        (\<forall>j < length (procs s). live (procs s ! j) \<longrightarrow> p_pid (procs s ! i) = p_pid (procs s ! j) \<longrightarrow> i = j))"

text \<open>Operations that neither start nor bury a process.\<close>

locale keeps_ids =
  fixes step :: "'a pst_scheme \<Rightarrow> 'a pst_scheme"
  assumes step_length: "length (procs (step s)) = length (procs s)"
    and step_proc: "i < length (procs s) \<Longrightarrow> p_pid (procs (step s) ! i) = p_pid (procs s ! i) \<and>
      p_ppid (procs (step s) ! i) = p_ppid (procs s ! i) \<and> (live (procs (step s) ! i) \<longleftrightarrow> live (procs s ! i))"
    and step_nextpid: "nextpid (step s) = nextpid s"
begin

lemma keeps_pid_inv: "pid_inv s \<Longrightarrow> pid_inv (step s)"
  by (simp add: pid_inv_def step_length step_proc step_nextpid)

lemma keeps_children: "i < length (procs s) \<Longrightarrow> j < length (procs s) \<Longrightarrow>
    (p_ppid (procs (step s) ! i) = p_pid (procs (step s) ! j)) = (p_ppid (procs s ! i) = p_pid (procs s ! j))"
  by (simp add: step_proc)

end

lemma proc_kill_loop_nth:
  "length (snd (proc_kill_loop pid ps)) = length ps \<and>
   (\<forall>i < length ps. snd (proc_kill_loop pid ps) ! i =
      (if p_pid (ps ! i) = pid \<and> live (ps ! i) \<and> (\<forall>j < i. \<not> (p_pid (ps ! j) = pid \<and> live (ps ! j)))
       then (ps ! i)\<lparr>p_killed := 1, p_state := (if p_state (ps ! i) = SLEEPING then RUNNABLE else p_state (ps ! i))\<rparr>
       else ps ! i))"
proof (induction ps)
  case (Cons p ps)
  show ?case
  proof (cases "p_pid p = pid \<and> live p")
    case True
    then show ?thesis by (auto simp: live_def nth_Cons split: nat.splits)
  next
    case False
    then have e: "proc_kill_loop pid (p # ps) = (fst (proc_kill_loop pid ps), p # snd (proc_kill_loop pid ps))"
      by (auto simp: live_def split: prod.splits)
    show ?thesis
      unfolding e using Cons False
      by (auto simp: nth_Cons All_less_Suc2 split: nat.splits)
  qed
qed simp

lemma proc_kill_loop_ret:
  "fst (proc_kill_loop pid ps) = (if \<exists>p \<in> set ps. p_pid p = pid \<and> live p then 0 else - 1)"
  by (induction ps) (auto simp: live_def split: prod.splits)

interpretation wakeup_ids: keeps_ids "wakeup ch" for ch
  by unfold_locales (auto simp: wakeup_def wakeup_proc_def live_def)

lemma proc_kill_eq: "proc_kill pid s =
    (fst (proc_kill_loop pid (procs s)), s\<lparr>procs := snd (proc_kill_loop pid (procs s))\<rparr>)"
  by (simp add: proc_kill_def split: prod.splits)

interpretation kill_ids: keeps_ids "\<lambda>s. snd (proc_kill pid s)" for pid
  by unfold_locales (simp_all add: proc_kill_eq proc_kill_loop_nth live_def)

interpretation sleep_exit_ids: keeps_ids "sleep_exit p" for p
  by unfold_locales (auto simp: sleep_exit_def live_def nth_update_iff)

lemma allocproc_space:
  assumes "p < length (procs s)" and "p_state (procs s ! p) = UNUSED" and "\<forall>q < p. p_state (procs s ! q) \<noteq> UNUSED"
    and "kmem_inv kend s (n # xs)" and "pages_clear (mem s) (n # xs)" and "7 \<le> length xs"
  obtains tf s' xs' where "allocproc trampoline s = Inr (Some p, s')"
    and "procs s' = (procs s)[p := (procs s ! p)\<lparr>p_pid := nextpid s, p_tf := tf, p_pagetable := n\<rparr>]"
    and "nextpid s' = nextpid s + 1" and "vm_inv kend s' n xs'" and "page_ok kend tf"
    and "\<forall>v < MAXVA. xlate (mem s') n v = user_xlate trampoline tf v"
    and "\<And>pt2. vm_inv kend s pt2 (n # xs) \<Longrightarrow>
      apart kend s' xs' n pt2 \<and> (\<forall>v. xlate (mem s') pt2 v = xlate (mem s) pt2 v)"
    and "fresh_space kend n xs (mem s) tf (mem s') xs'" and "pst.more s' = pst.more s"
proof -
  let ?s2 = "upd_proc p (\<lambda>q. q\<lparr>p_pid := nextpid s\<rparr>) (s\<lparr>nextpid := nextpid s + 1\<rparr>)"
  have i: "kmem_inv kend ?s2 (n # xs)" "pages_clear (mem ?s2) (n # xs)"
    using assms(4,5) by (simp_all add: kmem_inv_def)
  have v: "vm_inv kend (s\<lparr>nextpid := x\<rparr>) pt ys = vm_inv kend s pt ys" for x pt ys by (simp add: vm_inv_def kmem_inv_def)
  have m: "pst.more (upd_proc q f s') = pst.more s'" for q f and s' :: "'a pst_scheme" by (simp add: upd_proc_def)
  have a: "first_index (\<lambda>q. p_state q = UNUSED) 0 (procs s) = Some p" using assms(1-3) by (simp add: first_index_Some)
  obtain tf s3 xs3 where r: "proc_pagetable trampoline p ?s2 = Inr (n, s3)" and i3: "vm_inv kend s3 n xs3"
    and fr: "fresh_space kend n xs (mem ?s2) tf (mem s3) xs3" and pm: "pst.more s3 = pst.more ?s2"
    and ps: "procs s3 = (procs ?s2)[p := (procs ?s2 ! p)\<lparr>p_tf := tf\<rparr>]" and np: "nextpid s3 = nextpid ?s2"
    and tf: "page_ok kend tf" and x: "\<forall>v < MAXVA. xlate (mem s3) n v = user_xlate trampoline tf v"
    and o: "\<And>pt2. vm_inv kend ?s2 pt2 (n # xs) \<Longrightarrow>
      apart kend s3 xs3 n pt2 \<and> (\<forall>v. xlate (mem s3) pt2 v = xlate (mem ?s2) pt2 v)"
    using proc_pagetable_maps [OF i assms(6), of trampoline p] by metis
  let ?s4 = "upd_proc p (\<lambda>q. q\<lparr>p_pagetable := n\<rparr>) s3"
  have "allocproc trampoline s = Inr (Some p, ?s4)" using a r by (simp add: allocproc_def allocpid_def)
  then show thesis
    by (rule that) (use assms(1) ps np i3 tf x o fr pm in \<open>simp_all add: v m\<close>)
qed

section \<open>Properties\<close>

text \<open>
  C8. \<^verbatim>\<open>allocproc\<close> gives a process an address space of its own. With eight clear free pages and
  an unused slot it takes the first such slot, gives it the next process id (a counter of 32 bits, which wraps) and a fresh page
  table that maps exactly the two trampoline pages and the trap frame, and leaves the other slots
  and the translations of every other address space as they are.
\<close>

theorem allocproc_new_space:
  assumes "p < length (procs s)" and "p_state (procs s ! p) = UNUSED" and "\<forall>q < p. p_state (procs s ! q) \<noteq> UNUSED"
    and "kmem_inv kend s (n # xs)" and "pages_clear (mem s) (n # xs)" and "7 \<le> length xs"
  shows "\<exists>tf s' xs'. allocproc trampoline s = Inr (Some p, s') \<and>
    procs s' = (procs s)[p := (procs s ! p)\<lparr>p_pid := nextpid s, p_tf := tf, p_pagetable := n\<rparr>] \<and>
    nextpid s' = nextpid s + 1 \<and> vm_inv kend s' n xs' \<and> page_ok kend tf \<and>
    (\<forall>v < MAXVA. xlate (mem s') n v = user_xlate trampoline tf v) \<and>
    (\<forall>pt2. vm_inv kend s pt2 (n # xs) \<longrightarrow>
      apart kend s' xs' n pt2 \<and> (\<forall>v. xlate (mem s') pt2 v = xlate (mem s) pt2 v))"
  by (rule allocproc_space [OF assms, of trampoline]) blast


definition idle_proc :: proc where
  "idle_proc = \<lparr>p_pid = 0, p_ppid = 0, p_state = UNUSED, p_chan = NoChan, p_killed = 0, p_pagetable = 0, p_sz = 0,
     p_ctx = \<lparr>ctx_sp = 0, ctx_regs = (\<lambda>_. 0), ctx_x30 = 0\<rparr>, p_fds = replicate NOFILE None, p_kstack = 0, p_tf = 0\<rparr>"

definition demo_pst :: "nat \<Rightarrow> pst" where
  "demo_pst n = \<lparr>mem = free_mem n, freelist = free_top n, procs = replicate NPROC idle_proc,
     nextpid = 1, cpu_proc = (\<lambda>_. None), initproc = None\<rparr>"

lemma kmem_inv_mem: "mem k = mem k' \<Longrightarrow> freelist k = freelist k' \<Longrightarrow> kmem_inv kend k xs = kmem_inv kend k' xs"
  for k :: "'a pmem_scheme" and k' :: "'b pmem_scheme"
  by (simp add: kmem_inv_def)

lemma demo_pst_inv:
  assumes "n \<le> 100"
  shows "kmem_inv 0x7000000 (demo_pst n) (free_pages n)" and "pages_clear (mem (demo_pst n)) (free_pages n)"
  using free_mem_inv [OF assms] free_mem_clear [OF assms assms]
  by (simp_all add: demo_pst_def kmem_inv_def)

theorem allocproc_new_space_witness:
  "\<exists>tf s'. allocproc 0x5000 (demo_pst 8) = Inr (Some 0, s') \<and> nextpid s' = 2 \<and>
    (\<forall>v < MAXVA. xlate (mem s') (free_pages 8 ! 0) v = user_xlate 0x5000 tf v)"
proof -
  have e: "free_pages 8 = free_pages 8 ! 0 # free_pages 7" by (simp add: eval_nat_numeral)
  have l: "7 \<le> length (free_pages 7)" by (simp add: eval_nat_numeral)
  have "nextpid (demo_pst 8) = 1" "0 < length (procs (demo_pst 8))" "p_state (procs (demo_pst 8) ! 0) = UNUSED"
    by (simp_all add: demo_pst_def idle_proc_def)
  then show ?thesis
    using allocproc_new_space [of 0 "demo_pst 8" "0x7000000" "free_pages 8 ! 0" "free_pages 7" "0x5000"]
      demo_pst_inv [of 8] e l by auto
qed

end
