(* ===== verification/Bio.thy ===== *)
theory Bio
  imports Proc
begin

text \<open>
  The block buffers, \<^verbatim>\<open>kernel/bio.c\<close> with \<^verbatim>\<open>include/bio.h\<close>. There is no cache: a buffer holds a
  copy of a sector between \<^verbatim>\<open>bread\<close> and \<^verbatim>\<open>brelse\<close>. The state \<open>bio\<close> adds the ten buffers and
  the sectors of the SD card to the memory and the process table; a \<^verbatim>\<open>struct buf*\<close> is the index of a buffer.

  The card is an array of sectors that \<^verbatim>\<open>sd_readblock\<close> and \<^verbatim>\<open>sd_writeblock\<close> transfer in full:
  \<^verbatim>\<open>bread\<close> and \<^verbatim>\<open>bwrite\<close> ignore their results, so the transfers of this model are the ones that
  succeed. The spinlock around the table is left to \<open>Spinlock\<close>. The loop of \<^verbatim>\<open>getblk\<close> is
  modelled with what other processors do between its tests; in the operations above it nothing else runs.

  The lemmas state what a client relies on as the locale \<open>block_buffers\<close>, interpreted on the
  operations below: a held buffer is not handed out again, reading does not change the card, and
  a read-modify-write changes one sector.
\<close>

section \<open>State and operations\<close>

abbreviation (input) NBUF :: nat where "NBUF \<equiv> 10"
abbreviation (input) B_BUSY :: u32 where "B_BUSY \<equiv> 1"

record buf =
  bflags :: u32
  bdata :: store

record bio = pst +
  bufs :: "buf list"
  disk :: "u32 \<Rightarrow> store"

text \<open>
  The loop of \<^verbatim>\<open>getblk\<close>, at buffer \<open>i\<close>. It never stops by itself: after the last buffer it begins again with the
  first. The lock of the table keeps other processors from \<^verbatim>\<open>getblk\<close> but not from \<^verbatim>\<open>brelse\<close>; \<open>env k\<close> is what they do
  after the test number \<open>k\<close>. The value is \<open>None\<close> when the loop does not end.
\<close>

definition take_buf :: "nat \<Rightarrow> 'a bio_scheme \<Rightarrow> 'a bio_scheme" where
  "take_buf i s = s\<lparr>bufs := (bufs s)[i := (bufs s ! i)\<lparr>bflags := bflags (bufs s ! i) OR B_BUSY\<rparr>]\<rparr>"

partial_function (option) getblk_loop ::
  "(nat \<Rightarrow> 'a bio_scheme \<Rightarrow> 'a bio_scheme) \<Rightarrow> nat \<Rightarrow> nat \<Rightarrow> 'a bio_scheme \<Rightarrow> (nat \<times> 'a bio_scheme) option" where
  "getblk_loop env k i s =
     (if i < length (bufs s)
      then if bflags (bufs s ! i) AND B_BUSY = 0 then Some (i, take_buf i s)
           else getblk_loop env (Suc k) (Suc i) (env k s)
      else getblk_loop env k 0 s)"

text \<open>Within the operations below nothing else runs.\<close>

definition getblk :: "'a bio_scheme \<Rightarrow> (nat \<times> 'a bio_scheme) result" where
  "getblk s = (case getblk_loop (\<lambda>_ t. t) 0 0 s of None \<Rightarrow> Inl Hang | Some r \<Rightarrow> Inr r)"

definition bread :: "u32 \<Rightarrow> u32 \<Rightarrow> 'a bio_scheme \<Rightarrow> (nat \<times> 'a bio_scheme) result" where
  "bread dev sector s =
     bindR (getblk s) (\<lambda>(b, s1). Inr (b, s1\<lparr>bufs := (bufs s1)[b := (bufs s1 ! b)\<lparr>bdata := disk s1 sector\<rparr>]\<rparr>))"

definition bwrite :: "u32 \<Rightarrow> nat \<Rightarrow> u32 \<Rightarrow> 'a bio_scheme \<Rightarrow> 'a bio_scheme" where
  "bwrite dev b sector s = s\<lparr>disk := (disk s)(sector := bdata (bufs s ! b))\<rparr>"

definition brelse :: "nat \<Rightarrow> 'a bio_scheme \<Rightarrow> 'a bio_scheme" where
  "brelse b s = s\<lparr>bufs := (bufs s)[b := (bufs s ! b)\<lparr>bflags := bflags (bufs s ! b) AND NOT B_BUSY\<rparr>]\<rparr>"

text \<open>Reading and writing \<open>bp->data\<close> of a buffer a client holds.\<close>

definition bget :: "nat \<Rightarrow> 'a bio_scheme \<Rightarrow> store" where
  "bget b s = bdata (bufs s ! b)"

definition bput :: "nat \<Rightarrow> store \<Rightarrow> 'a bio_scheme \<Rightarrow> 'a bio_scheme" where
  "bput b d s = s\<lparr>bufs := (bufs s)[b := (bufs s ! b)\<lparr>bdata := d\<rparr>]\<rparr>"

section \<open>The search for a buffer\<close>

text \<open>The state at the test number \<open>k + m\<close>.\<close>

primrec others :: "(nat \<Rightarrow> 's \<Rightarrow> 's) \<Rightarrow> nat \<Rightarrow> nat \<Rightarrow> 's \<Rightarrow> 's" where
  "others env k 0 s = s"
| "others env k (Suc m) s = others env (Suc k) m (env k s)"

text \<open>What other processors do does not change the number of buffers.\<close>

definition same_table :: "(nat \<Rightarrow> 'a bio_scheme \<Rightarrow> 'a bio_scheme) \<Rightarrow> bool" where
  "same_table env \<longleftrightarrow> (\<forall>k s. length (bufs (env k s)) = length (bufs s))"

definition busy :: "buf \<Rightarrow> bool" where
  "busy b \<longleftrightarrow> bflags b AND B_BUSY \<noteq> 0"

lemma getblk_loop_wrap: "bufs s \<noteq> [] \<Longrightarrow> i \<le> length (bufs s) \<Longrightarrow> getblk_loop env k i s = getblk_loop env k (i mod length (bufs s)) s"
  by (cases "i = length (bufs s)") (simp_all add: getblk_loop.simps [of env k "length (bufs s)"])

lemma getblk_loop_finds:
  assumes "same_table env"
  shows "bufs s \<noteq> [] \<Longrightarrow> i < length (bufs s) \<Longrightarrow>
    \<not> busy (bufs (others env k m s) ! ((i + m) mod length (bufs s))) \<Longrightarrow>
    (\<forall>l < m. busy (bufs (others env k l s) ! ((i + l) mod length (bufs s)))) \<Longrightarrow>
    getblk_loop env k i s = Some ((i + m) mod length (bufs s), take_buf ((i + m) mod length (bufs s)) (others env k m s))"
proof (induction m arbitrary: i k s)
  case 0
  then show ?case by (subst getblk_loop.simps) (simp add: busy_def)
next
  case (Suc m)
  let ?n = "length (bufs s)" and ?t = "env k s"
  have t: "length (bufs ?t) = ?n" "bufs ?t \<noteq> []" using assms Suc.prems(1) by (auto simp: same_table_def simp flip: length_greater_0_conv)
  have b: "busy (bufs s ! i)" using Suc.prems(2,4) by (fastforce dest: spec [of _ 0])
  have ix: "(Suc i mod ?n + l) mod ?n = (i + Suc l) mod ?n" for l by (simp add: mod_simps)
  have "getblk_loop env k i s = getblk_loop env (Suc k) (Suc i) ?t"
    using b Suc.prems(2) by (subst getblk_loop.simps) (simp add: busy_def)
  also have "\<dots> = getblk_loop env (Suc k) (Suc i mod ?n) ?t"
    using getblk_loop_wrap [OF t(2), of "Suc i"] t(1) Suc.prems(2) by simp
  also have "\<dots> = Some ((Suc i mod ?n + m) mod length (bufs ?t), take_buf ((Suc i mod ?n + m) mod length (bufs ?t)) (others env (Suc k) m ?t))"
    using Suc.prems t by (intro Suc.IH) (simp_all add: ix del: mod_add_left_eq mod_add_right_eq, fastforce)
  finally show ?case by (simp add: t(1) ix del: mod_add_left_eq mod_add_right_eq)
qed

lemma getblk_loop_found:
  assumes "getblk_loop env k i s = Some r" and "same_table env" and "bufs s \<noteq> []" and "i \<le> length (bufs s)"
  shows "\<exists>m. \<not> busy (bufs (others env k m s) ! ((i + m) mod length (bufs s)))"
  using assms
proof (induction env k i s r rule: getblk_loop.raw_induct [rotated 1, consumes 1])
  case (1 loop env k i s r)
  have t: "length (bufs (env k s)) = length (bufs s)" using "1.prems" by (auto simp: same_table_def)
  show ?case
  proof (cases "i < length (bufs s)")
    case False
    then have "loop env k 0 s = Some r" "i = length (bufs s)" using "1.hyps" "1.prems"(3) by simp_all
    then show ?thesis using "1.IH" [of env k 0 s r] "1.prems" by simp
  next
    case True
    show ?thesis
    proof (cases "busy (bufs s ! i)")
      case True
      then have l: "loop env (Suc k) (Suc i) (env k s) = Some r" using "1.hyps" \<open>i < _\<close> by (simp add: busy_def)
      have "bufs (env k s) \<noteq> []" using t "1.prems"(2) by (auto simp flip: length_greater_0_conv)
      then obtain m where "\<not> busy (bufs (others env (Suc k) m (env k s)) ! ((Suc i + m) mod length (bufs s)))"
        using "1.IH" [OF l] "1.prems"(1) t \<open>i < _\<close> by auto
      then show ?thesis by (intro exI [of _ "Suc m"]) simp
    qed (use True in \<open>auto intro: exI [of _ 0]\<close>)
  qed
qed

lemma getblk_loop_never:
  assumes "same_table env" and "bufs s \<noteq> []" and "\<forall>m. busy (bufs (others env 0 m s) ! (m mod length (bufs s)))"
  shows "getblk_loop env 0 0 s = None"
  using getblk_loop_found [of env 0 0 s] assms by (cases "getblk_loop env 0 0 s") auto

lemma getblk_loop_ends:
  assumes "same_table env" and "bufs s \<noteq> []" and "\<not> busy (bufs (others env 0 m s) ! (m mod length (bufs s)))"
  shows "getblk_loop env 0 0 s \<noteq> None"
proof -
  let ?free = "\<lambda>m. \<not> busy (bufs (others env 0 m s) ! (m mod length (bufs s)))"
  have "?free (LEAST m. ?free m)" using assms(3) by (rule LeastI)
  moreover have "\<forall>l < (LEAST m. ?free m). \<not> ?free l" using not_less_Least by blast
  ultimately show ?thesis using getblk_loop_finds [OF assms(1,2), of 0 0 "LEAST m. ?free m"] assms(2) by simp
qed

text \<open>With no other processor, the first free buffer is the one that is taken.\<close>

lemma others_quiet [simp]: "others (\<lambda>_ t. t) k m s = s"
  by (induction m arbitrary: k) simp_all

lemma getblk_loop_nonempty:
  assumes "getblk_loop env k i s = Some r"
  shows "bufs s \<noteq> []"
  using assms
proof (induction env k i s r rule: getblk_loop.raw_induct [rotated 1, consumes 1])
  case (1 loop env k i s r)
  then show ?case by (cases "i < length (bufs s)") auto
qed

lemma getblk_eq:
  "getblk s = (case first_index (\<lambda>b. bflags b AND B_BUSY = 0) 0 (bufs s) of None \<Rightarrow> Inl Hang | Some i \<Rightarrow> Inr (i, take_buf i s))"
proof (cases "first_index (\<lambda>b. bflags b AND B_BUSY = 0) 0 (bufs s)")
  case None
  then have b: "\<forall>b \<in> set (bufs s). busy b" unfolding first_index_None by (simp add: busy_def)
  have "getblk_loop (\<lambda>_ t. t) 0 0 s = None"
  proof (cases "bufs s = []")
    case False
    then show ?thesis using b by (intro getblk_loop_never) (simp_all add: same_table_def)
  qed (use getblk_loop_nonempty in \<open>cases "getblk_loop (\<lambda>_ t. t) 0 0 s"; fastforce\<close>)
  then show ?thesis using None by (simp add: getblk_def)
next
  case (Some i)
  then have "i < length (bufs s)" "bufs s \<noteq> []" "\<not> busy (bufs s ! i)" "\<forall>n < i. busy (bufs s ! n)"
    by (auto simp: first_index_Some busy_def)
  then have "getblk_loop (\<lambda>_ t. t) 0 0 s = Some (i, take_buf i s)"
    using getblk_loop_finds [of "\<lambda>_ t. t" s 0 0 i] by (auto simp: same_table_def)
  then show ?thesis using Some by (simp add: getblk_def)
qed

section \<open>Held buffers\<close>

definition held :: "'a bio_scheme \<Rightarrow> nat set" where
  "held s = {b. b < length (bufs s) \<and> busy (bufs s ! b)}"

lemma busy_flags: "busy b \<longleftrightarrow> odd (bflags b)"
  by (simp add: busy_def and_one_eq mod_2_eq_odd)

lemma odd_or_one [simp]: "odd (x OR 1 :: u32)"
  using bit_or_iff [of x 1 0] by (simp add: bit_0)

lemma even_andn_one [simp]: "even (x AND - 2 :: u32)"
  using bit_and_iff [of x "NOT 1" 0] by (simp add: bit_0)

lemma or_andn_one: "even (x :: u32) \<Longrightarrow> (x OR 1) AND - 2 = x"
proof -
  assume "even x"
  then have "(x OR 1) AND NOT 1 = x" by (intro bit_word_eqI) (auto simp: bit_simps bit_0)
  then show ?thesis by simp
qed

text \<open>
  \<open>first_free s i\<close>: buffer \<open>i\<close> is the one \<^verbatim>\<open>getblk\<close> takes. \<open>hold i d s\<close> is \<open>s\<close> with that
  buffer held and filled with \<open>d\<close>, \<open>drop_buf i d s\<close> with the buffer released again.
\<close>

definition first_free :: "'a bio_scheme \<Rightarrow> nat \<Rightarrow> bool" where
  "first_free s i \<longleftrightarrow> i < length (bufs s) \<and> \<not> busy (bufs s ! i) \<and> (\<forall>n < i. busy (bufs s ! n))"

definition hold :: "nat \<Rightarrow> store \<Rightarrow> 'a bio_scheme \<Rightarrow> 'a bio_scheme" where
  "hold i d s = s\<lparr>bufs := (bufs s)[i := \<lparr>bflags = bflags (bufs s ! i) OR B_BUSY, bdata = d\<rparr>]\<rparr>"

definition drop_buf :: "nat \<Rightarrow> store \<Rightarrow> 'a bio_scheme \<Rightarrow> 'a bio_scheme" where
  "drop_buf i d s = s\<lparr>bufs := (bufs s)[i := (bufs s ! i)\<lparr>bdata := d\<rparr>]\<rparr>"

lemma first_free_index: "first_free s i \<longleftrightarrow> first_index (\<lambda>b. bflags b AND B_BUSY = 0) 0 (bufs s) = Some i"
  by (auto simp: first_free_def first_index_Some busy_def)

lemma first_free_ex: "(\<exists>i. first_free s i) \<longleftrightarrow> (\<exists>b \<in> set (bufs s). \<not> busy b)"
proof -
  have "(\<exists>i. first_free s i) \<longleftrightarrow> first_index (\<lambda>b. bflags b AND B_BUSY = 0) 0 (bufs s) \<noteq> None"
    by (simp add: first_free_index)
  then show ?thesis unfolding first_index_None by (simp add: busy_def)
qed

lemma buf_update_id: "(b :: buf)\<lparr>bflags := f\<rparr>\<lparr>bdata := d\<rparr> = \<lparr>bflags = f, bdata = d\<rparr>"
  by (cases b) simp

lemma buf_eta: "\<lparr>bflags = bflags b, bdata = d\<rparr> = b\<lparr>bdata := d\<rparr>"
  by (cases b) simp

lemma bread_hold:
  assumes "first_free s i"
  shows "bread dev n s = Inr (i, hold i (disk s n) s)"
  using assms assms [unfolded first_free_index]
  by (simp add: bread_def getblk_eq take_buf_def hold_def first_free_def buf_update_id)

lemma bread_hang: "\<forall>b \<in> set (bufs s). busy b \<Longrightarrow> bread dev n s = Inl Hang"
proof -
  assume "\<forall>b \<in> set (bufs s). busy b"
  then have "first_index (\<lambda>b. bflags b AND B_BUSY = 0) 0 (bufs s) = None"
    unfolding first_index_None by (simp add: busy_def)
  then show ?thesis by (simp add: bread_def getblk_eq)
qed

lemma hold_simps [simp]:
  assumes "first_free s i"
  shows "bget i (hold i d s) = d"
    and "bput i d' (hold i d s) = hold i d' s"
    and "brelse i (hold i d s) = drop_buf i d s"
    and "disk (hold i d s) = disk s"
  using assms
  by (auto simp: bget_def bput_def brelse_def hold_def drop_buf_def first_free_def busy_flags or_andn_one buf_eta)

lemma bwrite_hold [simp]:
  assumes "first_free s i"
  shows "bwrite dev i n (hold i d s) = hold i d (s\<lparr>disk := (disk s)(n := d)\<rparr>)"
  using assms by (simp add: bwrite_def hold_def first_free_def)

lemma first_free_disk [simp]: "first_free (s\<lparr>disk := d\<rparr>) i = first_free s i"
  by (simp add: first_free_def)

lemma first_free_drop [simp]:
  assumes "first_free s i"
  shows "first_free (drop_buf i d s) i"
  using assms by (auto simp: first_free_def drop_buf_def busy_def nth_list_update)

lemma drop_simps [simp]:
  "disk (drop_buf i d s) = disk s"
  "drop_buf i d (s\<lparr>disk := e\<rparr>) = (drop_buf i d s)\<lparr>disk := e\<rparr>"
  "drop_buf i d (drop_buf i d' s) = drop_buf i d s"
  by (simp_all add: drop_buf_def) (cases "i < length (bufs s)"; simp add: list_update_beyond)+

lemma hold_drop [simp]: "hold i d (drop_buf i d' s) = hold i d s"
  by (cases "i < length (bufs s)") (simp_all add: hold_def drop_buf_def list_update_beyond)

text \<open>After \<^verbatim>\<open>brelse\<close> only the stale contents of the buffer have changed.\<close>

definition same_bufs :: "'a bio_scheme \<Rightarrow> 'a bio_scheme \<Rightarrow> bool" where
  "same_bufs s s' \<longleftrightarrow> map bflags (bufs s') = map bflags (bufs s) \<and> s' = s\<lparr>bufs := bufs s'\<rparr>"

lemma same_bufs_drop [intro]: "same_bufs s (drop_buf i d s)"
  by (cases "i < length (bufs s)")
    (simp_all add: same_bufs_def drop_buf_def map_update list_update_beyond, metis list_update_id nth_map)

lemma same_bufs_refl [intro]: "same_bufs s s"
  by (simp add: same_bufs_def)

lemma same_bufs_trans: "same_bufs s t \<Longrightarrow> same_bufs t u \<Longrightarrow> same_bufs s u"
proof -
  assume a: "same_bufs s t" "same_bufs t u"
  then have "u = (s\<lparr>bufs := bufs t\<rparr>)\<lparr>bufs := bufs u\<rparr>" by (metis same_bufs_def)
  also have "\<dots> = s\<lparr>bufs := bufs u\<rparr>" by simp
  finally have "u = s\<lparr>bufs := bufs u\<rparr>" .
  with a show ?thesis by (simp add: same_bufs_def)
qed

lemma same_bufs_first_free: "same_bufs s s' \<Longrightarrow> first_free s' i \<longleftrightarrow> first_free s i"
proof -
  assume "same_bufs s s'"
  then have m: "map bflags (bufs s') = map bflags (bufs s)" by (simp add: same_bufs_def)
  then have len: "length (bufs s') = length (bufs s)" by (metis length_map)
  have "busy (bufs s' ! n) = busy (bufs s ! n)" if "n < length (bufs s)" for n
    using m that len by (metis busy_flags nth_map)
  with len show ?thesis by (auto simp: first_free_def)
qed

section \<open>The contract of the buffers\<close>

locale block_buffers =
  fixes rd :: "u32 \<Rightarrow> 's \<Rightarrow> (nat \<times> 's) result"
    and wr :: "nat \<Rightarrow> u32 \<Rightarrow> 's \<Rightarrow> 's"
    and rel :: "nat \<Rightarrow> 's \<Rightarrow> 's"
    and get :: "nat \<Rightarrow> 's \<Rightarrow> store"
    and put :: "nat \<Rightarrow> store \<Rightarrow> 's \<Rightarrow> 's"
    and sectors :: "'s \<Rightarrow> u32 \<Rightarrow> store"
    and hd :: "'s \<Rightarrow> nat set"
    and slots :: "'s \<Rightarrow> nat"
  assumes rd_ok: "rd n s = Inr (b, s') \<Longrightarrow>
      b < slots s \<and> b \<notin> hd s \<and> hd s' = insert b (hd s) \<and> get b s' = sectors s n \<and>
      sectors s' = sectors s \<and> slots s' = slots s \<and> (\<forall>c \<in> hd s. get c s' = get c s)"
    and rd_progress: "hd s \<noteq> {..<slots s} \<Longrightarrow> \<exists>b s'. rd n s = Inr (b, s')"
    and hd_slots: "hd s \<subseteq> {..<slots s}"
    and put_ok: "b \<in> hd s \<Longrightarrow> get b (put b d s) = d \<and> hd (put b d s) = hd s \<and>
      sectors (put b d s) = sectors s \<and> slots (put b d s) = slots s \<and> (\<forall>c \<noteq> b. get c (put b d s) = get c s)"
    and wr_ok: "sectors (wr b n s) = (sectors s)(n := get b s) \<and> hd (wr b n s) = hd s \<and>
      slots (wr b n s) = slots s \<and> (\<forall>c. get c (wr b n s) = get c s)"
    and rel_ok: "b \<in> hd s \<Longrightarrow> sectors (rel b s) = sectors s \<and> hd (rel b s) = hd s - {b} \<and>
      slots (rel b s) = slots s \<and> (\<forall>c. get c (rel b s) = get c s)"
begin

text \<open>A read-modify-write of a sector: the sector changes, nothing else, no buffer is kept.\<close>

lemma modify_sector:
  assumes "hd s \<noteq> {..<slots s}"
  shows "\<exists>b s1. rd n s = Inr (b, s1) \<and>
    (let s2 = rel b (wr b n (put b (f (get b s1)) s1))
     in sectors s2 = (sectors s)(n := f (sectors s n)) \<and> hd s2 = hd s)"
proof -
  obtain b s1 where r: "rd n s = Inr (b, s1)" using rd_progress [OF assms] by blast
  note 1 = rd_ok [OF r]
  then have "b \<in> hd s1" by simp
  then show ?thesis
    using r 1 put_ok [of b s1] wr_ok rel_ok by (auto simp: Let_def)
qed

text \<open>Every buffer that is read and not released is lost for the readers to come.\<close>

lemma leak_exhausts:
  assumes "rd n s = Inr (b, s1)"
  shows "card (hd s1) = Suc (card (hd s))"
  using rd_ok [OF assms] finite_subset [OF hd_slots] by (simp add: card_insert_if)

end

lemma held_finite: "finite (held s)"
  by (simp add: held_def)

lemma held_full_iff: "held s = {..<length (bufs s)} \<longleftrightarrow> (\<forall>b \<in> set (bufs s). busy b)"
  by (auto simp: held_def set_conv_nth)

lemma bread_cases:
  "(\<exists>i. first_free s i \<and> bread dev n s = Inr (i, hold i (disk s n) s)) \<or>
   (held s = {..<length (bufs s)} \<and> bread dev n s = Inl Hang)"
  using bread_hold bread_hang first_free_ex [of s] held_full_iff [of s] by blast

lemma held_hold: "first_free s i \<Longrightarrow> held (hold i d s) = insert i (held s)"
  by (auto simp: held_def hold_def first_free_def busy_flags nth_list_update split: if_splits)

interpretation bbufs: block_buffers "bread dev" "bwrite dev" brelse bget bput disk held "\<lambda>s. length (bufs s)" for dev
proof (unfold_locales, goal_cases)
  case (1 n s b s')
  then obtain i where i: "first_free s i" "b = i" "s' = hold i (disk s n) s"
    using bread_cases [of s dev n] by auto
  then show ?case
    by (auto simp: held_hold) (auto simp: first_free_def held_def hold_def bget_def nth_list_update)
next
  case (2 s n)
  then show ?case using bread_cases [of s dev n] by auto
next
  case (3 s)
  then show ?case by (auto simp: held_def)
next
  case (4 b s d)
  then show ?case
    by (auto simp: held_def bget_def bput_def busy_def nth_list_update split: if_splits)
next
  case (5 b n s)
  then show ?case by (auto simp: held_def bget_def bwrite_def)
next
  case (6 b s)
  then show ?case
    by (auto simp: held_def bget_def brelse_def busy_flags nth_list_update split: if_splits)
qed

section \<open>Properties\<close>

text \<open>
  C15. A buffer that is held is never handed out again: reading two sectors without a release in
  between gives two different buffers, each with the contents of its own sector, and leaves the
  card unchanged.
\<close>

theorem bread_exclusive:
  assumes "bread dev n s = Inr (b, s1)" and "bread dev' m s1 = Inr (c, s2)"
  shows "b \<noteq> c \<and> bget b s2 = disk s n \<and> bget c s2 = disk s m \<and> disk s2 = disk s \<and>
    held s2 = {b, c} \<union> held s"
  using bbufs.rd_ok [OF assms(1)] bbufs.rd_ok [OF assms(2)] by auto

definition demo_bio :: "nat \<Rightarrow> bio" where
  "demo_bio n = \<lparr>mem = (\<lambda>_. 0), freelist = 0, procs = [], nextpid = 1, cpu_proc = (\<lambda>_. None), initproc = None, bufs = replicate n \<lparr>bflags = 0, bdata = (\<lambda>_. 0)\<rparr>,
     disk = (\<lambda>i. (\<lambda>_. 0)(0 := ucast i))\<rparr>"

theorem bread_exclusive_witness:
  "\<exists>s1 s2. bread 1 7 (demo_bio 10) = Inr (0, s1) \<and> bread 1 9 s1 = Inr (1, s2) \<and>
     bget 0 s2 = disk (demo_bio 10) 7 \<and> bget 1 s2 = disk (demo_bio 10) 9"
proof -
  let ?s1 = "hold 0 (disk (demo_bio 10) 7) (demo_bio 10)"
  have 1: "bread 1 7 (demo_bio 10) = Inr (0, ?s1)"
    by (rule bread_hold) (simp add: first_free_def demo_bio_def busy_def)
  have 2: "bread 1 9 ?s1 = Inr (1, hold 1 (disk ?s1 9) ?s1)"
    by (rule bread_hold) (simp add: first_free_def demo_bio_def hold_def busy_def)
  show ?thesis using bread_exclusive [OF 1 2] 1 2 by blast
qed

text \<open>\<^verbatim>\<open>bread\<close> on its own returns as long as one buffer is free, and spins for ever when all are held.\<close>

lemma bread_hangs_iff: "bread dev n s = Inl Hang \<longleftrightarrow> held s = {..<length (bufs s)}"
proof -
  have "held s \<noteq> {..<length (bufs s)}" if "first_free s i" for i
    using that by (auto simp: first_free_def held_full_iff)
  then show ?thesis using bread_cases [of s dev n] by auto
qed

text \<open>
  C17. When \<^verbatim>\<open>getblk\<close> returns. Whatever other processors do to the buffers between its tests, the loop ends
  if and only if it tests a buffer at a moment at which the buffer is free: with the first such test, it
  returns that buffer, marked busy; as long as there is none, it never ends. So once all buffers are held,
  only a release by another processor can end it.
\<close>

theorem getblk_returns_iff:
  assumes "same_table env" and "bufs s \<noteq> []"
  shows "(\<forall>m. \<not> busy (bufs (others env 0 m s) ! (m mod length (bufs s))) \<and>
      (\<forall>l < m. busy (bufs (others env 0 l s) ! (l mod length (bufs s)))) \<longrightarrow>
      getblk_loop env 0 0 s = Some (m mod length (bufs s), take_buf (m mod length (bufs s)) (others env 0 m s))) \<and>
    (getblk_loop env 0 0 s = None \<longleftrightarrow> (\<forall>m. busy (bufs (others env 0 m s) ! (m mod length (bufs s)))))"
proof (intro conjI allI impI)
  fix m
  assume "\<not> busy (bufs (others env 0 m s) ! (m mod length (bufs s))) \<and> (\<forall>l < m. busy (bufs (others env 0 l s) ! (l mod length (bufs s))))"
  then show "getblk_loop env 0 0 s = Some (m mod length (bufs s), take_buf (m mod length (bufs s)) (others env 0 m s))"
    using getblk_loop_finds [OF assms, of 0 0 m] assms(2) by simp
next
  show "getblk_loop env 0 0 s = None \<longleftrightarrow> (\<forall>m. busy (bufs (others env 0 m s) ! (m mod length (bufs s))))"
    using getblk_loop_never [OF assms] getblk_loop_ends [OF assms] by blast
qed

text \<open>Two buffers, both held; the other processor releases the second after the fourth test, and the sixth test finds it.\<close>

definition demo_held :: bio where
  "demo_held = (demo_bio 2)\<lparr>bufs := replicate 2 \<lparr>bflags = 1, bdata = (\<lambda>_. 0)\<rparr>\<rparr>"

definition demo_env :: "nat \<Rightarrow> bio \<Rightarrow> bio" where
  "demo_env k s = (if k = 3 then brelse 1 s else s)"

theorem getblk_returns_iff_witness:
  "\<exists>s'. getblk_loop demo_env 0 0 demo_held = Some (1, s') \<and> busy (bufs s' ! 1) \<and> getblk_loop (\<lambda>_ t. t) 0 0 demo_held = None"
proof -
  have e: "same_table demo_env" "same_table (\<lambda>_ t. t :: bio)" "bufs demo_held \<noteq> []" "length (bufs demo_held) = 2"
    by (simp_all add: same_table_def demo_env_def brelse_def demo_held_def)
  let ?t = "brelse 1 demo_held"
  have o: "others demo_env 0 l demo_held = (if l \<le> 3 then demo_held else ?t)" if "l \<le> 5" for l
  proof -
    have "l \<in> {0, 1, 2, 3, 4, 5}" using that by auto
    then show ?thesis by (auto simp: eval_nat_numeral demo_env_def)
  qed
  have b: "busy (bufs demo_held ! (l mod 2))" for l
    by (simp add: demo_held_def busy_def nth_replicate)
  have t: "busy (bufs ?t ! 0)" "\<not> busy (bufs ?t ! 1)" by (simp_all add: brelse_def demo_held_def busy_def)
  have "busy (bufs (others demo_env 0 l demo_held) ! (l mod 2))" if "l < 5" for l
  proof (cases "l = 4")
    case False
    then show ?thesis using that o [of l] b [of l] by simp
  qed (use t(1) o [of 4] in simp)
  moreover have "\<not> busy (bufs (others demo_env 0 5 demo_held) ! (5 mod 2))" using t(2) o [of 5] by simp
  ultimately have "getblk_loop demo_env 0 0 demo_held = Some (5 mod 2, take_buf (5 mod 2) (others demo_env 0 5 demo_held))"
    using getblk_returns_iff [OF e(1,3)] e(4) by metis
  then have "getblk_loop demo_env 0 0 demo_held = Some (1, take_buf 1 ?t)" using o [of 5] by simp
  moreover have "busy (bufs (take_buf 1 ?t) ! 1)" by (simp add: take_buf_def brelse_def demo_held_def busy_def)
  moreover have "getblk_loop (\<lambda>_ t. t) 0 0 demo_held = None"
    using getblk_returns_iff [OF e(2,3)] b e(4) by simp
  ultimately show ?thesis by blast
qed

text \<open>
  C16. A read-modify-write through a buffer (\<^verbatim>\<open>bread\<close>, change of \<^verbatim>\<open>bp->data\<close>, \<^verbatim>\<open>bwrite\<close>,
  \<^verbatim>\<open>brelse\<close>) returns when a buffer is free, replaces exactly one sector by the changed contents and
  holds no buffer afterwards that was not held before.
\<close>

theorem block_modify:
  assumes "held s \<noteq> {..<length (bufs s)}"
  shows "\<exists>b s1. bread dev n s = Inr (b, s1) \<and>
    (let s2 = brelse b (bwrite dev b n (bput b (f (bget b s1)) s1))
     in disk s2 = (disk s)(n := f (disk s n)) \<and> held s2 = held s)"
  using bbufs.modify_sector [OF assms] .

theorem block_modify_witness:
  "\<exists>b s1. bread 1 5 (demo_bio 3) = Inr (b, s1) \<and>
    (let s2 = brelse b (bwrite 1 b 5 (bput b ((bget b s1)(2 := 8)) s1))
     in disk s2 = (disk (demo_bio 3))(5 := (disk (demo_bio 3) 5)(2 := 8)) \<and> held s2 = held (demo_bio 3))"
proof -
  have "held (demo_bio 3) \<noteq> {..<length (bufs (demo_bio 3))}"
    by (simp add: held_full_iff) (simp add: demo_bio_def busy_def)
  then show ?thesis by (rule block_modify [where f = "\<lambda>d. d(2 := 8)"])
qed

end
