(* ===== verification/Fs.thy ===== *)
theory Fs
  imports Bio
begin

text \<open>
  The file system, \<^verbatim>\<open>kernel/fs.c\<close> with \<^verbatim>\<open>include/fs.h\<close>. The state \<open>fs\<close> adds the table of
  in-memory inodes; a \<^verbatim>\<open>struct inode*\<close> is the index of a table entry. The structures on the card
  (\<^verbatim>\<open>struct supperblock\<close>, \<^verbatim>\<open>struct dinode\<close>, \<^verbatim>\<open>struct dirent\<close>) are read and written at their byte
  offsets in a sector, and the data a file is read into or written from lies in the physical
  memory of \<open>pmem\<close>, at the address the caller passes.

  A process that has to wait for an inode gives the value \<open>Inl Sleeps\<close>. The device switch table
  is an argument of \<open>readi\<close> and \<open>writei\<close>. A path is the list of its bytes; reading past its end
  gives the terminating 0.
\<close>

section \<open>On-disk structures\<close>

abbreviation (input) BSIZE :: nat where "BSIZE \<equiv> 512"
abbreviation (input) NDIRECT :: nat where "NDIRECT \<equiv> 31"
abbreviation (input) NINDIRECT :: nat where "NINDIRECT \<equiv> 128"
abbreviation (input) DIRSIZ :: nat where "DIRSIZ \<equiv> 14"
abbreviation (input) NINODE :: nat where "NINODE \<equiv> 100"
abbreviation (input) NDEV :: nat where "NDEV \<equiv> 10"
abbreviation (input) T_DIR :: u16 where "T_DIR \<equiv> 1"
abbreviation (input) T_FILE :: u16 where "T_FILE \<equiv> 2"
abbreviation (input) T_DEV :: u16 where "T_DEV \<equiv> 3"
abbreviation (input) rootdev :: u32 where "rootdev \<equiv> 1"

definition sb_size :: "store \<Rightarrow> u32" where "sb_size d = load32 d 0"
definition sb_ninodes :: "store \<Rightarrow> u32" where "sb_ninodes d = load32 d 8"

text \<open>A \<^verbatim>\<open>struct dinode\<close> has 140 bytes, so \<^verbatim>\<open>IPB\<close> is 3. The divisions are done in 64 bits.\<close>

definition IBLOCK :: "u32 \<Rightarrow> u32" where
  "IBLOCK inum = ucast ((ucast inum :: u64) div 3 + 2)"

definition BBLOCK :: "u32 \<Rightarrow> u32 \<Rightarrow> u32" where
  "BBLOCK b ninodes = ucast ((ucast (b div 4096) :: u64) + (scast ninodes :: u64) div 3 + 3)"

definition dinode_off :: "u32 \<Rightarrow> nat" where
  "dinode_off inum = 140 * (unat inum mod 3)"

section \<open>State\<close>

record inode =
  i_dev :: u32
  i_major :: u16
  i_minor :: u16
  i_inum :: u32
  i_count :: u32
  i_busy :: int
  i_type :: u16
  i_nlink :: u16
  i_size :: u32
  i_addrs :: "u32 list"

record fs = bio +
  inodes :: "inode list"

definition upd_inode :: "nat \<Rightarrow> (inode \<Rightarrow> inode) \<Rightarrow> 'a fs_scheme \<Rightarrow> 'a fs_scheme" where
  "upd_inode i f s = s\<lparr>inodes := (inodes s)[i := f (inodes s ! i)]\<rparr>"

text \<open>\<^verbatim>\<open>struct devsw\<close> of \<^verbatim>\<open>include/dev.h\<close>, the two entries that are used.\<close>

type_synonym 's devfun = "u16 \<Rightarrow> u64 \<Rightarrow> u32 \<Rightarrow> 's \<Rightarrow> (int \<times> 's) result"

record 's devsw_ops =
  d_read :: "'s devfun option"
  d_write :: "'s devfun option"

section \<open>Blocks\<close>

text \<open>The loop of \<^verbatim>\<open>balloc\<close>: \<open>bp\<close> is the buffer held, changed at every bitmap sector.\<close>

definition bitmap_free :: "store \<Rightarrow> nat \<Rightarrow> bool" where
  "bitmap_free d bi \<longleftrightarrow> d (bi div 8) AND push_bit (bi mod 8) 1 = 0"

function balloc_loop ::
  "u32 \<Rightarrow> nat \<Rightarrow> u32 \<Rightarrow> nat \<Rightarrow> nat \<Rightarrow> 'a bio_scheme \<Rightarrow> (nat \<times> nat \<times> 'a bio_scheme) result" where
  "balloc_loop dev sz ninodes b bp s =
     (if b < sz
      then bindR (if b mod 4096 = 0 then bread dev (BBLOCK (of_nat b) ninodes) (brelse bp s) else Inr (bp, s))
        (\<lambda>(bp1, s1). if bitmap_free (bget bp1 s1) (b mod 4096) then Inr (b, bp1, s1)
           else balloc_loop dev sz ninodes (Suc b) bp1 s1)
      else Inr (b, bp, s))"
  by pat_completeness auto
termination
  by (relation "measure (\<lambda>(dev, sz, ninodes, b, bp, s). sz - b)") auto

declare balloc_loop.simps [simp del]

definition balloc :: "u32 \<Rightarrow> 'a bio_scheme \<Rightarrow> (u32 \<times> 'a bio_scheme) result" where
  "balloc dev s =
     bindR (bread dev 1 s) (\<lambda>(bp, s1).
       let sz = nat (sint (sb_size (bget bp s1))); ninodes = sb_ninodes (bget bp s1) in
       bindR (balloc_loop dev sz ninodes 0 bp s1) (\<lambda>(b, bp, s2).
         if sz \<le> b then Inl (Panic ''balloc: out of blocks'')
         else let bi = b mod 4096; d = bget bp s2;
                s3 = bput bp (d(bi div 8 := d (bi div 8) OR push_bit (bi mod 8) 1)) s2;
                s4 = bwrite dev bp (BBLOCK (of_nat b) ninodes) s3
           in Inr (of_nat b, brelse bp s4)))"

definition bfree :: "u32 \<Rightarrow> u32 \<Rightarrow> 'a bio_scheme \<Rightarrow> 'a bio_scheme result" where
  "bfree dev b s =
     bindR (bread dev 1 s) (\<lambda>(bp, s1).
       let ninodes = sb_ninodes (bget bp s1); s2 = brelse bp s1 in
       bindR (bread dev (BBLOCK b ninodes) s2) (\<lambda>(bp, s3).
         let bi = unat b mod 4096; d = bget bp s3;
           s4 = bput bp (d(bi div 8 := d (bi div 8) AND NOT (push_bit (bi mod 8) 1))) s3
         in Inr (brelse bp (bwrite dev bp (BBLOCK b ninodes) s4))))"

section \<open>Inodes\<close>

datatype iscan = Hit nat "nat option" | Miss "nat option"

fun iget_scan :: "u32 \<Rightarrow> u32 \<Rightarrow> nat \<Rightarrow> nat option \<Rightarrow> inode list \<Rightarrow> iscan" where
  "iget_scan dev inum i nip [] = Miss nip"
| "iget_scan dev inum i nip (ip # ips) =
     (if 0 < sint (i_count ip) \<and> i_dev ip = dev \<and> i_inum ip = inum then Hit i nip
      else iget_scan dev inum (Suc i) (if nip = None \<and> i_count ip = 0 then Some i else nip) ips)"

definition read_dinode :: "store \<Rightarrow> nat \<Rightarrow> inode \<Rightarrow> inode" where
  "read_dinode d o' ip = ip\<lparr>i_type := load16 d o', i_major := load16 d (o' + 2), i_minor := load16 d (o' + 4),
     i_nlink := load16 d (o' + 6), i_size := load32 d (o' + 8),
     i_addrs := map (\<lambda>k. load32 d (o' + 12 + 4 * k)) [0..<NDIRECT + 1]\<rparr>"

text \<open>
  \<^verbatim>\<open>iget\<close> from its label \<^verbatim>\<open>loop\<close> on. When the entry is in use, the caller sleeps, with the lock of the table
  held, and goes on at the label when it is woken: with what the table is then, and with the \<open>nip\<close> that the
  interrupted search had found. A caller that has not slept starts without one.
\<close>

definition iget_loop :: "u32 \<Rightarrow> u32 \<Rightarrow> nat option \<Rightarrow> 'a fs_scheme \<Rightarrow> (nat \<times> 'a fs_scheme) result" where
  "iget_loop dev inum nip s =
     (case iget_scan dev inum 0 nip (inodes s) of
        Hit i _ \<Rightarrow>
          if i_busy (inodes s ! i) \<noteq> 0 then Inl Sleeps
          else Inr (i, upd_inode i (\<lambda>ip. ip\<lparr>i_count := i_count ip + 1, i_busy := 1\<rparr>) s)
      | Miss None \<Rightarrow> Inl (Panic ''out of inode'')
      | Miss (Some i) \<Rightarrow>
          let s1 = upd_inode i (\<lambda>ip. ip\<lparr>i_dev := dev, i_inum := inum, i_count := 1, i_busy := 1\<rparr>) s in
          bindR (bread dev (IBLOCK inum) s1) (\<lambda>(bp, s2).
            let s3 = upd_inode i (read_dinode (bget bp s2) (dinode_off inum)) s2
            in Inr (i, brelse bp s3)))"

definition iget :: "u32 \<Rightarrow> u32 \<Rightarrow> 'a fs_scheme \<Rightarrow> (nat \<times> 'a fs_scheme) result" where
  "iget dev inum s = iget_loop dev inum None s"

text \<open>
  The loop of \<^verbatim>\<open>ialloc\<close>; \<open>found\<close> is the pair of the variables \<open>bp\<close> and \<open>dip\<close>, as they are left
  by the last iteration.
\<close>

function ialloc_loop ::
  "u32 \<Rightarrow> nat \<Rightarrow> nat \<Rightarrow> (nat \<times> nat) option \<Rightarrow> 'a bio_scheme \<Rightarrow> (nat \<times> (nat \<times> nat) option \<times> 'a bio_scheme) result" where
  "ialloc_loop dev ninodes inum found s =
     (if inum < ninodes
      then bindR (bread dev (IBLOCK (of_nat inum)) s) (\<lambda>(bp, s1).
        let dip = dinode_off (of_nat inum) in
        if load16 (bget bp s1) dip = 0 then Inr (inum, Some (bp, dip), s1)
        else ialloc_loop dev ninodes (Suc inum) (Some (bp, dip)) (brelse bp s1))
      else Inr (inum, found, s))"
  by pat_completeness auto
termination
  by (relation "measure (\<lambda>(dev, ninodes, inum, found, s). ninodes - inum)") auto

declare ialloc_loop.simps [simp del]

text \<open>
  There is no check that the loop found a free inode: without one, the type is written through
  the last \<open>dip\<close> into a buffer that has been released.
\<close>

definition ialloc :: "u32 \<Rightarrow> u16 \<Rightarrow> 'a fs_scheme \<Rightarrow> (nat \<times> 'a fs_scheme) result" where
  "ialloc dev type s =
     bindR (bread dev 1 s) (\<lambda>(bp, s1).
       let ninodes = sb_ninodes (bget bp s1) in
       bindR (ialloc_loop dev (nat (sint ninodes)) 1 None (brelse bp s1)) (\<lambda>(inum, found, s2).
         case found of None \<Rightarrow> Inl Uninit
         | Some (bp, dip) \<Rightarrow>
             let s3 = bput bp (store16 (bget bp s2) dip type) s2;
               s4 = bwrite dev bp (IBLOCK (of_nat inum)) s3
             in iget dev (of_nat inum) (brelse bp s4)))"

definition write_dinode :: "inode \<Rightarrow> nat \<Rightarrow> store \<Rightarrow> store" where
  "write_dinode ip o' d =
     store32 (store16 (store16 (store16 (store16 d o' (i_type ip)) (o' + 2) (i_major ip)) (o' + 4) (i_minor ip))
       (o' + 6) (i_nlink ip)) (o' + 8) (i_size ip)"

definition iupdate :: "nat \<Rightarrow> 'a fs_scheme \<Rightarrow> 'a fs_scheme result" where
  "iupdate i s =
     (let ip = inodes s ! i in
      bindR (bread (i_dev ip) (IBLOCK (i_inum ip)) s) (\<lambda>(bp, s1).
        let s2 = bput bp (write_dinode ip (dinode_off (i_inum ip)) (bget bp s1)) s1
        in Inr (brelse bp (bwrite (i_dev ip) bp (IBLOCK (i_inum ip)) s2))))"

definition ifree :: "u32 \<Rightarrow> nat \<Rightarrow> 'a fs_scheme \<Rightarrow> 'a fs_scheme result" where
  "ifree dev i s = iupdate i (upd_inode i (\<lambda>ip. ip\<lparr>i_type := 0\<rparr>) s)"

definition ilock :: "nat \<Rightarrow> 'a fs_scheme \<Rightarrow> 'a fs_scheme result" where
  "ilock i s = (if i_busy (inodes s ! i) \<noteq> 0 then Inl Sleeps else Inr (upd_inode i (\<lambda>ip. ip\<lparr>i_busy := 1\<rparr>) s))"

definition iunlock :: "nat \<Rightarrow> 'a fs_scheme \<Rightarrow> 'a fs_scheme" where
  "iunlock i s = wakeup (ChanInode i) (upd_inode i (\<lambda>ip. ip\<lparr>i_busy := 0\<rparr>) s)"

definition iput :: "nat \<Rightarrow> 'a fs_scheme \<Rightarrow> 'a fs_scheme" where
  "iput i s = wakeup (ChanInode i) (upd_inode i (\<lambda>ip. ip\<lparr>i_count := i_count ip - 1, i_busy := 0\<rparr>) s)"

definition iincref :: "nat \<Rightarrow> 'a fs_scheme \<Rightarrow> 'a fs_scheme" where
  "iincref i s = upd_inode i (\<lambda>ip. ip\<lparr>i_count := i_count ip + 1\<rparr>) s"

section \<open>Reading and writing\<close>

text \<open>
  For an indirect block \<^verbatim>\<open>bmap\<close> casts the \<^verbatim>\<open>struct buf*\<close> itself to \<^verbatim>\<open>uint*\<close>, so that index 0 is
  the \<open>flags\<close> member and index \<open>k > 0\<close> the word \<open>k - 1\<close> of the data, and does not release the
  buffer. Past the end of the buffer the access is out of bounds.
\<close>

definition bmap :: "inode \<Rightarrow> nat \<Rightarrow> 'a bio_scheme \<Rightarrow> (u32 \<times> 'a bio_scheme) result" where
  "bmap ip bn s =
     (if bn < NDIRECT then Inr (i_addrs ip ! bn, s)
      else bindR (bread (i_dev ip) (i_addrs ip ! NDIRECT) s) (\<lambda>(bp, s1).
        let k = bn - NDIRECT in
        if k = 0 then Inr (bflags (bufs s1 ! bp), s1)
        else if k \<le> 128 then Inr (load32 (bget bp s1) (4 * (k - 1)), s1)
        else Inl OutOfBounds))"

text \<open>Copying \<open>n\<close> bytes, one by one, from \<open>src\<close> at \<open>a\<close> to \<open>dst\<close> at \<open>b\<close>.\<close>

fun copy_bytes :: "nat \<Rightarrow> store \<Rightarrow> nat \<Rightarrow> store \<Rightarrow> nat \<Rightarrow> store" where
  "copy_bytes 0 src a dst b = dst"
| "copy_bytes (Suc n) src a dst b = copy_bytes n src (Suc a) (dst(b := src a)) (Suc b)"

definition umin :: "u32 \<Rightarrow> u32 \<Rightarrow> u32" where
  "umin a b = (if a < b then a else b)"

definition chunk :: "u32 \<Rightarrow> u32 \<Rightarrow> u32 \<Rightarrow> u32" where
  "chunk isize off n = umin (umin n (isize - off)) (512 - off mod 512)"

lemma unat_left: "unat (512 - off mod 512 :: u32) = 512 - unat off mod 512"
proof -
  have "unat off mod 512 \<le> 512" by (simp add: less_imp_le)
  then show ?thesis by (subst unat_sub) (simp_all add: word_le_nat_alt unat_mod)
qed

lemma left_pos: "0 < (512 - off mod 512 :: u32)"
  using unat_left [of off] by (simp add: word_less_nat_alt)

lemma word_diff_pos: "(a :: u32) < b \<Longrightarrow> 0 < b - a"
  by (simp add: word_less_nat_alt unat_sub word_le_nat_alt)

lemma chunk_bounds:
  assumes "0 < n" and "off < isize"
  shows "0 < chunk isize off n" and "chunk isize off n \<le> n"
  using assms left_pos [of off] word_diff_pos [OF assms(2)] by (auto simp: chunk_def umin_def)

text \<open>
  The loop of \<^verbatim>\<open>readi\<close>. The destination is advanced by the copying and then again by the number
  of bytes copied.
\<close>

function readi_loop :: "inode \<Rightarrow> nat \<Rightarrow> u32 \<Rightarrow> u32 \<Rightarrow> 'a bio_scheme \<Rightarrow> (u32 \<times> 'a bio_scheme) result" where
  "readi_loop ip dst off n s =
     (if 0 < n \<and> off < i_size ip
      then bindR (bmap ip (unat (off div 512)) s) (\<lambda>(blk, s1).
        bindR (bread (i_dev ip) blk s1) (\<lambda>(bp, s2).
          let n1 = chunk (i_size ip) off n;
            s3 = s2\<lparr>mem := copy_bytes (unat n1) (bget bp s2) (unat (off mod 512)) (mem s2) dst\<rparr>
          in readi_loop ip (dst + unat n1 + unat n1) (off + n1) (n - n1) (brelse bp s3)))
      else Inr (n, s))"
  by pat_completeness auto
termination
proof (relation "measure (\<lambda>(ip, dst, off, n, s). unat n)", goal_cases)
  case (2 ip dst off n s x blk s1 y bp s2 n1 s3)
  then have "0 < n1" "n1 \<le> n" using chunk_bounds [of n off "i_size ip"] by simp_all
  then show ?case by (simp add: unat_sub word_le_nat_alt word_less_nat_alt)
qed simp

declare readi_loop.simps [simp del]

definition readi :: "'a fs_scheme devsw_ops list \<Rightarrow> nat \<Rightarrow> u64 \<Rightarrow> u32 \<Rightarrow> u32 \<Rightarrow> 'a fs_scheme \<Rightarrow> (int \<times> 'a fs_scheme) result" where
  "readi devsw i xdist off n s =
     (let ip = inodes s ! i in
      if i_type ip = T_DEV then
        (if sint (i_major ip) < 0 \<or> int NDEV \<le> sint (i_major ip) then Inr (- 1, s)
         else case d_read (devsw ! nat (sint (i_major ip))) of
             None \<Rightarrow> Inr (- 1, s)
           | Some f \<Rightarrow> f (i_minor ip) xdist n s)
      else bindR (readi_loop ip (unat xdist) off n s) (\<lambda>(n', s'). Inr (sint (n - n'), s')))"

text \<open>
  The block for \<^verbatim>\<open>lbn\<close> in \<^verbatim>\<open>writei\<close>, allocated when there is none; the first part of the body of
  its loop.
\<close>

definition writei_block :: "nat \<Rightarrow> nat \<Rightarrow> 'a fs_scheme \<Rightarrow> 'a fs_scheme result" where
  "writei_block i lbn s =
     (let ip = inodes s ! i in
      if lbn < NDIRECT then
        (if i_addrs ip ! lbn = 0
         then bindR (balloc (i_dev ip) s) (\<lambda>(b, s1). Inr (upd_inode i (\<lambda>ip. ip\<lparr>i_addrs := (i_addrs ip)[lbn := b]\<rparr>) s1))
         else Inr s)
      else if NINDIRECT < lbn - NDIRECT then Inl (Panic ''writei:MAXFILE'')
      else
        bindR (if i_addrs ip ! NDIRECT = 0
               then bindR (balloc (i_dev ip) s) (\<lambda>(b, s1). Inr (upd_inode i (\<lambda>ip. ip\<lparr>i_addrs := (i_addrs ip)[NDIRECT := b]\<rparr>) s1))
               else Inr s) (\<lambda>s1.
        let ind = i_addrs (inodes s1 ! i) ! NDIRECT; k = lbn - NDIRECT in
        bindR (bread (i_dev ip) ind s1) (\<lambda>(bp, s2).
          if NINDIRECT \<le> k then Inl OutOfBounds
          else bindR (if load32 (bget bp s2) (4 * k) = 0
                 then bindR (balloc (i_dev ip) s2) (\<lambda>(b, s3). Inr (bput bp (store32 (bget bp s3) (4 * k) b) s3))
                 else Inr s2) (\<lambda>s3. Inr (brelse bp (bwrite (i_dev ip) bp ind s3))))))"

text \<open>The second part, which copies into the block; the block number is looked up twice.\<close>

definition writei_copy :: "nat \<Rightarrow> nat \<Rightarrow> u32 \<Rightarrow> u32 \<Rightarrow> 'a fs_scheme \<Rightarrow> 'a fs_scheme result" where
  "writei_copy i src off m s =
     (let ip = inodes s ! i; bn = unat (off div 512) in
      bindR (bmap ip bn s) (\<lambda>(blk, s1).
      bindR (bread (i_dev ip) blk s1) (\<lambda>(bp, s2).
        let s3 = bput bp (copy_bytes (unat m) (mem s2) src (bget bp s2) (unat (off mod 512))) s2 in
      bindR (bmap ip bn s3) (\<lambda>(blk', s4).
        Inr (brelse bp (bwrite (i_dev ip) bp blk' s4))))))"

function writei_loop ::
  "nat \<Rightarrow> nat \<Rightarrow> u32 \<Rightarrow> u32 \<Rightarrow> u32 \<Rightarrow> 'a fs_scheme \<Rightarrow> (u32 \<times> u32 \<times> 'a fs_scheme) result" where
  "writei_loop i addr off n r s =
     (if r < n
      then bindR (writei_block i (unat (off div 512)) s) (\<lambda>s1.
        let m = umin (512 - off mod 512) (n - r) in
        bindR (writei_copy i (addr + unat r) off m s1) (\<lambda>s2.
          writei_loop i addr (off + m) n (r + m) s2))
      else Inr (r, off, s))"
  by pat_completeness auto
termination
proof (relation "measure (\<lambda>(i, addr, off, n, r, s). unat n - unat r)", goal_cases)
  case (2 i addr off n r s s1 m s2)
  have "0 < m" "m \<le> n - r"
    using 2(3) left_pos [of off] word_diff_pos [OF 2(1)] by (auto simp: umin_def)
  moreover have "unat (n - r) = unat n - unat r" using 2(1) by (simp add: unat_sub order_less_imp_le)
  ultimately have "0 < unat m" "unat m \<le> unat n - unat r"
    by (simp_all add: word_less_nat_alt word_le_nat_alt)
  moreover from this have "unat (r + m) = unat r + unat m"
    using unat_bounds(3) [of n] by (simp add: unat_word_ariths)
  ultimately show ?case by simp
qed simp

declare writei_loop.simps [simp del]

definition writei :: "'a fs_scheme devsw_ops list \<Rightarrow> nat \<Rightarrow> u64 \<Rightarrow> u32 \<Rightarrow> u32 \<Rightarrow> 'a fs_scheme \<Rightarrow> (int \<times> 'a fs_scheme) result" where
  "writei devsw i addr off n s =
     (let ip = inodes s ! i in
      if i_type ip = T_DEV then
        (if sint (i_major ip) < 0 \<or> int NDEV \<le> sint (i_major ip) then Inr (- 1, s)
         else case d_write (devsw ! nat (sint (i_major ip))) of
             None \<Rightarrow> Inr (- 1, s)
           | Some f \<Rightarrow> f (i_minor ip) addr n s)
      else if i_type ip = T_FILE then
        bindR (writei_loop i (unat addr) off n 0 s) (\<lambda>(r, off', s1).
          let s2 = (if 0 < sint r \<and> i_size (inodes s1 ! i) < off' then upd_inode i (\<lambda>ip. ip\<lparr>i_size := off'\<rparr>) s1 else s1)
          in bindR (iupdate i s2) (\<lambda>s3. Inr (sint r, s3)))
      else Inl (Panic ''writei: unkown type''))"

end
