(* ===== verification/Fs_Name.thy ===== *)
theory Fs_Name
  imports Fs
begin

text \<open>
  Directories: \<^verbatim>\<open>namei\<close> and \<^verbatim>\<open>mknod\<close> of \<^verbatim>\<open>kernel/fs.c\<close>. A directory is a file of 16-byte entries,
  an inode number and a name of up to 14 bytes.
\<close>

section \<open>Looking up a path\<close>

abbreviation (input) SLASH :: byte where "SLASH \<equiv> 47"

text \<open>\<^verbatim>\<open>cp[i]\<close> of a zero-terminated string.\<close>

definition chr_at :: "byte list \<Rightarrow> nat \<Rightarrow> byte" where
  "chr_at cp i = (if i < length cp then cp ! i else 0)"

definition skip_slashes :: "byte list \<Rightarrow> byte list" where
  "skip_slashes = dropWhile (\<lambda>c. c = SLASH)"

text \<open>
  The comparison of a path component with the name at \<open>nm\<close>: how far they agree; \<open>k\<close> is the
  number of bytes of the name that are left.
\<close>

fun name_scan :: "nat \<Rightarrow> byte list \<Rightarrow> store \<Rightarrow> nat \<Rightarrow> nat \<Rightarrow> nat" where
  "name_scan 0 cp d nm i = i"
| "name_scan (Suc k) cp d nm i =
     (if chr_at cp i \<noteq> SLASH \<and> chr_at cp i \<noteq> 0 \<and> chr_at cp i = d (nm + i) then name_scan k cp d nm (Suc i) else i)"

definition dirent_match :: "byte list \<Rightarrow> store \<Rightarrow> nat \<Rightarrow> nat option" where
  "dirent_match cp d ep =
     (if load16 d ep = 0 then None
      else let i = name_scan DIRSIZ cp d (ep + 2) 0 in
        if (chr_at cp i = 0 \<or> chr_at cp i = SLASH) \<and> (DIRSIZ \<le> i \<or> d (ep + 2 + i) = 0) then Some i else None)"

text \<open>The 32 entries of a sector: inode number and length of the name of the first that matches.\<close>

fun dir_scan :: "byte list \<Rightarrow> store \<Rightarrow> nat list \<Rightarrow> (u16 \<times> nat) option" where
  "dir_scan cp d [] = None"
| "dir_scan cp d (ep # eps) =
     (case dirent_match cp d ep of Some i \<Rightarrow> Some (load16 d ep, i) | None \<Rightarrow> dir_scan cp d eps)"

definition dirents :: "nat list" where
  "dirents = map (\<lambda>k. 16 * k) [0..<32]"

text \<open>
  The loop over the sectors of a directory. The offset is a natural number: \<open>bmap\<close> fails long
  before a 32-bit offset could wrap.
\<close>

function namei_dir :: "inode \<Rightarrow> byte list \<Rightarrow> nat \<Rightarrow> 'a bio_scheme \<Rightarrow> ((u16 \<times> nat) option \<times> 'a bio_scheme) result" where
  "namei_dir dp cp off s =
     (if off < unat (i_size dp)
      then bindR (bmap dp (off div 512) s) (\<lambda>(blk, s1).
        bindR (bread (i_dev dp) blk s1) (\<lambda>(bp, s2).
          case dir_scan cp (bget bp s2) dirents of
            Some (ninum, i) \<Rightarrow> Inr (Some (ninum, i), brelse bp s2)
          | None \<Rightarrow> namei_dir dp cp (off + 512) (brelse bp s2)))
      else Inr (None, s))"
  by pat_completeness auto
termination
  by (relation "measure (\<lambda>(dp, cp, off, s). unat (i_size dp) - off)") auto

declare namei_dir.simps [simp del]

lemma name_scan_ge: "i \<le> name_scan k cp d nm i"
  by (induction k cp d nm i rule: name_scan.induct) (auto intro: Suc_leD)

lemma name_scan_len: "i \<le> length cp \<Longrightarrow> name_scan k cp d nm i \<le> length cp"
  by (induction k cp d nm i rule: name_scan.induct) (auto simp: chr_at_def split: if_splits)

lemma dirent_match_pos:
  "dirent_match cp d ep = Some i \<Longrightarrow> chr_at cp 0 \<noteq> 0 \<Longrightarrow> chr_at cp 0 \<noteq> SLASH \<Longrightarrow> 0 < i \<and> i \<le> length cp"
  using name_scan_len [of 0 cp DIRSIZ d "ep + 2"]
  by (cases i) (auto simp: dirent_match_def Let_def split: if_splits)

lemma dir_scan_pos:
  "dir_scan cp d eps = Some (n, i) \<Longrightarrow> chr_at cp 0 \<noteq> 0 \<Longrightarrow> chr_at cp 0 \<noteq> SLASH \<Longrightarrow> 0 < i \<and> i \<le> length cp"
  by (induction eps) (auto dest: dirent_match_pos split: option.splits)

lemma namei_dir_pos:
  "namei_dir dp cp off s = Inr (Some (n, i), s') \<Longrightarrow> chr_at cp 0 \<noteq> 0 \<Longrightarrow> chr_at cp 0 \<noteq> SLASH \<Longrightarrow>
    0 < i \<and> i \<le> length cp"
proof (induction dp cp off s rule: namei_dir.induct)
  case (1 dp cp off s)
  from "1.prems"(1) have lt: "off < unat (i_size dp)"
    by (subst (asm) namei_dir.simps) (auto split: if_splits)
  from "1.prems"(1) obtain blk s1 where b: "bmap dp (off div 512) s = Inr (blk, s1)"
    by (subst (asm) namei_dir.simps) (auto simp: lt result_simps)
  from "1.prems"(1) b obtain bp s2 where r: "bread (i_dev dp) blk s1 = Inr (bp, s2)"
    by (subst (asm) namei_dir.simps) (auto simp: lt result_simps)
  show ?case
  proof (cases "dir_scan cp (bget bp s2) dirents")
    case None
    then have "namei_dir dp cp (off + 512) (brelse bp s2) = Inr (Some (n, i), s')"
      using "1.prems"(1) b r lt by (subst (asm) namei_dir.simps) simp
    then show ?thesis using "1.IH" [OF lt b refl r refl None] "1.prems" by simp
  next
    case (Some p)
    then have "dir_scan cp (bget bp s2) dirents = Some (n, i)"
      using "1.prems"(1) b r lt by (subst (asm) namei_dir.simps) (auto split: prod.splits)
    then show ?thesis using dir_scan_pos "1.prems" by blast
  qed
qed

lemma skip_slashes_head: "chr_at (skip_slashes cp) 0 \<noteq> SLASH"
proof (cases "skip_slashes cp")
  case (Cons c cs)
  then have "c \<noteq> SLASH" using hd_dropWhile [of "\<lambda>c. c = SLASH" cp] by (simp add: skip_slashes_def)
  with Cons show ?thesis by (simp add: chr_at_def)
qed (simp add: chr_at_def)

lemma skip_slashes_len: "length (skip_slashes cp) \<le> length cp"
  by (simp add: skip_slashes_def length_dropWhile_le)

text \<open>
  The loop over the components, with the slashes skipped: it ends because every component found
  is at least one byte long.
\<close>

function namei_loop :: "nat \<Rightarrow> byte list \<Rightarrow> 'a fs_scheme \<Rightarrow> (nat option \<times> 'a fs_scheme) result" where
  "namei_loop dp cp s =
     (let cp = skip_slashes cp in
      if chr_at cp 0 = 0 then Inr (Some dp, s)
      else if i_type (inodes s ! dp) \<noteq> T_DIR then Inr (None, iput dp s)
      else bindR (namei_dir (inodes s ! dp) cp 0 s) (\<lambda>(r, s1).
        case r of None \<Rightarrow> Inr (None, iput dp s1)
        | Some (ninum, i) \<Rightarrow>
            let s2 = iput dp s1 in
            bindR (iget (i_dev (inodes s2 ! dp)) (ucast ninum) s2) (\<lambda>(dp', s3).
              namei_loop dp' (drop i cp) s3)))"
  by pat_completeness auto
termination
proof (relation "measure (\<lambda>(dp, cp, s). length cp)", goal_cases)
  case (2 dp cp s cp' x r s1 y ninum i s2 z dp' s3)
  then have "0 < i \<and> i \<le> length cp'" using namei_dir_pos skip_slashes_head by metis
  then show ?case using 2(1) skip_slashes_len [of cp] by auto
qed simp

declare namei_loop.simps [simp del]

definition namei :: "byte list \<Rightarrow> 'a fs_scheme \<Rightarrow> (nat option \<times> 'a fs_scheme) result" where
  "namei path s = bindR (iget rootdev 1 s) (\<lambda>(dp, s1). namei_loop dp path s1)"

section \<open>Making a node\<close>

fun find_slot :: "store \<Rightarrow> nat list \<Rightarrow> nat option" where
  "find_slot d [] = None"
| "find_slot d (ep # eps) = (if load16 d ep = 0 then Some ep else find_slot d eps)"

text \<open>The search for a free entry: the offset of the sector, the buffer that holds it, the entry.\<close>

function mknod_dir :: "inode \<Rightarrow> nat \<Rightarrow> 'a bio_scheme \<Rightarrow> (nat \<times> nat \<times> nat \<times> 'a bio_scheme) result" where
  "mknod_dir dp off s =
     (if off < unat (i_size dp)
      then bindR (bmap dp (off div 512) s) (\<lambda>(blk, s1).
        bindR (bread (i_dev dp) blk s1) (\<lambda>(bp, s2).
          case find_slot (bget bp s2) dirents of
            Some ep \<Rightarrow> Inr (off, bp, ep, s2)
          | None \<Rightarrow> mknod_dir dp (off + 512) (brelse bp s2)))
      else Inl (Panic ''mknod:no dir entry free''))"
  by pat_completeness auto
termination
  by (relation "measure (\<lambda>(dp, off, s). unat (i_size dp) - off)") auto

declare mknod_dir.simps [simp del]

text \<open>\<^verbatim>\<open>for (int i = 0; i < DIRSIZ && path[i]; i++) ep->name[i] = path[i];\<close>\<close>

fun put_name :: "nat \<Rightarrow> byte list \<Rightarrow> nat \<Rightarrow> nat \<Rightarrow> store \<Rightarrow> store" where
  "put_name 0 path nm i d = d"
| "put_name (Suc k) path nm i d =
     (if chr_at path i \<noteq> 0 then put_name k path nm (Suc i) (d(nm + i := chr_at path i)) else d)"

definition mknod :: "nat \<Rightarrow> byte list \<Rightarrow> u16 \<Rightarrow> u16 \<Rightarrow> u16 \<Rightarrow> 'a fs_scheme \<Rightarrow> (nat \<times> 'a fs_scheme) result" where
  "mknod dp path type major minor s =
     bindR (ialloc (i_dev (inodes s ! dp)) type s) (\<lambda>(ip, s1).
     let s2 = upd_inode ip (\<lambda>n. n\<lparr>i_major := major, i_minor := minor, i_size := 0, i_nlink := 0\<rparr>) s1 in
     bindR (iupdate ip s2) (\<lambda>s3.
     bindR (mknod_dir (inodes s3 ! dp) 0 s3) (\<lambda>(off, bp, ep, s4).
     let d = store16 (bget bp s4) ep (ucast (i_inum (inodes s4 ! ip)));
       s5 = bput bp (put_name DIRSIZ path (ep + 2) 0 d) s4 in
     bindR (bmap (inodes s5 ! dp) (off div 512) s5) (\<lambda>(blk, s6).
     let s7 = brelse bp (bwrite (i_dev (inodes s6 ! dp)) bp blk s6);
       s8 = upd_inode dp (\<lambda>n. n\<lparr>i_size := i_size n + 16\<rparr>) s7 in
     bindR (iupdate dp s8) (\<lambda>s9. Inr (ip, s9))))))"

end
