(* ===== verification/Console.thy ===== *)
theory Console
  imports Fs_Name
begin

text \<open>
  The console, \<^verbatim>\<open>kernel/console.c\<close>, and the PL011 serial port below it, \<^verbatim>\<open>kernel/pl011_uart.c\<close>. The
  state \<open>con\<close> adds the input ring \<^verbatim>\<open>cons\<close>, the bytes written to the data register so far and the
  values that reading the data register will give, and the register that clears interrupts. Waiting for room in the
  transmit FIFO is not modelled: the port always drains it. The set-up of the port is in \<open>Devices\<close>.
\<close>

section \<open>State and operations\<close>

abbreviation (input) INPUT_BUF_SIZE :: nat where "INPUT_BUF_SIZE \<equiv> 128"
abbreviation (input) BACKSPACE :: int where "BACKSPACE \<equiv> 0x100"

record con = fs +
  cons_buf :: "byte list"
  cons_r :: u32
  cons_w :: u32
  uart_out :: "byte list"
  uart_in :: "u32 list"
  uart_icr :: u32

definition pl011_uart_send_char :: "byte \<Rightarrow> 'a con_scheme \<Rightarrow> 'a con_scheme" where
  "pl011_uart_send_char c s = s\<lparr>uart_out := uart_out s @ [c]\<rparr>"

fun pl011_uart_send_text :: "byte list \<Rightarrow> 'a con_scheme \<Rightarrow> 'a con_scheme" where
  "pl011_uart_send_text [] s = s"
| "pl011_uart_send_text (c # cs) s =
     (if c = 0 then s
      else pl011_uart_send_text cs
        (pl011_uart_send_char c (if c = 10 then pl011_uart_send_char 13 s else s)))"

definition consputc :: "int \<Rightarrow> 'a con_scheme \<Rightarrow> 'a con_scheme" where
  "consputc c s =
     (if c = BACKSPACE
      then pl011_uart_send_char 8 (pl011_uart_send_char 32 (pl011_uart_send_char 8 s))
      else pl011_uart_send_char (word_of_int c) s)"

text \<open>A negative \<open>n\<close> writes nothing and is returned; \<open>n\<close> is the \<^verbatim>\<open>int\<close> the caller's \<^verbatim>\<open>uint\<close> becomes.\<close>

fun console_write_loop :: "nat \<Rightarrow> nat \<Rightarrow> 'a con_scheme \<Rightarrow> 'a con_scheme" where
  "console_write_loop 0 b s = s"
| "console_write_loop (Suc n) b s = console_write_loop n (Suc b) (consputc (uint (mem s b)) s)"

definition console_write :: "u16 \<Rightarrow> u64 \<Rightarrow> u32 \<Rightarrow> 'a con_scheme \<Rightarrow> (int \<times> 'a con_scheme) result" where
  "console_write minor buf n s = Inr (sint n, console_write_loop (nat (sint n)) (unat buf) s)"

text \<open>
  The loop of \<^verbatim>\<open>console_read\<close>: \<open>k\<close> iterations are left, \<open>i\<close> is the loop variable. It stops at a 0
  in the ring at index \<open>i\<close>, not at the read position; \<open>i\<close> may run past the ring.
\<close>

fun console_read_loop :: "nat \<Rightarrow> nat \<Rightarrow> nat \<Rightarrow> 'a con_scheme \<Rightarrow> 'a con_scheme result" where
  "console_read_loop 0 i dst s = Inr s"
| "console_read_loop (Suc k) i dst s =
     (if INPUT_BUF_SIZE \<le> i then Inl OutOfBounds
      else if cons_buf s ! i = 0 then Inr s
      else let c = cons_buf s ! (unat (cons_r s) mod INPUT_BUF_SIZE);
             s1 = s\<lparr>mem := (mem s)(dst := c), cons_r := cons_r s + 1\<rparr>;
             s2 = consputc (uint c) s1;
             s3 = (if of_nat INPUT_BUF_SIZE < cons_r s2 then s2\<lparr>cons_r := 0\<rparr> else s2)
        in console_read_loop k (Suc i) (Suc dst) s3)"

definition console_read :: "u16 \<Rightarrow> u64 \<Rightarrow> u32 \<Rightarrow> 'a con_scheme \<Rightarrow> (int \<times> 'a con_scheme) result" where
  "console_read minor dst n s =
     (if cons_r s = cons_w s then Inl Sleeps
      else bindR (console_read_loop (nat (sint n)) 0 (unat dst) s) (\<lambda>s1. Inr (sint n, s1)))"

definition consoleintr :: "byte \<Rightarrow> 'a con_scheme \<Rightarrow> 'a con_scheme" where
  "consoleintr c s =
     (let s1 = s\<lparr>cons_buf := (cons_buf s)[unat (cons_w s) mod INPUT_BUF_SIZE := c], cons_w := cons_w s + 1\<rparr>
      in if c = 10 \<or> c = 13 then wakeup ChanConsR s1 else s1)"

definition pl011_uart_get_char :: "'a con_scheme \<Rightarrow> int \<times> 'a con_scheme" where
  "pl011_uart_get_char s =
     (case uart_in s of
        [] \<Rightarrow> (- 1, s)
      | r # rs \<Rightarrow> (if r = 13 then 10 else sint r, s\<lparr>uart_in := rs\<rparr>))"

function pl011_uart_intr_loop :: "'a con_scheme \<Rightarrow> 'a con_scheme" where
  "pl011_uart_intr_loop s =
     (case pl011_uart_get_char s of (c, s1) \<Rightarrow>
        if c = - 1 then s1 else pl011_uart_intr_loop (consoleintr (word_of_int c) s1))"
  by pat_completeness auto
termination
  by (relation "measure (\<lambda>s. length (uart_in s))")
    (auto simp: pl011_uart_get_char_def consoleintr_def wakeup_def Let_def split: list.splits if_splits)

declare pl011_uart_intr_loop.simps [simp del]

definition pl011_uart_intr :: "'a con_scheme \<Rightarrow> 'a con_scheme" where
  "pl011_uart_intr s = (let s1 = pl011_uart_intr_loop s in s1\<lparr>uart_icr := uart_icr s1 OR push_bit 4 1\<rparr>)"

text \<open>The device switch after \<^verbatim>\<open>consoleinit\<close>.\<close>

definition devsw :: "'a con_scheme devsw_ops list" where
  "devsw = (replicate NDEV \<lparr>d_read = None, d_write = None\<rparr>)[1 := \<lparr>d_read = Some console_read, d_write = Some console_write\<rparr>]"

section \<open>Typing and reading\<close>

definition type_keys :: "byte list \<Rightarrow> 'a con_scheme \<Rightarrow> 'a con_scheme" where
  "type_keys cs s = fold consoleintr cs s"

lemma consoleintr_simps [simp]:
  "cons_w (consoleintr c s) = cons_w s + 1" "cons_r (consoleintr c s) = cons_r s"
  "mem (consoleintr c s) = mem s" "uart_out (consoleintr c s) = uart_out s"
  "cons_buf (consoleintr c s) = (cons_buf s)[unat (cons_w s) mod INPUT_BUF_SIZE := c]"
  by (simp_all add: consoleintr_def Let_def wakeup_def)

lemma type_keys_simps [simp]:
  "cons_w (type_keys cs s) = cons_w s + of_nat (length cs)" "cons_r (type_keys cs s) = cons_r s"
  "mem (type_keys cs s) = mem s" "uart_out (type_keys cs s) = uart_out s"
  "length (cons_buf (type_keys cs s)) = length (cons_buf s)"
  by (induction cs arbitrary: s) (simp_all add: type_keys_def)


lemma consputc_simps [simp]:
  "mem (consputc c s) = mem s" "cons_r (consputc c s) = cons_r s" "cons_w (consputc c s) = cons_w s"
  "cons_buf (consputc c s) = cons_buf s"
  by (simp_all add: consputc_def pl011_uart_send_char_def)



section \<open>Properties\<close>

text \<open>
  A console at position \<open>x\<close> of its ring: everything typed so far, \<open>x\<close> keys, has been read. That is how the console
  starts, with \<open>x = 0\<close>.
\<close>

definition cons_at :: "nat \<Rightarrow> 'a con_scheme \<Rightarrow> bool" where
  "cons_at x s \<longleftrightarrow> length (cons_buf s) = INPUT_BUF_SIZE \<and> unat (cons_r s) = x \<and> cons_w s = cons_r s \<and>
     (\<forall>j < x. cons_buf s ! j \<noteq> 0)"




text \<open>
  At the end of the ring the read position goes wrong: it is set to 0 one key too late. With 127 keys
  read and three more typed, the reader gets the second of them twice and the third not at all.
\<close>

lemma console_read_repeats:
  assumes "cons_at 127 s" and "a \<noteq> 0" and "b \<noteq> 0" and "c \<noteq> 0"
  shows "\<exists>s'. console_read minor dst 3 (type_keys [a, b, c] s) = Inr (3, s') \<and>
    mem s' (unat dst) = a \<and> mem s' (unat dst + 1) = b \<and> mem s' (unat dst + 2) = b"
proof -
  have at: "length (cons_buf s) = 128" "cons_r s = 127" "cons_w s = 127" "cons_buf s ! 2 \<noteq> 0"
    using assms(1) word_unat_eq_iff [of "cons_r s" 127] by (auto simp: cons_at_def)
  let ?t = "type_keys [a, b, c] s"
  have t: "cons_buf ?t = (cons_buf s)[127 := a, 0 := b, Suc 0 := c]" "cons_r ?t = 127" "cons_w ?t = 130"
    using at by (simp_all add: type_keys_def)
  have two: "cons_buf s ! Suc (Suc 0) \<noteq> 0" using at(4) by (simp add: numeral_2_eq_2)
  have "\<exists>s'. console_read_loop (Suc (Suc (Suc 0))) 0 (unat dst) ?t = Inr s' \<and>
      mem s' (unat dst) = a \<and> mem s' (Suc (unat dst)) = b \<and> mem s' (Suc (Suc (unat dst))) = b"
    using at(1-3) two assms(2-4) t by (simp add: Let_def)
  then obtain s' where s': "console_read_loop (Suc (Suc (Suc 0))) 0 (unat dst) ?t = Inr s'"
      "mem s' (unat dst) = a" "mem s' (Suc (unat dst)) = b" "mem s' (Suc (Suc (unat dst))) = b" by blast
  have "nat (sint (3 :: u32)) = Suc (Suc (Suc 0))" "sint (3 :: u32) = 3" by simp_all
  then have "console_read minor dst 3 ?t = Inr (3, s')"
    using s'(1) t(2,3) by (simp only: console_read_def bindR.simps if_False) simp
  then show ?thesis using s'(2-4) by (intro exI [of _ s']) simp
qed

end
