(* ===== verification/Pipe.thy ===== *)
theory Pipe
  imports Proc
begin

text \<open>
  Pipes, \<^verbatim>\<open>kernel/pipe.c\<close>. A \<^verbatim>\<open>struct pipe\<close> lies at the start of a page of the allocator; the
  fields are read and written at their offsets. The page is not cleared when it is allocated, so
  \<^verbatim>\<open>readp\<close> and \<^verbatim>\<open>writep\<close> start with whatever the page held. \<^verbatim>\<open>pipe_alloc\<close> is in \<open>Fd\<close>.
\<close>

section \<open>Operations\<close>

abbreviation (input) PIPESIZE :: nat where "PIPESIZE \<equiv> 512"

definition p_readopen :: "u64 \<Rightarrow> nat" where "p_readopen p = unat p"
definition p_writeopen :: "u64 \<Rightarrow> nat" where "p_writeopen p = unat p + 4"
definition p_readp :: "u64 \<Rightarrow> nat" where "p_readp p = unat p + 8"
definition p_writep :: "u64 \<Rightarrow> nat" where "p_writep p = unat p + 12"
definition p_data :: "u64 \<Rightarrow> nat" where "p_data p = unat p + 16"

lemmas pipe_offs = p_readopen_def p_writeopen_def p_readp_def p_writep_def p_data_def

text \<open>
  \<^verbatim>\<open>pipe_write\<close> takes the bytes it writes from its own parameter \<open>addr\<close> (\<^verbatim>\<open>s = (char*)&addr\<close>), which
  has eight; \<open>i\<close> is the loop variable, \<open>k\<close> the number of iterations left.
\<close>

fun pipe_write_loop :: "nat \<Rightarrow> nat \<Rightarrow> u64 \<Rightarrow> u64 \<Rightarrow> 'a pmem_scheme \<Rightarrow> 'a pmem_scheme result" where
  "pipe_write_loop 0 i p addr s = Inr s"
| "pipe_write_loop (Suc k) i p addr s =
     (let w = load32 (mem s) (p_writep p) in
      if 8 \<le> i \<or> PIPESIZE \<le> unat w then Inl OutOfBounds
      else let m = (mem s)(p_data p + unat w := ucast (drop_bit (8 * i) addr))
        in pipe_write_loop k (Suc i) p addr (s\<lparr>mem := store32 m (p_writep p) (w + 1)\<rparr>))"

definition pipe_write :: "u64 \<Rightarrow> u64 \<Rightarrow> int \<Rightarrow> 'a pmem_scheme \<Rightarrow> (int \<times> 'a pmem_scheme) result" where
  "pipe_write p addr n s = bindR (pipe_write_loop (nat n) 0 p addr s) (\<lambda>s1. Inr (0, s1))"

fun pipe_read_loop :: "nat \<Rightarrow> nat \<Rightarrow> u64 \<Rightarrow> u64 \<Rightarrow> 'a pmem_scheme \<Rightarrow> 'a pmem_scheme result" where
  "pipe_read_loop 0 i p buf s = Inr s"
| "pipe_read_loop (Suc k) i p buf s =
     (let r = load32 (mem s) (p_readp p) in
      if PIPESIZE \<le> unat r then Inl OutOfBounds
      else let m = (mem s)(unat buf + i := mem s (p_data p + unat r))
        in pipe_read_loop k (Suc i) p buf (s\<lparr>mem := store32 m (p_readp p) (load32 m (p_readp p) + 1)\<rparr>))"

definition pipe_read :: "u64 \<Rightarrow> u64 \<Rightarrow> int \<Rightarrow> 'a pmem_scheme \<Rightarrow> (int \<times> 'a pmem_scheme) result" where
  "pipe_read p buf n s = bindR (pipe_read_loop (nat n) 0 p buf s) (\<lambda>s1. Inr (- 1, s1))"

definition pipe_close :: "u64 \<Rightarrow> u64 \<Rightarrow> bool \<Rightarrow> 'a pst_scheme \<Rightarrow> 'a pst_scheme result" where
  "pipe_close kend p writeable s =
     (let s1 = (if writeable
          then wakeup (ChanReadp p) (s\<lparr>mem := store32 (mem s) (p_writeopen p) 0\<rparr>)
          else wakeup (ChanWritep p) (s\<lparr>mem := store32 (mem s) (p_readopen p) 0\<rparr>))
      in if load32 (mem s1) (p_readopen p) = 0 \<and> load32 (mem s1) (p_writeopen p) = 0 then kfree kend p s1
         else Inr s1)"

section \<open>Lifetime of the page\<close>

lemma kmem_inv_wakeup [simp]: "kmem_inv kend (wakeup ch s) xs = kmem_inv kend s xs"
  by (simp add: wakeup_def kmem_inv_def)

lemma mem_wakeup [simp]: "mem (wakeup ch s) = mem s" "freelist (wakeup ch s) = freelist s"
  by (simp_all add: wakeup_def)

lemma kmem_inv_pipe:
  assumes "kmem_inv kend s xs" and "page_ok kend p" and "p \<notin> set xs" and "j \<le> 4092"
  shows "kmem_inv kend (s\<lparr>mem := store32 (mem s) (unat p + j) v\<rparr>) xs"
  using assms(1-3) by (rule kmem_inv_frame) (use assms(4) in \<open>auto simp: store32_other\<close>)

definition pipe_open :: "u64 \<Rightarrow> 'a pmem_scheme \<Rightarrow> bool \<Rightarrow> bool \<Rightarrow> bool" where
  "pipe_open p s r w \<longleftrightarrow> load32 (mem s) (p_readopen p) = (if r then 1 else 0) \<and>
     load32 (mem s) (p_writeopen p) = (if w then 1 else 0)"

lemma pipe_close_one:
  assumes "kmem_inv kend s xs" and "page_ok kend p" and "p \<notin> set xs" and "pipe_open p s True True"
  shows "\<exists>s1. pipe_close kend p w s = Inr s1 \<and> kmem_inv kend s1 xs \<and> pipe_open p s1 w (\<not> w)"
  using assms(4) kmem_inv_pipe [OF assms(1-3), of 0 0] kmem_inv_pipe [OF assms(1-3), of 4 0]
  by (cases w) (simp_all add: pipe_close_def pipe_open_def pipe_offs load_simps)

lemma pipe_close_last:
  assumes "kmem_inv kend s xs" and "page_ok kend p" and "p \<notin> set xs" and "pipe_open p s (\<not> w) w"
  shows "\<exists>s1. pipe_close kend p w s = Inr s1 \<and> kmem_inv kend s1 (p # xs)"
proof (cases w)
  case True
  then show ?thesis
    using assms(4) kfree_pages [of kend "wakeup (ChanReadp p) (s\<lparr>mem := store32 (mem s) (unat p + 4) 0\<rparr>)" xs p]
      kmem_inv_pipe [OF assms(1-3), of 4 0] assms(2,3)
    by (simp add: pipe_close_def pipe_open_def pipe_offs load_simps)
next
  case False
  then show ?thesis
    using assms(4) kfree_pages [of kend "wakeup (ChanWritep p) (s\<lparr>mem := store32 (mem s) (unat p) 0\<rparr>)" xs p]
      kmem_inv_pipe [OF assms(1-3), of 0 0] assms(2,3)
    by (simp add: pipe_close_def pipe_open_def pipe_offs load_simps)
qed

section \<open>Data\<close>

lemma unat_Suc32: "unat (w :: u32) < 512 \<Longrightarrow> unat (w + 1) = unat w + 1"
  by (simp add: unat_word_ariths)

lemma pipe_write_loop_bytes:
  "i + k \<le> 8 \<Longrightarrow> unat (load32 (mem s) (p_writep p)) = w \<Longrightarrow> w + k \<le> PIPESIZE \<Longrightarrow>
   \<exists>s'. pipe_write_loop k i p addr s = Inr s' \<and> unat (load32 (mem s') (p_writep p)) = w + k \<and>
     (\<forall>a. a < p_writep p \<or> p_data p \<le> a \<longrightarrow> mem s' a =
        (if p_data p + w \<le> a \<and> a < p_data p + w + k then ucast (drop_bit (8 * (i + (a - (p_data p + w)))) addr) else mem s a))"
proof (induction k arbitrary: i s w)
  case (Suc k)
  let ?w = "load32 (mem s) (p_writep p)"
  let ?m = "(mem s)(p_data p + w := ucast (drop_bit (8 * i) addr) :: byte)"
  let ?s1 = "s\<lparr>mem := store32 ?m (p_writep p) (?w + 1)\<rparr>"
  have step: "pipe_write_loop (Suc k) i p addr s = pipe_write_loop k (Suc i) p addr ?s1"
    using Suc.prems by (simp add: Let_def)
  have w: "unat (load32 (mem ?s1) (p_writep p)) = Suc w" using Suc.prems by (simp add: unat_Suc32)
  have "\<exists>s'. pipe_write_loop k (Suc i) p addr ?s1 = Inr s' \<and> unat (load32 (mem s') (p_writep p)) = Suc w + k \<and>
     (\<forall>a. a < p_writep p \<or> p_data p \<le> a \<longrightarrow> mem s' a =
        (if p_data p + Suc w \<le> a \<and> a < p_data p + Suc w + k
         then ucast (drop_bit (8 * (Suc i + (a - (p_data p + Suc w)))) addr) else mem ?s1 a))"
    using Suc.prems w by (intro Suc.IH) simp_all
  then obtain s' where s': "pipe_write_loop k (Suc i) p addr ?s1 = Inr s'"
    "unat (load32 (mem s') (p_writep p)) = w + Suc k"
    "\<And>a. a < p_writep p \<or> p_data p \<le> a \<Longrightarrow> mem s' a =
        (if p_data p + Suc w \<le> a \<and> a < p_data p + Suc w + k
         then ucast (drop_bit (8 * (Suc i + (a - (p_data p + Suc w)))) addr) else mem ?s1 a)"
    by auto
  have "mem s' a = (if p_data p + w \<le> a \<and> a < p_data p + w + Suc k
      then ucast (drop_bit (8 * (i + (a - (p_data p + w)))) addr) else mem s a)"
    if a: "a < p_writep p \<or> p_data p \<le> a" for a
  proof (cases "p_data p + w < a")
    case True
    then have "Suc i + (a - (p_data p + Suc w)) = i + (a - (p_data p + w))" by arith
    with True show ?thesis using s'(3) [OF a] a by (simp add: pipe_offs store32_other)
  next
    case False
    then show ?thesis using s'(3) [OF a] a by (auto simp: pipe_offs store32_other)
  qed
  with s'(1,2) step show ?case by auto
qed auto

lemma pipe_read_loop_bytes:
  "unat (load32 (mem s) (p_readp p)) = r \<Longrightarrow> r + k \<le> PIPESIZE \<Longrightarrow>
   unat buf + i + k \<le> unat p \<or> p_data p + PIPESIZE \<le> unat buf + i \<Longrightarrow>
   \<exists>s'. pipe_read_loop k i p buf s = Inr s' \<and> unat (load32 (mem s') (p_readp p)) = r + k \<and>
     (\<forall>j < k. mem s' (unat buf + i + j) = mem s (p_data p + r + j)) \<and>
     (\<forall>a. (a < unat buf + i \<or> unat buf + i + k \<le> a) \<longrightarrow> (a < p_readp p \<or> p_writep p \<le> a) \<longrightarrow> mem s' a = mem s a)"
proof (induction k arbitrary: i s r)
  case (Suc k)
  let ?r = "load32 (mem s) (p_readp p)"
  let ?m = "(mem s)(unat buf + i := mem s (p_data p + r))"
  let ?s1 = "s\<lparr>mem := store32 ?m (p_readp p) (?r + 1)\<rparr>"
  have m: "load32 ?m (p_readp p) = ?r"
    using Suc.prems by (intro load32_cong) (auto simp: pipe_offs)
  have step: "pipe_read_loop (Suc k) i p buf s = pipe_read_loop k (Suc i) p buf ?s1"
    using Suc.prems m by (simp add: Let_def)
  have r: "unat (load32 (mem ?s1) (p_readp p)) = Suc r" using Suc.prems by (simp add: unat_Suc32)
  have "\<exists>s'. pipe_read_loop k (Suc i) p buf ?s1 = Inr s' \<and> unat (load32 (mem s') (p_readp p)) = Suc r + k \<and>
     (\<forall>j < k. mem s' (unat buf + Suc i + j) = mem ?s1 (p_data p + Suc r + j)) \<and>
     (\<forall>a. (a < unat buf + Suc i \<or> unat buf + Suc i + k \<le> a) \<longrightarrow> (a < p_readp p \<or> p_writep p \<le> a) \<longrightarrow> mem s' a = mem ?s1 a)"
    using Suc.prems r by (intro Suc.IH) auto
  then obtain s' where s': "pipe_read_loop k (Suc i) p buf ?s1 = Inr s'"
    "unat (load32 (mem s') (p_readp p)) = r + Suc k"
    "\<And>j. j < k \<Longrightarrow> mem s' (unat buf + Suc i + j) = mem ?s1 (p_data p + Suc r + j)"
    "\<And>a. (a < unat buf + Suc i \<or> unat buf + Suc i + k \<le> a) \<Longrightarrow> (a < p_readp p \<or> p_writep p \<le> a) \<Longrightarrow>
       mem s' a = mem ?s1 a"
    by auto
  have far: "unat buf + i < p_readp p \<or> p_writep p \<le> unat buf + i"
    using Suc.prems(3) by (auto simp: pipe_offs)
  have "mem s' (unat buf + i + j) = mem s (p_data p + r + j)" if "j < Suc k" for j
  proof (cases j)
    case 0
    then show ?thesis
      using s'(4) [of "unat buf + i"] far by (auto simp: store32_other pipe_offs)
  next
    case (Suc l)
    then have "mem s' (unat buf + i + j) = mem ?s1 (p_data p + r + j)" using s'(3) [of l] that by simp
    also have "\<dots> = mem s (p_data p + r + j)"
      using Suc.prems that by (auto simp: store32_other pipe_offs)
    finally show ?thesis .
  qed
  moreover have "mem s' a = mem s a"
    if "a < unat buf + i \<or> unat buf + i + Suc k \<le> a" "a < p_readp p \<or> p_writep p \<le> a" for a
    using s'(4) [of a] that by (auto simp: store32_other pipe_offs)
  ultimately show ?case using step s'(1,2) by auto
qed auto

section \<open>Properties\<close>

text \<open>
  C28. The page of a pipe is freed exactly when the second end is closed, whichever end is closed
  first: after the first close the free list is as before, after the second the page is on it.
\<close>

theorem pipe_close_frees_once:
  assumes "kmem_inv kend s xs" and "page_ok kend p" and "p \<notin> set xs" and "pipe_open p s True True"
  shows "\<exists>s1 s2. pipe_close kend p w s = Inr s1 \<and> kmem_inv kend s1 xs \<and>
    pipe_close kend p (\<not> w) s1 = Inr s2 \<and> kmem_inv kend s2 (p # xs)"
proof -
  obtain s1 where s1: "pipe_close kend p w s = Inr s1" "kmem_inv kend s1 xs" "pipe_open p s1 w (\<not> w)"
    using pipe_close_one [OF assms] by blast
  then show ?thesis using pipe_close_last [OF s1(2) assms(2,3), of "\<not> w"] by auto
qed

definition demo_pipe :: pst where
  "demo_pipe = (demo_pst 2)\<lparr>mem := store32 (store32 (mem (demo_pst 2)) 0x8002000 1) 0x8002004 1\<rparr>"

theorem pipe_close_frees_once_witness:
  "\<exists>s1 s2. pipe_close 0x7000000 0x8002000 True demo_pipe = Inr s1 \<and> kmem_inv 0x7000000 s1 (free_pages 2) \<and>
    pipe_close 0x7000000 0x8002000 (\<not> True) s1 = Inr s2 \<and> kmem_inv 0x7000000 s2 (0x8002000 # free_pages 2)"
proof (rule pipe_close_frees_once)
  show ok: "page_ok 0x7000000 0x8002000" by (simp add: page_ok_def)
  show new: "0x8002000 \<notin> set (free_pages 2)" using free_page_new [of 2] by simp
  show "kmem_inv 0x7000000 demo_pipe (free_pages 2)"
    using kmem_inv_pipe [OF kmem_inv_pipe [OF demo_pst_inv(1) ok new, of 0 1] ok new, of 4 1]
    by (simp add: demo_pipe_def)
  show "pipe_open 0x8002000 demo_pipe True True" by (simp add: pipe_open_def pipe_offs demo_pipe_def load_simps)
qed

text \<open>
  C29. What a pipe carries. \<^verbatim>\<open>pipe_write\<close> of up to eight bytes followed by \<^verbatim>\<open>pipe_read\<close> of the same
  number, into a buffer outside the pipe, delivers the bytes of the writer's buffer address
  itself, not the bytes at that address; the write returns 0 and the read \<open>- 1\<close>.
\<close>

theorem pipe_carries_the_pointer:
  assumes "n \<le> 8" and "load32 (mem s) (p_readp p) = load32 (mem s) (p_writep p)"
    and "unat (load32 (mem s) (p_writep p)) + n \<le> PIPESIZE"
    and "unat buf + n \<le> unat p \<or> p_data p + PIPESIZE \<le> unat buf"
  shows "\<exists>s1 s2. pipe_write p addr (int n) s = Inr (0, s1) \<and> pipe_read p buf (int n) s1 = Inr (- 1, s2) \<and>
    (\<forall>j < n. mem s2 (unat buf + j) = ucast (drop_bit (8 * j) addr))"
proof -
  let ?w = "unat (load32 (mem s) (p_writep p))"
  obtain s1 where s1: "pipe_write_loop n 0 p addr s = Inr s1"
    "\<And>a. a < p_writep p \<or> p_data p \<le> a \<Longrightarrow> mem s1 a =
        (if p_data p + ?w \<le> a \<and> a < p_data p + ?w + n then ucast (drop_bit (8 * (0 + (a - (p_data p + ?w)))) addr) else mem s a)"
    using pipe_write_loop_bytes [of 0 n s p ?w addr] assms by auto
  have "load32 (mem s1) (p_readp p) = load32 (mem s) (p_readp p)"
    using s1(2) by (intro load32_cong) (auto simp: pipe_offs)
  then have "unat (load32 (mem s1) (p_readp p)) = ?w" using assms(2) by simp
  then obtain s2 where s2: "pipe_read_loop n 0 p buf s1 = Inr s2"
    "\<And>j. j < n \<Longrightarrow> mem s2 (unat buf + 0 + j) = mem s1 (p_data p + ?w + j)"
    using pipe_read_loop_bytes [of s1 p ?w n buf 0] assms by auto
  have "mem s2 (unat buf + j) = ucast (drop_bit (8 * j) addr)" if "j < n" for j
    using s2(2) [OF that] s1(2) [of "p_data p + ?w + j"] that by simp
  with s1(1) s2(1) show ?thesis by (auto simp: pipe_write_def pipe_read_def)
qed

theorem pipe_carries_the_pointer_witness:
  "\<exists>s1 s2. pipe_write 0x8002000 0x1234 (int 2) demo_pmem = Inr (0, s1) \<and>
    pipe_read 0x8002000 0x9000 (int 2) s1 = Inr (- 1, s2) \<and>
    (\<forall>j < 2. mem s2 (unat (0x9000 :: u64) + j) = ucast (drop_bit (8 * j) (0x1234 :: u64)))"
proof -
  have "load32 demo_mem (0x8002000 + 8) = 0" "load32 demo_mem (0x8002000 + 12) = 0"
    by (simp_all add: demo_mem_def load_simps)
  then show ?thesis
    by (intro pipe_carries_the_pointer) (simp_all add: demo_pmem_def pipe_offs)
qed

end
