(* ===== verification/Fd.thy ===== *)
theory Fd
  imports Console Pipe
begin

text \<open>
  Open files, \<^verbatim>\<open>kernel/fd.c\<close> and \<^verbatim>\<open>kernel/file.c\<close>, and \<^verbatim>\<open>pipe_alloc\<close> of \<^verbatim>\<open>kernel/pipe.c\<close>. The
  state \<open>fdt\<close> adds the table \<^verbatim>\<open>fds[NFD]\<close>; a \<^verbatim>\<open>struct fd*\<close> is the index of an entry, and \<open>None\<close>
  the null pointer.
\<close>

section \<open>State and operations\<close>

abbreviation (input) NFD :: nat where "NFD \<equiv> 100"

datatype fdtype = FD_CLOSE | FD_NONE | FD_PIPE | FD_FILE

record fd =
  fd_type :: fdtype
  fd_ref :: u32
  fd_readable :: bool
  fd_writeable :: bool
  fd_pipe :: u64
  fd_ip :: nat
  fd_off :: u32

record fdt = con +
  fds :: "fd list"

definition upd_fd :: "nat \<Rightarrow> (fd \<Rightarrow> fd) \<Rightarrow> 'a fdt_scheme \<Rightarrow> 'a fdt_scheme" where
  "upd_fd i f s = s\<lparr>fds := (fds s)[i := f (fds s ! i)]\<rparr>"

text \<open>The first free slot of the calling process; \<^verbatim>\<open>FD_CLOSE\<close> is 0, the null pointer.\<close>

definition fd_ualloc :: "nat \<Rightarrow> 'a pst_scheme \<Rightarrow> int result" where
  "fd_ualloc c s =
     (case myproc c s of None \<Rightarrow> Inl NullDeref
      | Some p \<Rightarrow> Inr (case first_index (\<lambda>f. f = None) 0 (p_fds (procs s ! p)) of Some fd \<Rightarrow> int fd | None \<Rightarrow> - 1))"

definition fd_alloc :: "'a fdt_scheme \<Rightarrow> nat option \<times> 'a fdt_scheme" where
  "fd_alloc s =
     (case first_index (\<lambda>f. fd_type f = FD_CLOSE) 0 (fds s) of
        Some i \<Rightarrow> (Some i, upd_fd i (\<lambda>f. f\<lparr>fd_type := FD_NONE, fd_ref := 1\<rparr>) s)
      | None \<Rightarrow> (None, s))"

definition fd_write :: "nat \<Rightarrow> u64 \<Rightarrow> int \<Rightarrow> 'a fdt_scheme \<Rightarrow> (int \<times> 'a fdt_scheme) result" where
  "fd_write fd addr n s =
     (let f = fds s ! fd in
      if \<not> fd_writeable f then Inr (- 1, s)
      else if fd_type f = FD_PIPE then pipe_write (fd_pipe f) addr n s
      else if fd_type f = FD_FILE then
        bindR (writei devsw (fd_ip f) addr (fd_off f) (word_of_int n) s) (\<lambda>(r, s1).
          Inr (r, if 0 < r then upd_fd fd (\<lambda>f. f\<lparr>fd_off := fd_off f + word_of_int r\<rparr>) s1 else s1))
      else Inl (Panic ''fd_write''))"

definition fd_read :: "nat \<Rightarrow> u64 \<Rightarrow> int \<Rightarrow> 'a fdt_scheme \<Rightarrow> (int \<times> 'a fdt_scheme) result" where
  "fd_read fd buf n s =
     (let f = fds s ! fd in
      if \<not> fd_readable f then Inr (- 1, s)
      else if fd_type f = FD_PIPE then pipe_read (fd_pipe f) buf n s
      else if fd_type f = FD_FILE then
        bindR (readi devsw (fd_ip f) buf (fd_off f) (word_of_int n) s) (\<lambda>(cc, s1).
          Inr (cc, if 0 < cc then upd_fd fd (\<lambda>f. f\<lparr>fd_off := fd_off f + word_of_int cc\<rparr>) s1 else s1))
      else Inr (- 1, s))"

definition file_close :: "nat \<Rightarrow> 'a fs_scheme \<Rightarrow> 'a fs_scheme" where
  "file_close ip s = iput ip s"

text \<open>The entry is marked closed whether or not references are left.\<close>

definition fd_close :: "u64 \<Rightarrow> nat \<Rightarrow> 'a fdt_scheme \<Rightarrow> 'a fdt_scheme result" where
  "fd_close kend fd s =
     (let s1 = upd_fd fd (\<lambda>f. f\<lparr>fd_ref := fd_ref f - 1\<rparr>) s; f = fds s1 ! fd in
      bindR (if fd_ref f = 0 \<and> fd_type f = FD_PIPE then pipe_close kend (fd_pipe f) (fd_writeable f) s1 else Inr s1) (\<lambda>s2.
      let s3 = (if fd_ref f = 0 \<and> fd_type f = FD_FILE then file_close (fd_ip f) s2 else s2)
      in Inr (upd_fd fd (\<lambda>f. f\<lparr>fd_type := FD_CLOSE\<rparr>) s3)))"

definition fd_incref :: "nat \<Rightarrow> 'a fdt_scheme \<Rightarrow> 'a fdt_scheme" where
  "fd_incref fd s = upd_fd fd (\<lambda>f. f\<lparr>fd_ref := fd_ref f + 1\<rparr>) s"

text \<open>\<^verbatim>\<open>pipe_alloc\<close> returns its result and the two descriptors it stores through its arguments.\<close>

definition pipe_alloc :: "'a fdt_scheme \<Rightarrow> ((int \<times> nat option \<times> nat option) \<times> 'a fdt_scheme) result" where
  "pipe_alloc s =
     (case fd_alloc s of
        (None, s1) \<Rightarrow> Inr ((- 1, None, None), s1)
      | (Some f1, s1) \<Rightarrow>
          (case fd_alloc s1 of
             (None, s2) \<Rightarrow> Inr ((- 1, Some f1, None), s2)
           | (Some f2, s2) \<Rightarrow>
               (case kalloc s2 of (p, s3) \<Rightarrow>
                 if p = 0 then Inl NullDeref
                 else let s4 = s3\<lparr>mem := store32 (store32 (mem s3) (p_readopen p) 1) (p_writeopen p) 1\<rparr>;
                   s5 = upd_fd f1 (\<lambda>f. f\<lparr>fd_type := FD_PIPE, fd_readable := True, fd_writeable := False, fd_pipe := p\<rparr>) s4;
                   s6 = upd_fd f2 (\<lambda>f. f\<lparr>fd_type := FD_PIPE, fd_readable := False, fd_writeable := True, fd_pipe := p\<rparr>) s5
                   in Inr ((0, Some f1, Some f2), s6))))"

section \<open>Properties\<close>

lemma fd_alloc_Some:
  "fd_alloc s = (Some i, s') \<longleftrightarrow> i < length (fds s) \<and> fd_type (fds s ! i) = FD_CLOSE \<and>
     (\<forall>j < i. fd_type (fds s ! j) \<noteq> FD_CLOSE) \<and> s' = upd_fd i (\<lambda>f. f\<lparr>fd_type := FD_NONE, fd_ref := 1\<rparr>) s"
proof -
  have "first_index (\<lambda>f. fd_type f = FD_CLOSE) 0 (fds s) = Some i \<longleftrightarrow>
      i < length (fds s) \<and> fd_type (fds s ! i) = FD_CLOSE \<and> (\<forall>j < i. fd_type (fds s ! j) \<noteq> FD_CLOSE)"
    by (simp add: first_index_Some)
  then show ?thesis by (auto simp: fd_alloc_def split: option.splits)
qed

lemma upd_fd_simps [simp]:
  "mem (upd_fd i f s) = mem s" "freelist (upd_fd i f s) = freelist s"
  "fds (upd_fd i f s) = (fds s)[i := f (fds s ! i)]" "procs (upd_fd i f s) = procs s"
  "kmem_inv kend (upd_fd i f s) xs = kmem_inv kend s xs"
  by (simp_all add: upd_fd_def kmem_inv_def)

lemma fds_more: "pmem.more (s' :: 'a fdt_scheme) = pmem.more s \<Longrightarrow> fds s' = fds s"
  by (cases s; cases s') simp

text \<open>
  A new pipe: with two closed entries in the table and a free page, \<^verbatim>\<open>pipe_alloc\<close> returns 0 and
  two different descriptors for one pipe, the first for reading only, the second for writing only,
  on a page taken from the free list, with both ends open; all other descriptors are unchanged.
\<close>

theorem pipe_alloc_ends:
  assumes "i < j" and "j < length (fds s)" and "fd_type (fds s ! i) = FD_CLOSE" and "fd_type (fds s ! j) = FD_CLOSE"
    and "\<forall>k < j. k \<noteq> i \<longrightarrow> fd_type (fds s ! k) \<noteq> FD_CLOSE" and "kmem_inv kend s (p # xs)"
  shows "\<exists>s'. pipe_alloc s = Inr ((0, Some i, Some j), s') \<and>
    fds s' ! i = (fds s ! i)\<lparr>fd_type := FD_PIPE, fd_ref := 1, fd_readable := True, fd_writeable := False, fd_pipe := p\<rparr> \<and>
    fds s' ! j = (fds s ! j)\<lparr>fd_type := FD_PIPE, fd_ref := 1, fd_readable := False, fd_writeable := True, fd_pipe := p\<rparr> \<and>
    (\<forall>k < length (fds s). k \<noteq> i \<longrightarrow> k \<noteq> j \<longrightarrow> fds s' ! k = fds s ! k) \<and>
    kmem_inv kend s' xs \<and> pipe_open p s' True True"
proof -
  let ?s1 = "upd_fd i (\<lambda>f. f\<lparr>fd_type := FD_NONE, fd_ref := 1\<rparr>) s"
  let ?s2 = "upd_fd j (\<lambda>f. f\<lparr>fd_type := FD_NONE, fd_ref := 1\<rparr>) ?s1"
  have p: "page_ok kend p" "p \<notin> set xs" "p \<noteq> 0" using assms(6) by (auto simp: kmem_inv_def page_ok_def)
  have a1: "fd_alloc s = (Some i, ?s1)" using assms by (auto simp: fd_alloc_Some)
  have a2: "fd_alloc ?s1 = (Some j, ?s2)" using assms by (auto simp: fd_alloc_Some nth_list_update)
  have "kmem_inv kend ?s2 (p # xs)" using assms(6) by simp
  then obtain s3 where s3: "kalloc ?s2 = (p, s3)" "kmem_inv kend s3 xs" "pmem.more s3 = pmem.more ?s2"
    using kalloc_Cons by metis
  have f3: "fds s3 = fds ?s2" using fds_more [OF s3(3)] .
  let ?s4 = "s3\<lparr>mem := store32 (store32 (mem s3) (p_readopen p) 1) (p_writeopen p) 1\<rparr>"
  have k4: "kmem_inv kend ?s4 xs"
    using kmem_inv_pipe [OF kmem_inv_pipe [OF s3(2) p(1,2), of 0 1] p(1,2), of 4 1] by (simp add: pipe_offs)
  have o4: "pipe_open p ?s4 True True" by (simp add: pipe_open_def pipe_offs load_simps)
  show ?thesis
    using a1 a2 s3(1) p(3) k4 o4 f3 assms(1,2)
    by (simp add: pipe_alloc_def Let_def pipe_open_def nth_list_update)
qed

definition closed_fd :: fd where
  "closed_fd = \<lparr>fd_type = FD_CLOSE, fd_ref = 0, fd_readable = False, fd_writeable = False, fd_pipe = 0, fd_ip = 0, fd_off = 0\<rparr>"

definition demo_fdt :: "nat \<Rightarrow> fd list \<Rightarrow> fdt" where
  "demo_fdt n fs = \<lparr>mem = free_mem n, freelist = free_top n, procs = replicate NPROC idle_proc, nextpid = 1,
     cpu_proc = (\<lambda>_. None), initproc = None, bufs = replicate NBUF \<lparr>bflags = 0, bdata = (\<lambda>_. 0)\<rparr>, disk = (\<lambda>_ _. 0),
     inodes = [], cons_buf = replicate 128 0, cons_r = 0, cons_w = 0, uart_out = [], uart_in = [], uart_icr = 0, fds = fs\<rparr>"

lemma demo_fdt_inv: "n \<le> 100 \<Longrightarrow> kmem_inv 0x7000000 (demo_fdt n fs) (free_pages n)"
  using free_mem_inv [of n] by (simp add: demo_fdt_def kmem_inv_def)

theorem pipe_alloc_ends_witness:
  "\<exists>s'. pipe_alloc (demo_fdt 1 [closed_fd, closed_fd]) = Inr ((0, Some 0, Some 1), s') \<and>
     fd_readable (fds s' ! 0) \<and> fd_writeable (fds s' ! 1) \<and> pipe_open 0x8000000 s' True True"
proof -
  let ?s = "demo_fdt 1 [closed_fd, closed_fd]"
  have f: "1 < length (fds ?s)" "fd_type (fds ?s ! 0) = FD_CLOSE" "fd_type (fds ?s ! 1) = FD_CLOSE"
    by (simp_all add: demo_fdt_def closed_fd_def)
  have k: "kmem_inv 0x7000000 (demo_fdt 1 [closed_fd, closed_fd]) (0x8000000 # [])"
    using demo_fdt_inv [of 1] by simp
  show ?thesis
    using pipe_alloc_ends [of 0 1 ?s, OF _ f _ k] by auto
qed

text \<open>
  Closing one of several references frees the entry for all: if a descriptor that is referred
  to more than once (as after a fork) is the first to be closed, \<^verbatim>\<open>fd_close\<close> succeeds, references
  are left, and yet the next \<^verbatim>\<open>fd_alloc\<close> hands out the same entry.
\<close>

theorem fd_close_frees_shared:
  assumes "i < length (fds s)" and "1 < fd_ref (fds s ! i)" and "\<forall>j < i. fd_type (fds s ! j) \<noteq> FD_CLOSE"
  shows "\<exists>s1 s2. fd_close kend i s = Inr s1 \<and> fd_ref (fds s1 ! i) = fd_ref (fds s ! i) - 1 \<and>
    0 < fd_ref (fds s1 ! i) \<and> fd_alloc s1 = (Some i, s2)"
proof -
  let ?s1 = "upd_fd i (\<lambda>f. f\<lparr>fd_type := FD_CLOSE\<rparr>) (upd_fd i (\<lambda>f. f\<lparr>fd_ref := fd_ref f - 1\<rparr>) s)"
  have r: "fd_ref (fds s ! i) \<noteq> 1" using assms(2) by auto
  then have "fd_close kend i s = Inr ?s1" using assms by (simp add: fd_close_def Let_def)
  moreover have "\<exists>s2. fd_alloc ?s1 = (Some i, s2)"
    using assms by (simp add: fd_alloc_Some)
  moreover have "0 < fd_ref (fds s ! i) - 1" using r by (simp add: word_greater_zero_iff)
  ultimately show ?thesis using assms(1) by auto
qed

theorem fd_close_frees_shared_witness:
  "\<exists>s1 s2. fd_close 0x7000000 0 (demo_fdt 0 [closed_fd\<lparr>fd_type := FD_PIPE, fd_ref := 2\<rparr>]) = Inr s1 \<and>
    fd_ref (fds s1 ! 0) = fd_ref (fds (demo_fdt 0 [closed_fd\<lparr>fd_type := FD_PIPE, fd_ref := 2\<rparr>]) ! 0) - 1 \<and>
    0 < fd_ref (fds s1 ! 0) \<and> fd_alloc s1 = (Some 0, s2)"
  by (rule fd_close_frees_shared) (simp_all add: demo_fdt_def)

end
