(* ===== verification/Proc_Life.thy ===== *)
theory Proc_Life
  imports Fd
begin

text \<open>
  The life of a process, \<^verbatim>\<open>kernel/proc.c\<close>: \<^verbatim>\<open>copyproc\<close> (the work of \<^verbatim>\<open>fork\<close>), \<^verbatim>\<open>proc_wait\<close> and
  \<^verbatim>\<open>proc_exit\<close>. Local variables the source reads without having written them are arguments:
  \<open>pid\<close> of \<open>proc_wait\<close> and the start value \<open>fd\<close> of the loop in \<open>proc_exit\<close>.
\<close>

section \<open>Fork\<close>

text \<open>
  One iteration of the loop over the parent's pages, at address \<open>i\<close>. A page that is not mapped is
  skipped; the result of \<^verbatim>\<open>mappages\<close> is ignored.
\<close>

definition copy_page :: "u64 \<Rightarrow> u64 \<Rightarrow> u64 \<Rightarrow> 'a pmem_scheme \<Rightarrow> 'a pmem_scheme result" where
  "copy_page pt npt i s =
     bindR (walk pt i False s) (\<lambda>(pte, s1).
       if pte = 0 then Inr s1
       else let e = load64 (mem s1) (unat pte) in
         if e AND PTE_V = 0 then Inr s1
         else case kalloc s1 of (npa, s2) \<Rightarrow>
           if npa = 0 then Inl NullDeref
           else bindR (mappages npt i npa PGSIZE (PTE_FLAGS e)
               (s2\<lparr>mem := copy_mem 4096 (unat (PTE2PA e)) (unat npa) (mem s2)\<rparr>)) (\<lambda>(_, s3). Inr s3))"

text \<open>The loop: \<open>i\<close> is an \<^verbatim>\<open>int\<close>, compared with a 64-bit bound.\<close>

function copy_pages :: "u64 \<Rightarrow> u64 \<Rightarrow> nat \<Rightarrow> nat \<Rightarrow> 'a pmem_scheme \<Rightarrow> 'a pmem_scheme result" where
  "copy_pages pt npt bound i s =
     (if i < bound
      then bindR (copy_page pt npt (of_nat i) s) (\<lambda>s1.
        if 2 ^ 31 \<le> i + 4096 then Inl Overflow else copy_pages pt npt bound (i + 4096) s1)
      else Inr s)"
  by pat_completeness auto
termination
  by (relation "measure (\<lambda>(pt, npt, bound, i, s). bound - i)") auto

declare copy_pages.simps [simp del]

primrec copy_fds :: "nat list \<Rightarrow> nat \<Rightarrow> nat \<Rightarrow> 'a fdt_scheme \<Rightarrow> 'a fdt_scheme" where
  "copy_fds [] p np s = s"
| "copy_fds (i # is) p np s =
     (let f = p_fds (procs s ! p) ! i;
        s1 = upd_proc np (\<lambda>q. q\<lparr>p_fds := (p_fds q)[i := f]\<rparr>) s
      in copy_fds is p np (case f of None \<Rightarrow> s1 | Some fd \<Rightarrow> fd_incref fd s1))"

definition copyproc :: "u64 \<Rightarrow> u64 \<Rightarrow> nat \<Rightarrow> 'a fdt_scheme \<Rightarrow> (nat \<times> 'a fdt_scheme) result" where
  "copyproc trampoline forkret p s =
     bindR (allocproc trampoline s) (\<lambda>(r, s1).
     case r of None \<Rightarrow> Inl NullDeref
     | Some np \<Rightarrow>
       let s2 = upd_proc np (\<lambda>q. q\<lparr>p_ppid := p_pid (procs s1 ! p), p_sz := p_sz (procs s1 ! p)\<rparr>) s1;
         pt = p_pagetable (procs s2 ! p); npt = p_pagetable (procs s2 ! np) in
       bindR (copy_pages pt npt (unat (PGROUNDUP (p_sz (procs s2 ! np)) + PGSIZE)) 0 s2) (\<lambda>s3.
       let tf = p_tf (procs s3 ! p); ntf = p_tf (procs s3 ! np) in
       if tf = 0 \<or> ntf = 0 then Inl NullDeref
       else let s4 = s3\<lparr>mem := copy_mem tf_size (unat tf) (unat ntf) (mem s3)\<rparr>;
         s5 = copy_fds [0..<NOFILE] p np s4;
         s6 = s5\<lparr>mem := store64 (mem s5) (unat ntf + tf_x 0) 0\<rparr>;
         s7 = upd_proc np (\<lambda>q. q\<lparr>p_ctx := (p_ctx (procs s6 ! p))\<lparr>ctx_sp := p_kstack q + PGSIZE, ctx_x30 := forkret\<rparr>\<rparr>) s6
         in Inr (np, s7)))"

section \<open>Wait\<close>

text \<open>
  Every slot that is not a zombie child sets \<open>havekids\<close>, so without such a child the caller
  sleeps. The variable \<open>pid\<close> that is returned is never assigned.
\<close>

definition proc_wait :: "u64 \<Rightarrow> nat \<Rightarrow> int \<Rightarrow> 'a pst_scheme \<Rightarrow> (int \<times> 'a pst_scheme) result" where
  "proc_wait kend c pid s =
     (case myproc c s of None \<Rightarrow> Inl NullDeref
      | Some cp \<Rightarrow>
        (case first_index (\<lambda>p. p_state p = ZOMBIE \<and> p_ppid p = p_pid (procs s ! cp)) 0 (procs s) of
           Some p \<Rightarrow>
             bindR (kfree kend (p_tf (procs s ! p)) s) (\<lambda>s1.
             bindR (kfree kend (p_pagetable (procs s1 ! p)) s1) (\<lambda>s2.
               Inr (pid, upd_proc p (\<lambda>q. q\<lparr>p_state := UNUSED\<rparr>) s2)))
         | None \<Rightarrow> if procs s = [] then Inr (- 1, s) else Inl Sleeps))"

section \<open>Exit\<close>

function exit_fds :: "u64 \<Rightarrow> nat \<Rightarrow> int \<Rightarrow> 'a fdt_scheme \<Rightarrow> 'a fdt_scheme result" where
  "exit_fds kend cp fd s =
     (if int NOFILE \<le> fd then Inr s
      else if fd < 0 then Inl OutOfBounds
      else case p_fds (procs s ! cp) ! nat fd of
          None \<Rightarrow> exit_fds kend cp (fd + 1) s
        | Some f \<Rightarrow> bindR (fd_close kend f s) (\<lambda>s1.
            exit_fds kend cp (fd + 1) (upd_proc cp (\<lambda>q. q\<lparr>p_fds := (p_fds q)[nat fd := None]\<rparr>) s1)))"
  by pat_completeness auto
termination
  by (relation "measure (\<lambda>(kend, cp, fd, s). nat (int NOFILE - fd))") auto

declare exit_fds.simps [simp del]

primrec exit_wakeup :: "nat list \<Rightarrow> nat \<Rightarrow> 'a pst_scheme \<Rightarrow> 'a pst_scheme" where
  "exit_wakeup [] cp s = s"
| "exit_wakeup (p # ps) cp s =
     exit_wakeup ps cp (if p_pid (procs s ! p) = p_ppid (procs s ! cp) then wakeup (ChanProc p) s else s)"

primrec exit_abandon :: "nat list \<Rightarrow> nat \<Rightarrow> 'a pst_scheme \<Rightarrow> 'a pst_scheme" where
  "exit_abandon [] cp s = s"
| "exit_abandon (p # ps) cp s =
     exit_abandon ps cp
       (if p_ppid (procs s ! p) = p_pid (procs s ! cp) then upd_proc p (\<lambda>q. q\<lparr>p_pid := 1\<rparr>) s else s)"

text \<open>\<^verbatim>\<open>proc_exit\<close> up to the call of \<^verbatim>\<open>sched\<close>, from which it does not return.\<close>

definition proc_exit :: "u64 \<Rightarrow> nat \<Rightarrow> int \<Rightarrow> 'a fdt_scheme \<Rightarrow> 'a fdt_scheme result" where
  "proc_exit kend c fd s =
     (case myproc c s of None \<Rightarrow> Inl NullDeref
      | Some cp \<Rightarrow>
          bindR (exit_fds kend cp fd (upd_proc cp (\<lambda>q. q\<lparr>p_state := ZOMBIE\<rparr>) s)) (\<lambda>s1.
            let all = [0..<length (procs s)] in Inr (exit_abandon all cp (exit_wakeup all cp s1))))"

section \<open>Properties of exit and wait\<close>

text \<open>
  C24. Reaping: if the first zombie child of the caller owns two pages that are not free, its trap
  frame and its page table, \<^verbatim>\<open>proc_wait\<close> returns, both pages are on the free list and the slot can
  be used again. The value returned is the uninitialised variable, whatever it held.
\<close>

theorem proc_wait_reaps:
  assumes "myproc c s = Some cp" and "p < length (procs s)" and "p_state (procs s ! p) = ZOMBIE"
    and "p_ppid (procs s ! p) = p_pid (procs s ! cp)"
    and "\<forall>q < p. \<not> (p_state (procs s ! q) = ZOMBIE \<and> p_ppid (procs s ! q) = p_pid (procs s ! cp))"
    and "kmem_inv kend s xs" and "page_ok kend (p_tf (procs s ! p))" and "p_tf (procs s ! p) \<notin> set xs"
    and "page_ok kend (p_pagetable (procs s ! p))" and "p_pagetable (procs s ! p) \<notin> set xs"
    and "p_tf (procs s ! p) \<noteq> p_pagetable (procs s ! p)"
  shows "\<exists>s'. proc_wait kend c pid s = Inr (pid, s') \<and>
    kmem_inv kend s' (p_pagetable (procs s ! p) # p_tf (procs s ! p) # xs) \<and>
    procs s' = (procs s)[p := (procs s ! p)\<lparr>p_state := UNUSED\<rparr>]"
proof -
  let ?q = "procs s ! p"
  have f: "first_index (\<lambda>q. p_state q = ZOMBIE \<and> p_ppid q = p_pid (procs s ! cp)) 0 (procs s) = Some p"
    using assms(2-5) by (simp add: first_index_Some)
  obtain s1 where s1: "kfree kend (p_tf ?q) s = Inr s1" "kmem_inv kend s1 (p_tf ?q # xs)"
    using kfree_pages [OF assms(6-8)] by blast
  then have p1: "procs s1 = procs s" by (auto simp: kfree_ok [OF assms(7)])
  obtain s2 where s2: "kfree kend (p_pagetable ?q) s1 = Inr s2" "kmem_inv kend s2 (p_pagetable ?q # p_tf ?q # xs)"
    using kfree_pages [OF s1(2) assms(9)] assms(10,11) by auto
  then have p2: "procs s2 = procs s" using p1 by (auto simp: kfree_ok [OF assms(9)])
  show ?thesis using assms(1) f s1(1) s2 p1 p2 by (simp add: proc_wait_def)
qed

definition demo_wait :: pst where
  "demo_wait = (demo_pst 2)\<lparr>procs := [idle_proc\<lparr>p_pid := 1, p_state := RUNNING\<rparr>,
     idle_proc\<lparr>p_pid := 2, p_ppid := 1, p_state := ZOMBIE, p_tf := 0x8002000, p_pagetable := 0x8003000\<rparr>],
     cpu_proc := (\<lambda>_. Some 0)\<rparr>"

theorem proc_wait_reaps_witness:
  "\<exists>s'. proc_wait 0x7000000 0 17 demo_wait = Inr (17, s') \<and>
    kmem_inv 0x7000000 s' (p_pagetable (procs demo_wait ! 1) # p_tf (procs demo_wait ! 1) # free_pages 2) \<and>
    procs s' = (procs demo_wait)[1 := (procs demo_wait ! 1)\<lparr>p_state := UNUSED\<rparr>]"
proof (rule proc_wait_reaps [where cp = 0])
  show "kmem_inv 0x7000000 demo_wait (free_pages 2)"
    using demo_pst_inv(1) [of 2] by (simp add: demo_wait_def kmem_inv_def)
  have "free_pages 2 = [0x8001000, 0x8000000]" by (subst numeral_2_eq_2) simp
  then show "p_tf (procs demo_wait ! 1) \<notin> set (free_pages 2)" "p_pagetable (procs demo_wait ! 1) \<notin> set (free_pages 2)"
    by (simp_all add: demo_wait_def)
qed (simp_all add: demo_wait_def myproc_def idle_proc_def page_ok_def)

lemma exit_wakeup_keeps:
  "length (procs (exit_wakeup ps cp s)) = length (procs s) \<and>
   (i < length (procs s) \<longrightarrow>
     p_pid (procs (exit_wakeup ps cp s) ! i) = p_pid (procs s ! i) \<and>
     p_ppid (procs (exit_wakeup ps cp s) ! i) = p_ppid (procs s ! i) \<and>
     p_chan (procs (exit_wakeup ps cp s) ! i) = p_chan (procs s ! i) \<and>
     (p_state (procs s ! i) \<noteq> SLEEPING \<longrightarrow> p_state (procs (exit_wakeup ps cp s) ! i) = p_state (procs s ! i)))"
proof (induction ps arbitrary: s)
  case (Cons p ps)
  show ?case using Cons [of "if p_pid (procs s ! p) = p_ppid (procs s ! cp) then wakeup (ChanProc p) s else s"]
    by (auto simp: wakeup_def wakeup_proc_def split: if_splits)
qed simp

lemma exit_wakeup_wakes:
  "set ps \<subseteq> {..<length (procs s)} \<Longrightarrow> cp < length (procs s) \<Longrightarrow> i < length (procs s) \<Longrightarrow> j \<in> set ps \<Longrightarrow>
   p_pid (procs s ! j) = p_ppid (procs s ! cp) \<Longrightarrow> p_state (procs s ! i) = SLEEPING \<Longrightarrow> p_chan (procs s ! i) = ChanProc j \<Longrightarrow>
   p_state (procs (exit_wakeup ps cp s) ! i) = RUNNABLE"
proof (induction ps arbitrary: s)
  case (Cons p ps)
  let ?s1 = "if p_pid (procs s ! p) = p_ppid (procs s ! cp) then wakeup (ChanProc p) s else s"
  have len: "length (procs ?s1) = length (procs s)" by (simp add: wakeup_def)
  have keep: "p_pid (procs ?s1 ! k) = p_pid (procs s ! k) \<and> p_ppid (procs ?s1 ! k) = p_ppid (procs s ! k) \<and>
      p_chan (procs ?s1 ! k) = p_chan (procs s ! k)" if "k < length (procs s)" for k
    using that by (simp add: wakeup_def wakeup_proc_def)
  show ?case
  proof (cases "p = j")
    case True
    then have "p_state (procs ?s1 ! i) = RUNNABLE" using Cons.prems by (simp add: wakeup_def wakeup_proc_def)
    then show ?thesis using exit_wakeup_keeps [of ps cp ?s1 i] len Cons.prems by simp
  next
    case False
    have st: "p_state (procs ?s1 ! i) = SLEEPING"
      using Cons.prems False by (simp add: wakeup_def wakeup_proc_def)
    have "j < length (procs s)" using Cons.prems by auto
    then have "p_state (procs (exit_wakeup ps cp ?s1) ! i) = RUNNABLE"
      using Cons.prems False st keep len by (intro Cons.IH) auto
    then show ?thesis by simp
  qed
qed simp

lemma exit_abandon_at:
  "cp < length (procs s) \<Longrightarrow> p_ppid (procs s ! cp) \<noteq> p_pid (procs s ! cp) \<Longrightarrow> i < length (procs s) \<Longrightarrow>
   length (procs (exit_abandon ps cp s)) = length (procs s) \<and>
   procs (exit_abandon ps cp s) ! i =
     (if i \<in> set ps \<and> p_ppid (procs s ! i) = p_pid (procs s ! cp) then (procs s ! i)\<lparr>p_pid := 1\<rparr> else procs s ! i)"
proof (induction ps arbitrary: s)
  case (Cons p ps)
  let ?s1 = "if p_ppid (procs s ! p) = p_pid (procs s ! cp) then upd_proc p (\<lambda>q. q\<lparr>p_pid := 1\<rparr>) s else s"
  have cp: "procs ?s1 ! cp = procs s ! cp" "length (procs ?s1) = length (procs s)"
    using Cons.prems by (cases "p = cp", auto)
  show ?case using Cons.IH [of ?s1] Cons.prems cp by (auto simp: nth_update_iff split: if_splits)
qed simp

text \<open>
  Closing a descriptor. What closing may do to another process is wake it from the wait for a pipe or an
  inode, never from the wait for a child.
\<close>

definition woken :: "proc \<Rightarrow> proc \<Rightarrow> bool" where
  "woken p q \<longleftrightarrow> q = p \<or> p_state p = SLEEPING \<and> (\<forall>i. p_chan p \<noteq> ChanProc i) \<and> q = p\<lparr>p_state := RUNNABLE\<rparr>"

lemma woken_trans: "woken p q \<Longrightarrow> woken q r \<Longrightarrow> woken p r"
  by (auto simp: woken_def)

lemma wakeup_woken: "(\<And>i. ch \<noteq> ChanProc i) \<Longrightarrow> list_all2 woken (procs s) (procs (wakeup ch s))"
  by (auto simp: list_all2_conv_all_nth wakeup_def wakeup_proc_def woken_def)

definition fd_ok :: "u64 \<Rightarrow> fd \<Rightarrow> bool" where
  "fd_ok kend f \<longleftrightarrow> (fd_type f = FD_PIPE \<longrightarrow> page_ok kend (fd_pipe f))"

lemma pipe_close_keeps:
  assumes "page_ok kend p"
  shows "\<exists>s'. pipe_close kend p w s = Inr s' \<and> fds s' = fds s \<and> list_all2 woken (procs s) (procs s')"
  by (auto simp: kfree_ok [OF assms] pipe_close_def Let_def wakeup_def wakeup_proc_def list_all2_conv_all_nth woken_def)

lemma file_close_keeps: "fds (file_close ip s) = fds s \<and> list_all2 woken (procs s) (procs (file_close ip s))"
  for s :: "'a fdt_scheme"
  by (simp add: file_close_def iput_def wakeup_def upd_inode_def wakeup_proc_def list_all2_conv_all_nth woken_def)

lemma fd_close_ok:
  assumes "fd_ok kend (fds s ! f)" and "f < length (fds s)"
  shows "\<exists>s'. fd_close kend f s = Inr s' \<and> list_all2 woken (procs s) (procs s') \<and>
    fds s' = (fds s)[f := (fds s ! f)\<lparr>fd_ref := fd_ref (fds s ! f) - 1, fd_type := FD_CLOSE\<rparr>]"
proof -
  let ?s1 = "upd_fd f (\<lambda>f. f\<lparr>fd_ref := fd_ref f - 1\<rparr>) s" and ?f = "fds s ! f"
  have refl: "list_all2 woken (procs s) (procs s)" by (simp add: list_all2_conv_all_nth woken_def)
  have "\<exists>s2. (if fd_ref ?f - 1 = 0 \<and> fd_type ?f = FD_PIPE then pipe_close kend (fd_pipe ?f) (fd_writeable ?f) ?s1 else Inr ?s1) = Inr s2 \<and>
      fds s2 = fds ?s1 \<and> list_all2 woken (procs s) (procs s2)"
    using pipe_close_keeps [of kend "fd_pipe ?f" "fd_writeable ?f" ?s1] assms(1) refl by (auto simp: fd_ok_def)
  then obtain s2 where s2: "(if fd_ref ?f - 1 = 0 \<and> fd_type ?f = FD_PIPE then pipe_close kend (fd_pipe ?f) (fd_writeable ?f) ?s1 else Inr ?s1) = Inr s2"
      "fds s2 = fds ?s1" "list_all2 woken (procs s) (procs s2)" by blast
  let ?s3 = "if fd_ref ?f - 1 = 0 \<and> fd_type ?f = FD_FILE then file_close (fd_ip ?f) s2 else s2"
  have s3: "fds ?s3 = fds ?s1" "list_all2 woken (procs s) (procs ?s3)"
    using s2(2,3) file_close_keeps [of "fd_ip ?f" s2] list_all2_trans [of woken woken woken, OF woken_trans s2(3)] by auto
  have "fd_close kend f s = Inr (upd_fd f (\<lambda>f. f\<lparr>fd_type := FD_CLOSE\<rparr>) ?s3)"
    using s2(1) assms(2) by (simp add: fd_close_def Let_def cong: if_cong split del: if_split)
  then show ?thesis using s3 assms(2) by auto
qed

text \<open>The loop over the descriptors of the exiting process, from \<open>n\<close> on.\<close>

definition closed_by :: "nat option list \<Rightarrow> nat \<Rightarrow> fd \<Rightarrow> fd" where
  "closed_by l f x = (if Some f \<in> set l then x\<lparr>fd_ref := fd_ref x - of_nat (count_list l (Some f)), fd_type := FD_CLOSE\<rparr> else x)"

definition fds_closed :: "nat \<Rightarrow> nat \<Rightarrow> 'a fdt_scheme \<Rightarrow> 'a fdt_scheme \<Rightarrow> bool" where
  "fds_closed cp n s s' \<longleftrightarrow> (let l = p_fds (procs s ! cp) in
     procs s' ! cp = (procs s ! cp)\<lparr>p_fds := take n l @ replicate (NOFILE - n) None\<rparr> \<and>
     length (procs s') = length (procs s) \<and> (\<forall>i < length (procs s). i \<noteq> cp \<longrightarrow> woken (procs s ! i) (procs s' ! i)) \<and>
     length (fds s') = length (fds s) \<and> (\<forall>f < length (fds s). fds s' ! f = closed_by (drop n l) f (fds s ! f)))"

definition files_ok :: "u64 \<Rightarrow> nat option list \<Rightarrow> 'a fdt_scheme \<Rightarrow> bool" where
  "files_ok kend l s \<longleftrightarrow> (\<forall>f. Some f \<in> set l \<longrightarrow> f < length (fds s) \<and> fd_ok kend (fds s ! f))"

lemma closed_by_Cons:
  "closed_by (Some g # l) f x = closed_by l f (if f = g then x\<lparr>fd_ref := fd_ref x - 1, fd_type := FD_CLOSE\<rparr> else x)"
  "closed_by (None # l) f x = closed_by l f x"
  using count_notin [of "Some f" l] by (auto simp: closed_by_def)

lemma exit_fds_closes:
  assumes "n \<le> NOFILE" and "length (p_fds (procs s ! cp)) = NOFILE" and "cp < length (procs s)" and "p_state (procs s ! cp) \<noteq> SLEEPING"
    and "files_ok kend (drop n (p_fds (procs s ! cp))) s"
  shows "\<exists>s'. exit_fds kend cp (int n) s = Inr s' \<and> fds_closed cp n s s'"
  using assms
proof (induction "NOFILE - n" arbitrary: n s)
  case 0
  then show ?case by (subst exit_fds.simps) (simp add: fds_closed_def woken_def closed_by_def)
next
  case (Suc k)
  let ?l = "p_fds (procs s ! cp)"
  have n: "n < NOFILE" "NOFILE - n = Suc (NOFILE - Suc n)" using Suc.hyps(2) by simp_all
  have d: "drop n ?l = ?l ! n # drop (Suc n) ?l" using n(1) Suc.prems(2) by (simp add: Cons_nth_drop_Suc)
  show ?case
  proof (cases "?l ! n")
    case None
    then have "exit_fds kend cp (int n) s = exit_fds kend cp (int (Suc n)) s"
      using n(1) by (subst exit_fds.simps) (simp add: algebra_simps)
    moreover have "\<exists>s'. exit_fds kend cp (int (Suc n)) s = Inr s' \<and> fds_closed cp (Suc n) s s'"
      using Suc.prems Suc.hyps(2) n d by (intro Suc.hyps(1)) (auto simp: files_ok_def)
    moreover have "take (Suc n) ?l = take n ?l @ [None]" using None n(1) Suc.prems(2) by (simp add: take_Suc_conv_app_nth)
    ultimately show ?thesis using None d n(2) by (auto simp: fds_closed_def Let_def closed_by_Cons)
  next
    case (Some f)
    then have f: "f < length (fds s)" "fd_ok kend (fds s ! f)" using Suc.prems(5) d by (auto simp: files_ok_def)
    obtain s1 where s1: "fd_close kend f s = Inr s1" "list_all2 woken (procs s) (procs s1)"
        "fds s1 = (fds s)[f := (fds s ! f)\<lparr>fd_ref := fd_ref (fds s ! f) - 1, fd_type := FD_CLOSE\<rparr>]"
      using fd_close_ok [OF f(2,1)] by blast
    have ln: "length (procs s1) = length (procs s)" using s1(2) by (simp add: list_all2_lengthD)
    have w: "woken (procs s ! i) (procs s1 ! i)" if "i < length (procs s)" for i
      using s1(2) that by (simp add: list_all2_conv_all_nth)
    have cp1: "procs s1 ! cp = procs s ! cp" using w [OF Suc.prems(3)] Suc.prems(4) by (auto simp: woken_def)
    let ?s2 = "upd_proc cp (\<lambda>q. q\<lparr>p_fds := (p_fds q)[n := None]\<rparr>) s1"
    have cp2: "procs ?s2 ! cp = (procs s ! cp)\<lparr>p_fds := ?l[n := None]\<rparr>" using cp1 ln Suc.prems(3) by simp
    have f2: "fds ?s2 = fds s1" by (simp add: upd_proc_def)
    have e: "exit_fds kend cp (int n) s = exit_fds kend cp (int (Suc n)) ?s2"
      using n(1) Some s1(1) by (subst exit_fds.simps) (simp add: algebra_simps)
    have "files_ok kend (drop (Suc n) (?l[n := None])) ?s2"
      using Suc.prems(5) d f unfolding files_ok_def f2 s1(3) by (auto simp: nth_list_update fd_ok_def)
    then have "\<exists>s'. exit_fds kend cp (int (Suc n)) ?s2 = Inr s' \<and> fds_closed cp (Suc n) ?s2 s'"
      using Suc.prems Suc.hyps(2) n(1) cp2 ln by (intro Suc.hyps(1)) simp_all
    then obtain s' where s': "exit_fds kend cp (int (Suc n)) ?s2 = Inr s'" "fds_closed cp (Suc n) ?s2 s'" by blast
    have t: "take (Suc n) (?l[n := None]) = take n ?l @ [None]" using n(1) Suc.prems(2) by (simp add: take_Suc_conv_app_nth)
    have "fds_closed cp n s s'"
      using s'(2) w ln d Some unfolding fds_closed_def Let_def cp2 f2 s1(3)
      by (auto simp: t n(2) closed_by_Cons nth_list_update intro: woken_trans)
    then show ?thesis using e s'(1) by auto
  qed
qed

lemma exit_fds_from:
  assumes "length (p_fds (procs s ! cp)) = NOFILE" and "cp < length (procs s)" and "p_state (procs s ! cp) \<noteq> SLEEPING"
    and "files_ok kend (drop n (p_fds (procs s ! cp))) s"
  shows "\<exists>s'. exit_fds kend cp (int n) s = Inr s' \<and> fds_closed cp n s s'"
proof (cases "n \<le> NOFILE")
  case False
  then show ?thesis using assms(1) by (subst exit_fds.simps) (simp add: fds_closed_def woken_def closed_by_def)
qed (use exit_fds_closes assms in blast)

lemma exit_keeps_fds: "fds (exit_wakeup ps cp s) = fds s" "fds (exit_abandon ps cp s) = fds s" for s :: "'a fdt_scheme"
  by (induction ps arbitrary: s) (auto simp: wakeup_def upd_proc_def)

lemma exit_wakeup_fds: "i < length (procs s) \<Longrightarrow> p_fds (procs (exit_wakeup ps cp s) ! i) = p_fds (procs s ! i)"
proof (induction ps arbitrary: s)
  case (Cons p ps)
  show ?case using Cons.IH [of "if p_pid (procs s ! p) = p_ppid (procs s ! cp) then wakeup (ChanProc p) s else s"] Cons.prems
    by (auto simp: wakeup_def wakeup_proc_def split: if_splits)
qed simp

text \<open>
  C25. An exiting process closes its files, becomes a zombie and wakes its parent. The loop over the descriptors
  starts at a variable that is not initialised; for every value \<open>n\<close> it may have that is not negative, \<^verbatim>\<open>proc_exit\<close>
  gets to the scheduler, provided the pipes the process has open are pages of the allocator. Then the descriptors from \<open>n\<close> on are
  closed, each open file has lost one reference per descriptor that is closed (and is marked closed), no other
  file has changed, the process is a zombie, and a parent that sleeps in \<^verbatim>\<open>proc_wait\<close> (on its own
  slot) is runnable. With the value 0, which the code means, no descriptor is left.
\<close>

theorem proc_exit_wakes_parent:
  assumes "myproc c s = Some cp" and "cp < length (procs s)" and "j < length (procs s)"
    and "length (p_fds (procs s ! cp)) = NOFILE" and "files_ok kend (drop n (p_fds (procs s ! cp))) s"
    and "p_ppid (procs s ! cp) \<noteq> p_pid (procs s ! cp)" and "p_pid (procs s ! j) = p_ppid (procs s ! cp)"
    and "p_state (procs s ! j) = SLEEPING" and "p_chan (procs s ! j) = ChanProc j"
  shows "\<exists>s'. proc_exit kend c (int n) s = Inr s' \<and> p_state (procs s' ! cp) = ZOMBIE \<and> p_state (procs s' ! j) = RUNNABLE \<and>
    p_fds (procs s' ! cp) = take n (p_fds (procs s ! cp)) @ replicate (NOFILE - n) None \<and>
    (\<forall>f < length (fds s). fds s' ! f = closed_by (drop n (p_fds (procs s ! cp))) f (fds s ! f))"
proof -
  let ?all = "[0..<length (procs s)]" and ?l = "p_fds (procs s ! cp)"
  let ?s0 = "upd_proc cp (\<lambda>q. q\<lparr>p_state := ZOMBIE\<rparr>) s"
  have ne: "j \<noteq> cp" using assms(6,7) by auto
  have "fds ?s0 = fds s" by (simp add: upd_proc_def)
  then have "\<exists>s1. exit_fds kend cp (int n) ?s0 = Inr s1 \<and> fds_closed cp n ?s0 s1"
    using assms(2,4,5) by (intro exit_fds_from) (simp_all add: files_ok_def)
  then obtain s1 where s1: "exit_fds kend cp (int n) ?s0 = Inr s1" "fds_closed cp n ?s0 s1" by blast
  have cp1: "procs s1 ! cp = (procs s ! cp)\<lparr>p_state := ZOMBIE, p_fds := take n ?l @ replicate (NOFILE - n) None\<rparr>"
    and len1: "length (procs s1) = length (procs s)" and f1: "\<forall>f < length (fds s). fds s1 ! f = closed_by (drop n ?l) f (fds s ! f)"
    and j1: "procs s1 ! j = procs s ! j"
    using s1(2) assms(2,3,8,9) ne \<open>fds ?s0 = fds s\<close> by (auto simp: fds_closed_def Let_def woken_def)
  let ?s2 = "exit_wakeup ?all cp s1"
  have j: "p_state (procs ?s2 ! j) = RUNNABLE"
    by (rule exit_wakeup_wakes [where j = j]) (use assms cp1 j1 len1 in auto)
  have z: "p_state (procs ?s2 ! cp) = ZOMBIE" and id: "p_ppid (procs ?s2 ! cp) \<noteq> p_pid (procs ?s2 ! cp)"
    and len: "length (procs ?s2) = length (procs s)"
    using exit_wakeup_keeps [of ?all cp s1 cp] assms(2,6) cp1 len1 by auto
  have "p_state (procs (exit_abandon ?all cp ?s2) ! i) = p_state (procs ?s2 ! i) \<and> p_fds (procs (exit_abandon ?all cp ?s2) ! i) = p_fds (procs ?s2 ! i)"
    if "i < length (procs s)" for i
    using exit_abandon_at [of cp ?s2 i ?all] id len assms(2) that by (auto split: if_splits)
  then show ?thesis
    using s1(1) assms(1-3) j z f1 cp1 exit_wakeup_fds [of cp s1 ?all cp] len1
    by (auto simp: proc_exit_def Let_def exit_keeps_fds)
qed

text \<open>The child of a sleeping parent, with a pipe end open twice and a file once.\<close>

definition demo_exit :: fdt where
  "demo_exit = (demo_fdt 0 [closed_fd\<lparr>fd_type := FD_PIPE, fd_ref := 3, fd_pipe := 0x8000000\<rparr>, closed_fd\<lparr>fd_type := FD_FILE, fd_ref := 1\<rparr>])\<lparr>
     procs := [idle_proc\<lparr>p_pid := 1, p_state := SLEEPING, p_chan := ChanProc 0\<rparr>,
       idle_proc\<lparr>p_pid := 2, p_ppid := 1, p_state := RUNNING, p_fds := [Some 0, Some 1, Some 0] @ replicate 13 None\<rparr>,
       idle_proc\<lparr>p_pid := 3, p_ppid := 2, p_state := RUNNABLE\<rparr>],
     cpu_proc := (\<lambda>_. Some 1)\<rparr>"

theorem proc_exit_wakes_parent_witness:
  "\<exists>s'. proc_exit 0x7000000 0 (int 0) demo_exit = Inr s' \<and> p_state (procs s' ! 1) = ZOMBIE \<and> p_state (procs s' ! 0) = RUNNABLE \<and>
    p_fds (procs s' ! 1) = replicate 16 None \<and> fd_ref (fds s' ! 0) = 1 \<and> fd_type (fds s' ! 1) = FD_CLOSE"
proof -
  have ok: "files_ok 0x7000000 (drop 0 (p_fds (procs demo_exit ! 1))) demo_exit"
    by (auto simp: files_ok_def demo_exit_def fd_ok_def page_ok_def demo_fdt_def closed_fd_def)
  have "\<exists>s'. proc_exit 0x7000000 0 (int 0) demo_exit = Inr s' \<and> p_state (procs s' ! 1) = ZOMBIE \<and> p_state (procs s' ! 0) = RUNNABLE \<and>
    p_fds (procs s' ! 1) = take 0 (p_fds (procs demo_exit ! 1)) @ replicate (NOFILE - 0) None \<and>
    (\<forall>f < length (fds demo_exit). fds s' ! f = closed_by (drop 0 (p_fds (procs demo_exit ! 1))) f (fds demo_exit ! f))"
    by (rule proc_exit_wakes_parent [OF _ _ _ _ ok]) (simp_all add: demo_exit_def myproc_def idle_proc_def)
  then show ?thesis by (auto simp: demo_exit_def demo_fdt_def closed_by_def All_less_Suc)
qed

text \<open>
  An exiting process takes the ids of its children: every child's own id, not its parent id,
  is overwritten with 1, so that two children end up with one id while their parent is still the
  dead process.
\<close>

lemma proc_exit_clobbers_child_ids:
  assumes "cp < length (procs s)" and "i < length (procs s)"
    and "p_ppid (procs s ! cp) \<noteq> p_pid (procs s ! cp)" and "p_ppid (procs s ! i) = p_pid (procs s ! cp)"
  shows "p_pid (procs (exit_abandon [0..<length (procs s)] cp s) ! i) = 1 \<and>
    p_ppid (procs (exit_abandon [0..<length (procs s)] cp s) ! i) = p_pid (procs s ! cp)"
  using exit_abandon_at [OF assms(1,3,2)] assms by simp

end
