(* ===== verification/Exec.thy ===== *)
theory Exec
  imports Proc_Life
begin

text \<open>
  Loading a program, \<^verbatim>\<open>kexec\<close> of \<^verbatim>\<open>kernel/exec.c\<close> with the structures of \<^verbatim>\<open>include/elf.h\<close>. The
  header and the program headers are read in the buffer of the file's first sector; a program
  header that does not lie in that sector is read out of bounds. The arguments are the addresses of
  zero-terminated strings in the physical memory.

  The array \<^verbatim>\<open>ustack[argc]\<close> has one entry less than the source writes; the model gives it the
  entry, and keeps what is written through it to the user's stack.
\<close>

section \<open>The ELF structures\<close>

abbreviation (input) ELF_MAGIC :: u32 where "ELF_MAGIC \<equiv> 0x464C457F"
abbreviation (input) ELF_PROG_LOAD :: u32 where "ELF_PROG_LOAD \<equiv> 1"

definition elf_magic :: "store \<Rightarrow> u32" where "elf_magic d = load32 d 0"
definition elf_entry :: "store \<Rightarrow> u64" where "elf_entry d = load64 d 24"
definition elf_phoff :: "store \<Rightarrow> u64" where "elf_phoff d = load64 d 32"
definition elf_phnum :: "store \<Rightarrow> u16" where "elf_phnum d = load16 d 56"

definition ph_type :: "store \<Rightarrow> nat \<Rightarrow> u32" where "ph_type d o' = load32 d o'"
definition ph_off :: "store \<Rightarrow> nat \<Rightarrow> u64" where "ph_off d o' = load64 d (o' + 8)"
definition ph_vaddr :: "store \<Rightarrow> nat \<Rightarrow> u64" where "ph_vaddr d o' = load64 d (o' + 16)"
definition ph_filesz :: "store \<Rightarrow> nat \<Rightarrow> u64" where "ph_filesz d o' = load64 d (o' + 32)"

section \<open>Loading the segments\<close>

text \<open>
  The loop over the sectors of a segment: sector \<open>i\<close> of the file goes to \<open>pa + 512 * j\<close>. The
  number of sectors is not compared with the size of the page at \<open>pa\<close>.
\<close>

function load_sectors :: "inode \<Rightarrow> u64 \<Rightarrow> int \<Rightarrow> int \<Rightarrow> nat \<Rightarrow> 'a bio_scheme \<Rightarrow> 'a bio_scheme result" where
  "load_sectors dp pa i end' j s =
     (if end' < i then Inr s
      else if i < 0 then Inl OutOfBounds
      else if i < int NDIRECT then
        bindR (bread (i_dev dp) (i_addrs dp ! nat i) s) (\<lambda>(b, s1).
        let s2 = s1\<lparr>mem := copy_bytes 512 (bget b s1) 0 (mem s1) (unat pa + j * 512)\<rparr>
        in load_sectors dp pa (i + 1) end' (Suc j) (brelse b (brelse b s2)))
      else
        bindR (bread (i_dev dp) (i_addrs dp ! NDIRECT) s) (\<lambda>(b, s1).
        if int (NDIRECT + NINDIRECT) \<le> i then Inl OutOfBounds
        else let blk = load32 (bget b s1) (4 * (nat i - NDIRECT)) in
        if blk = 0 then Inl (Panic ''invalid indirect block'')
        else bindR (bread (i_dev dp) blk s1) (\<lambda>(b', s2).
          let s3 = s2\<lparr>mem := copy_bytes 512 (bget b' s2) 0 (mem s2) (unat pa + j * 512)\<rparr>
          in load_sectors dp pa (i + 1) end' (Suc j) (brelse b' (brelse b s3)))))"
  by pat_completeness auto
termination
  by (relation "measure (\<lambda>(dp, pa, i, end', j, s). nat (end' + 1 - i))") auto

declare load_sectors.simps [simp del]

text \<open>The loop over the program headers; \<open>buf\<close> holds the first sector, \<open>sz\<close> is the last address.\<close>

function load_segments ::
  "inode \<Rightarrow> u64 \<Rightarrow> nat \<Rightarrow> nat \<Rightarrow> u64 \<Rightarrow> 'a bio_scheme \<Rightarrow> (u64 \<times> 'a bio_scheme) result" where
  "load_segments dp pagetable buf k sz s =
     (let d = bget buf s in
      if unat (elf_phnum d) \<le> k then Inr (sz, s)
      else let o' = unat (elf_phoff d) + 56 * k in
        if 512 < o' + 56 then Inl OutOfBounds
        else if ph_type d o' \<noteq> ELF_PROG_LOAD then load_segments dp pagetable buf (Suc k) sz s
        else case kalloc s of (pa, s1) \<Rightarrow>
          if pa = 0 then Inl NullDeref
          else bindR (load_sectors dp pa (sint (ucast (ph_off d o' div 512) :: u32))
              (sint (ucast ((ph_off d o' + ph_filesz d o') div 512) :: u32)) 0 s1) (\<lambda>s2.
            bindR (mappages pagetable (ph_vaddr d o') pa PGSIZE PTE_AP_RW s2) (\<lambda>(_, s3).
              load_segments dp pagetable buf (Suc k) (ph_vaddr d o') s3)))"
  by pat_completeness auto
termination
  by (relation "measure (\<lambda>(dp, pagetable, buf, k, sz, s). 600 - k)") auto

declare load_segments.simps [simp del]

section \<open>The user stack\<close>

text \<open>
  \<^verbatim>\<open>for (len = 0; arg[len] != 0; len++);\<close> A string that is not terminated before the end of the
  physical memory is read out of bounds.
\<close>

function strlen_from :: "store \<Rightarrow> nat \<Rightarrow> nat \<Rightarrow> nat result" where
  "strlen_from m a n =
     (if unat PHYSTOP \<le> a + n then Inl OutOfBounds
      else if m (a + n) = 0 then Inr n else strlen_from m a (Suc n))"
  by pat_completeness auto
termination
  by (relation "measure (\<lambda>(m, a, n). unat PHYSTOP - (a + n))") auto

declare strlen_from.simps [simp del]

definition align16 :: "u64 \<Rightarrow> u64" where
  "align16 x = x AND NOT 0xF"

text \<open>
  The loop over the arguments, last one first: \<open>dsp\<close> is the stack pointer in the kernel's view of
  the page, \<open>align_sz\<close> the same in the user's view. The first goes down by the length of the
  string, the second by the length and one more for the terminating 0. The user addresses of the
  strings are collected in \<open>ustack\<close>.
\<close>

fun push_args :: "u64 list \<Rightarrow> u64 \<Rightarrow> u64 \<Rightarrow> u64 list \<Rightarrow> store \<Rightarrow> (u64 \<times> u64 \<times> u64 list \<times> store) result" where
  "push_args [] dsp align_sz ustack m = Inr (dsp, align_sz, ustack, m)"
| "push_args (arg # args) dsp align_sz ustack m =
     bindR (strlen_from m (unat arg) 0) (\<lambda>len.
       let dsp' = align16 (dsp - of_nat len);
         align_sz' = align16 (align_sz - of_nat len - 1);
         m1 = copy_mem len (unat arg) (unat dsp') m;
         m2 = m1(unat dsp' + len := 0)
       in push_args args dsp' align_sz' (align_sz' # ustack) m2)"

fun push_words :: "u64 list \<Rightarrow> nat \<Rightarrow> store \<Rightarrow> store" where
  "push_words [] a m = m"
| "push_words (w # ws) a m = push_words ws (a + 8) (store64 m a w)"

definition user_stack :: "u64 list \<Rightarrow> u64 \<Rightarrow> u64 \<Rightarrow> store \<Rightarrow> (u64 \<times> u64 \<times> store) result" where
  "user_stack args dsp align_sz m =
     bindR (push_args (rev args) dsp align_sz [] m) (\<lambda>(dsp1, align_sz1, ustack, m1).
       let n = of_nat (8 * length args);
         dsp2 = align16 (dsp1 - n); align_sz2 = align16 (align_sz1 - n)
       in Inr (dsp2, align_sz2, push_words (ustack @ [0]) (unat dsp2) m1))"

section \<open>kexec\<close>

definition kexec :: "u64 \<Rightarrow> nat \<Rightarrow> byte list \<Rightarrow> u64 list \<Rightarrow> 'a fdt_scheme \<Rightarrow> (int \<times> 'a fdt_scheme) result" where
  "kexec trampoline c path args s =
     (case myproc c s of None \<Rightarrow> Inl NullDeref
      | Some p \<Rightarrow>
     bindR (namei path s) (\<lambda>(r, s1).
     case r of None \<Rightarrow> Inl (Panic ''kexec file not found'')
     | Some dp \<Rightarrow>
     let ip = inodes s1 ! dp in
     bindR (bread (i_dev ip) (i_addrs ip ! 0) s1) (\<lambda>(buf, s2).
     if elf_magic (bget buf s2) \<noteq> ELF_MAGIC then Inl (Panic ''not an execute file'')
     else bindR (proc_pagetable trampoline p s2) (\<lambda>(pagetable, s3).
     bindR (load_segments ip pagetable buf 0 0 s3) (\<lambda>(sz0, s4).
     let sz = PGROUNDUP sz0 + PGSIZE in
     case kalloc s4 of (sp, s5) \<Rightarrow>
     if sp = 0 then Inl NullDeref
     else bindR (user_stack args (sp + PGSIZE) (sz + PGSIZE) (mem s5)) (\<lambda>(dsp, align_sz, m).
     bindR (mappages pagetable sz sp PGSIZE PTE_AP_RW (s5\<lparr>mem := m\<rparr>)) (\<lambda>(_, s6).
     let s7 = upd_proc p (\<lambda>q. q\<lparr>p_pagetable := pagetable, p_sz := sz\<rparr>) s6; tf = p_tf (procs s7 ! p) in
     if tf = 0 then Inl NullDeref
     else let
       m1 = store64 (mem s7) (unat tf + tf_sp_el0) align_sz;
       m2 = store64 m1 (unat tf + tf_x 0) (of_nat (length args));
       m3 = store64 m2 (unat tf + tf_x 1) align_sz;
       m4 = store64 m3 (unat tf + tf_elr_el1) (elf_entry (bget buf s7));
       s8 = upd_proc p (\<lambda>q. q\<lparr>p_state := RUNNABLE\<rparr>) (s7\<lparr>mem := m4\<rparr>)
     in Inr (0, brelse buf s8))))))))"

end
