(* ===== verification/Syscall.thy ===== *)
theory Syscall
  imports Exec
begin

text \<open>
  System calls, \<^verbatim>\<open>kernel/syscall.c\<close>. Each \<^verbatim>\<open>sys_\<close> function takes the number of the processor it
  runs on, and what it needs of the environment \<open>kenv\<close>: the linker symbols, the address of its
  local array on the kernel stack, and the values the uninitialised variables of \<^verbatim>\<open>proc_wait\<close> and
  \<^verbatim>\<open>proc_exit\<close> happen to have. A write beyond a local array is the error \<open>OutOfBounds\<close>. Of a
  14-byte name without a terminating 0, the byte after the array is taken to be 0.
\<close>

section \<open>Arguments\<close>

record kenv =
  k_end :: u64
  k_trampoline :: u64
  k_forkret :: u64
  k_buf :: u64
  k_pid :: int
  k_fd :: int

definition cur :: "nat \<Rightarrow> 'a pst_scheme \<Rightarrow> proc result" where
  "cur c s = (case myproc c s of None \<Rightarrow> Inl NullDeref | Some p \<Rightarrow> Inr (procs s ! p))"

text \<open>The registers are 64 bits wide, the result is an \<^verbatim>\<open>int\<close>.\<close>

definition argraw :: "nat \<Rightarrow> nat \<Rightarrow> 'a pst_scheme \<Rightarrow> int result" where
  "argraw c n s =
     bindR (cur c s) (\<lambda>p.
       Inr (if n \<le> 7 then sint (ucast (load64 (mem s) (unat (p_tf p) + tf_x n)) :: u32) else - 1))"

definition argint :: "nat \<Rightarrow> nat \<Rightarrow> 'a pst_scheme \<Rightarrow> int result" where
  "argint c n s = argraw c n s"

definition argfd :: "nat \<Rightarrow> nat \<Rightarrow> 'a pst_scheme \<Rightarrow> int result" where
  "argfd c n s = argraw c n s"

text \<open>The physical address of a user address, as \<^verbatim>\<open>argaddr\<close>, \<^verbatim>\<open>fetchaddr\<close>, \<^verbatim>\<open>sys_read\<close> and \<^verbatim>\<open>sys_pipe\<close> compute it.\<close>

definition upa :: "nat \<Rightarrow> u64 \<Rightarrow> 'a pst_scheme \<Rightarrow> u64 result" where
  "upa c uva s =
     bindR (cur c s) (\<lambda>p.
       let va0 = PGROUNDDOWN uva in
       bindR (walkaddr (p_pagetable p) va0 s) (\<lambda>pa. Inr (pa + uva - va0)))"

definition argaddr :: "nat \<Rightarrow> nat \<Rightarrow> 'a pst_scheme \<Rightarrow> u64 result" where
  "argaddr c n s = bindR (argraw c n s) (\<lambda>a. upa c (word_of_int a) s)"

text \<open>The bytes \<^verbatim>\<open>argaddr\<close> copies into a local array of \<open>sz\<close> bytes.\<close>

definition argbytes :: "nat \<Rightarrow> nat \<Rightarrow> nat \<Rightarrow> int \<Rightarrow> 'a pst_scheme \<Rightarrow> byte list result" where
  "argbytes c n sz mx s =
     bindR (argaddr c n s) (\<lambda>a.
       if int sz < mx then Inl OutOfBounds
       else Inr (map (\<lambda>i. mem s (unat a + i)) [0..<nat mx]))"

text \<open>\<^verbatim>\<open>while (*s && size-- > 0) *d++ = *s++;\<close> The terminating 0 is not copied.\<close>

fun fetch_loop :: "nat \<Rightarrow> nat \<Rightarrow> nat \<Rightarrow> store \<Rightarrow> store" where
  "fetch_loop 0 a d m = m"
| "fetch_loop (Suc n) a d m = (if m a = 0 then m else fetch_loop n (Suc a) (Suc d) (m(d := m a)))"

definition fetchaddr :: "nat \<Rightarrow> u64 \<Rightarrow> u64 \<Rightarrow> nat \<Rightarrow> 'a pst_scheme \<Rightarrow> 'a pst_scheme result" where
  "fetchaddr c uva ip sz s =
     bindR (upa c uva s) (\<lambda>a.
       if ip = 0 \<and> mem s (unat a) \<noteq> 0 \<and> 0 < sz then Inl NullDeref
       else Inr (s\<lparr>mem := fetch_loop sz (unat a) (unat ip) (mem s)\<rparr>))"

text \<open>\<^verbatim>\<open>p->fds[fd]\<close> for the descriptor the user passed; it is not checked.\<close>

definition ufd :: "nat \<Rightarrow> int \<Rightarrow> 'a pst_scheme \<Rightarrow> nat option result" where
  "ufd c fd s = bindR (cur c s) (\<lambda>p.
     if fd < 0 \<or> int NOFILE \<le> fd then Inl OutOfBounds else Inr (p_fds p ! nat fd))"

definition set_ufd :: "nat \<Rightarrow> int \<Rightarrow> nat option \<Rightarrow> 'a pst_scheme \<Rightarrow> 'a pst_scheme result" where
  "set_ufd c fd v s =
     (case myproc c s of None \<Rightarrow> Inl NullDeref
      | Some p \<Rightarrow>
          if fd < 0 \<or> int NOFILE \<le> fd then Inl OutOfBounds
          else Inr (upd_proc p (\<lambda>q. q\<lparr>p_fds := (p_fds q)[nat fd := v]\<rparr>) s))"

section \<open>Processes\<close>

definition sys_fork :: "kenv \<Rightarrow> nat \<Rightarrow> 'a fdt_scheme \<Rightarrow> (int \<times> 'a fdt_scheme) result" where
  "sys_fork k c s =
     (case myproc c s of None \<Rightarrow> Inl NullDeref
      | Some cp \<Rightarrow>
          bindR (copyproc (k_trampoline k) (k_forkret k) cp s) (\<lambda>(np, s1).
            let s2 = upd_proc np (\<lambda>q. q\<lparr>p_state := RUNNABLE\<rparr>) s1
            in Inr (sint (p_pid (procs s2 ! np)), s2)))"

definition sys_exit :: "kenv \<Rightarrow> nat \<Rightarrow> 'a fdt_scheme \<Rightarrow> 'a fdt_scheme result" where
  "sys_exit k c s = proc_exit (k_end k) c (k_fd k) s"

definition sys_wait :: "kenv \<Rightarrow> nat \<Rightarrow> 'a fdt_scheme \<Rightarrow> (int \<times> 'a fdt_scheme) result" where
  "sys_wait k c s = proc_wait (k_end k) c (k_pid k) s"

definition sys_kill :: "nat \<Rightarrow> 'a fdt_scheme \<Rightarrow> (int \<times> 'a fdt_scheme) result" where
  "sys_kill c s = bindR (argint c 0 s) (\<lambda>pid. Inr (0, snd (proc_kill (word_of_int pid) s)))"

definition sys_panic :: "'a fdt_scheme \<Rightarrow> (int \<times> 'a fdt_scheme) result" where
  "sys_panic s = Inr (0, s)"

text \<open>The arguments are copied to pages of their own, which are never freed.\<close>

abbreviation (input) MAXARG :: nat where "MAXARG \<equiv> 32"

function exec_args :: "nat \<Rightarrow> byte list \<Rightarrow> nat \<Rightarrow> u64 list \<Rightarrow> 'a fdt_scheme \<Rightarrow> (u64 list \<times> 'a fdt_scheme) result" where
  "exec_args c args i argv s =
     (if 512 < 8 * i + 8 then Inl OutOfBounds
      else let arg = load64 (\<lambda>a. args ! a) (8 * i) in
        if arg = 0 then Inr (argv, s)
        else if MAXARG \<le> i then Inl OutOfBounds
        else case kalloc s of (page, s1) \<Rightarrow>
          bindR (fetchaddr c arg page 4096 s1) (\<lambda>s2. exec_args c args (Suc i) (argv @ [page]) s2))"
  by pat_completeness auto
termination
  by (relation "measure (\<lambda>(c, args, i, argv, s). 512 - i)") auto

declare exec_args.simps [simp del]

text \<open>A page that could not be allocated is a null pointer in \<^verbatim>\<open>argv\<close>, where the list of arguments ends.\<close>

definition sys_exec :: "kenv \<Rightarrow> nat \<Rightarrow> 'a fdt_scheme \<Rightarrow> (int \<times> 'a fdt_scheme) result" where
  "sys_exec k c s =
     bindR (argbytes c 0 DIRSIZ (int DIRSIZ) s) (\<lambda>exe_name.
     bindR (argbytes c 1 512 512 s) (\<lambda>args.
     bindR (exec_args c args 0 [] s) (\<lambda>(argv, s1).
       if length argv = MAXARG \<and> 0 \<notin> set argv then Inl OutOfBounds
       else bindR (kexec (k_trampoline k) c exe_name (takeWhile (\<lambda>a. a \<noteq> 0) argv) s1) (\<lambda>(_, s2). Inr (0, s2)))))"

section \<open>Files\<close>

text \<open>The descriptors written to the user's array are always 0 and 1.\<close>

definition sys_pipe :: "nat \<Rightarrow> 'a fdt_scheme \<Rightarrow> (int \<times> 'a fdt_scheme) result" where
  "sys_pipe c s =
     bindR (pipe_alloc s) (\<lambda>((_, rfd, wfd), s1).
     bindR (fd_ualloc c s1) (\<lambda>f1.
     bindR (set_ufd c f1 rfd s1) (\<lambda>s2.
     bindR (fd_ualloc c s2) (\<lambda>f2.
     bindR (set_ufd c f2 wfd s2) (\<lambda>s3.
     bindR (argaddr c 0 s3) (\<lambda>fdp.
       Inr (0, s3\<lparr>mem := store32 (store32 (mem s3) (unat fdp) 0) (unat fdp + 4) 1\<rparr>)))))))"

definition sys_write :: "kenv \<Rightarrow> nat \<Rightarrow> 'a fdt_scheme \<Rightarrow> (int \<times> 'a fdt_scheme) result" where
  "sys_write k c s =
     bindR (argfd c 0 s) (\<lambda>fd.
     bindR (argint c 2 s) (\<lambda>n.
     bindR (argaddr c 1 s) (\<lambda>a.
     if 512 < n then Inl OutOfBounds
     else let s1 = s\<lparr>mem := copy_mem (nat n) (unat a) (unat (k_buf k)) (mem s)\<rparr> in
     bindR (ufd c fd s1) (\<lambda>f.
       case f of None \<Rightarrow> Inl NullDeref | Some f \<Rightarrow> fd_write f (k_buf k) n s1))))"

definition sys_read :: "nat \<Rightarrow> 'a fdt_scheme \<Rightarrow> (int \<times> 'a fdt_scheme) result" where
  "sys_read c s =
     bindR (argfd c 0 s) (\<lambda>fd.
     bindR (argint c 2 s) (\<lambda>n.
     bindR (argaddr c 1 s) (\<lambda>buf.
     bindR (ufd c fd s) (\<lambda>f.
       case f of None \<Rightarrow> Inl NullDeref | Some f \<Rightarrow> fd_read f buf n s))))"

definition sys_close :: "kenv \<Rightarrow> nat \<Rightarrow> 'a fdt_scheme \<Rightarrow> (int \<times> 'a fdt_scheme) result" where
  "sys_close k c s =
     bindR (argfd c 0 s) (\<lambda>fd.
     bindR (ufd c fd s) (\<lambda>f.
     case f of None \<Rightarrow> Inl NullDeref
     | Some f \<Rightarrow> bindR (fd_close (k_end k) f s) (\<lambda>s1.
         bindR (set_ufd c fd None s1) (\<lambda>s2. Inr (0, s2)))))"

abbreviation (input) O_CREATE :: u32 where "O_CREATE \<equiv> 0x200"
abbreviation (input) O_WRONLY :: u32 where "O_WRONLY \<equiv> 1"
abbreviation (input) O_RDWR :: u32 where "O_RDWR \<equiv> 2"

text \<open>Finding or creating the inode: \<open>None\<close> when \<^verbatim>\<open>sys_open\<close> returns \<open>- 1\<close>.\<close>

definition open_inode :: "byte list \<Rightarrow> u32 \<Rightarrow> 'a fs_scheme \<Rightarrow> (nat option \<times> 'a fs_scheme) result" where
  "open_inode file_name arg1 s =
     bindR (namei file_name s) (\<lambda>(r, s1).
     case r of Some ip \<Rightarrow> Inr (Some ip, s1)
     | None \<Rightarrow>
       if arg1 AND O_CREATE = 0 then Inr (None, s1)
       else bindR (iget 1 1 s1) (\<lambda>(dp, s2).
         if i_type (inodes s2 ! dp) \<noteq> T_DIR then Inr (None, s2)
         else bindR (mknod dp file_name T_FILE 0 0 s2) (\<lambda>(ip, s3). Inr (Some ip, iput dp s3))))"

definition sys_open :: "nat \<Rightarrow> 'a fdt_scheme \<Rightarrow> (int \<times> 'a fdt_scheme) result" where
  "sys_open c s =
     bindR (argbytes c 0 DIRSIZ (int DIRSIZ) s) (\<lambda>file_name.
     bindR (argint c 1 s) (\<lambda>a1.
     let arg1 = word_of_int a1 :: u32 in
     bindR (open_inode file_name arg1 s) (\<lambda>(r, s1).
     case r of None \<Rightarrow> Inr (- 1, s1)
     | Some ip \<Rightarrow>
       (case fd_alloc s1 of (fd_file, s2) \<Rightarrow>
         bindR (fd_ualloc c s2) (\<lambda>u.
         case fd_file of None \<Rightarrow> Inl NullDeref
         | Some f \<Rightarrow>
           let rdwr = arg1 AND O_RDWR \<noteq> 0; wronly = arg1 AND O_WRONLY \<noteq> 0;
             s3 = upd_fd f (\<lambda>x. x\<lparr>fd_type := FD_FILE, fd_ip := ip, fd_off := 0,
               fd_readable := rdwr \<or> \<not> wronly, fd_writeable := rdwr \<or> wronly\<rparr>) (iunlock ip s2)
           in bindR (set_ufd c u (Some f) s3) (\<lambda>s4. Inr (u, s4)))))))"

definition sys_mknod :: "nat \<Rightarrow> 'a fdt_scheme \<Rightarrow> (int \<times> 'a fdt_scheme) result" where
  "sys_mknod c s =
     bindR (argbytes c 0 DIRSIZ (int DIRSIZ) s) (\<lambda>dev_name.
     bindR (argint c 1 s) (\<lambda>type_dev.
     bindR (argint c 2 s) (\<lambda>major.
     bindR (argint c 3 s) (\<lambda>minor.
     bindR (iget 1 1 s) (\<lambda>(dp, s1).
     bindR (mknod dp dev_name T_DEV (word_of_int major) (word_of_int minor) s1) (\<lambda>(nip, s2).
       Inr (0, iput nip (iput dp s2))))))))"

definition sys_unlink :: "nat \<Rightarrow> 'a fdt_scheme \<Rightarrow> (int \<times> 'a fdt_scheme) result" where
  "sys_unlink c s =
     bindR (argbytes c 0 DIRSIZ (int DIRSIZ) s) (\<lambda>file_name.
     bindR (namei file_name s) (\<lambda>(r, s1).
     case r of None \<Rightarrow> Inl NullDeref
     | Some ip \<Rightarrow>
       let s2 = upd_inode ip (\<lambda>n. n\<lparr>i_nlink := i_nlink n - 1\<rparr>) s1 in
       if sint (i_nlink (inodes s2 ! ip)) \<le> 0 then Inl (Panic ''sys_unlink: unimplement'')
       else bindR (iupdate ip s2) (\<lambda>s3. Inr (0, iput ip s3))))"

section \<open>The console\<close>

definition sys_cons_putc :: "nat \<Rightarrow> 'a fdt_scheme \<Rightarrow> (int \<times> 'a fdt_scheme) result" where
  "sys_cons_putc c s = bindR (argraw c 0 s) (\<lambda>a. Inr (0, consputc a s))"

text \<open>The array is cleared first; \<^verbatim>\<open>printf\<close> stops at the first 0, and runs past the array without one.\<close>

definition sys_cons_puts :: "nat \<Rightarrow> 'a fdt_scheme \<Rightarrow> (int \<times> 'a fdt_scheme) result" where
  "sys_cons_puts c s =
     bindR (argint c 1 s) (\<lambda>i.
     bindR (argbytes c 0 256 i s) (\<lambda>buf.
     if length buf = 256 \<and> 0 \<notin> set buf then Inl OutOfBounds
     else Inr (0, fold (\<lambda>b. consputc (uint b)) (takeWhile (\<lambda>b. b \<noteq> 0) buf) s)))"

section \<open>Dispatch\<close>

text \<open>\<^verbatim>\<open>sys_exit\<close> does not return, so nothing is stored in \<open>x0\<close> for it.\<close>

definition dispatch :: "kenv \<Rightarrow> nat \<Rightarrow> int \<Rightarrow> 'a fdt_scheme \<Rightarrow> (int \<times> 'a fdt_scheme) result" where
  "dispatch k c call_num s =
     (if call_num = 1 then sys_fork k c s
      else if call_num = 3 then sys_wait k c s
      else if call_num = 4 then sys_cons_putc c s
      else if call_num = 5 then sys_pipe c s
      else if call_num = 6 then sys_write k c s
      else if call_num = 7 then sys_read c s
      else if call_num = 8 then sys_close k c s
      else if call_num = 10 then sys_kill c s
      else if call_num = 11 then sys_panic s
      else if call_num = 12 then sys_cons_puts c s
      else if call_num = 13 then sys_exec k c s
      else if call_num = 14 then sys_open c s
      else if call_num = 15 then sys_mknod c s
      else if call_num = 16 then sys_unlink c s
      else Inl (Panic ''syscall''))"

definition syscall :: "kenv \<Rightarrow> nat \<Rightarrow> 'a fdt_scheme \<Rightarrow> 'a fdt_scheme result" where
  "syscall k c s =
     (case myproc c s of None \<Rightarrow> Inl NullDeref
      | Some cp \<Rightarrow>
          let call_num = sint (ucast (load64 (mem s) (unat (p_tf (procs s ! cp)) + tf_x 8)) :: u32) in
          if call_num = 2 then sys_exit k c s
          else bindR (dispatch k c call_num s) (\<lambda>(ret, s1).
            Inr (s1\<lparr>mem := store64 (mem s1) (unat (p_tf (procs s1 ! cp)) + tf_x 0) (word_of_int ret)\<rparr>)))"

end
