(* ===== verification/Trap.thy ===== *)
theory Trap
  imports Syscall
begin

text \<open>
  Traps and the way back to user mode, \<^verbatim>\<open>kernel/trap.c\<close>, with \<^verbatim>\<open>forkret\<close> of \<^verbatim>\<open>kernel/proc.c\<close> and
  \<^verbatim>\<open>timerinit\<close> of \<^verbatim>\<open>kernel/timer.c\<close>. The state \<open>trapst\<close> adds the system registers of the processor
  the code runs on, the interrupt the controller has pending, the interrupts ended so far, and the
  static variable \<^verbatim>\<open>first\<close> of \<^verbatim>\<open>forkret\<close>.
\<close>

section \<open>Registers\<close>

record trapst = fdt +
  ttbr0_el1 :: u64
  vbar_el1 :: u64
  spsr_el1 :: u64
  sp_el0 :: u64
  elr_el1 :: u64
  esr_el1 :: u64
  cntpct_el0 :: u64
  cntp_cval_el0 :: u64
  cntp_ctl_el0 :: u64
  gicc_iar :: u32
  gicc_eoir :: "u32 list"
  first :: bool
  ttbr1_el1 :: u64
  tcr_el1 :: u64
  mair_el1 :: u64
  sctlr_el1 :: u64
  irqs_on :: bool

record tenv = kenv +
  k_uservec :: u64
  k_kernelvec :: u64
  k_init :: u64

abbreviation (input) PL011_IRQ :: u32 where "PL011_IRQ \<equiv> 153"
abbreviation (input) TIMER_IRQ :: u32 where "TIMER_IRQ \<equiv> 30"

text \<open>The inline functions of \<^verbatim>\<open>include/arm.h\<close> that read and write them.\<close>

definition r_elr_el1 :: "'a trapst_scheme \<Rightarrow> u64" where
  [simp]: "r_elr_el1 s = elr_el1 s"

definition r_sp_el0 :: "'a trapst_scheme \<Rightarrow> u64" where
  [simp]: "r_sp_el0 s = sp_el0 s"

definition r_ttbr0_el1 :: "'a trapst_scheme \<Rightarrow> u64" where
  [simp]: "r_ttbr0_el1 s = ttbr0_el1 s"

definition r_esr_el1 :: "'a trapst_scheme \<Rightarrow> u64" where
  [simp]: "r_esr_el1 s = esr_el1 s"

definition r_cntpct_el0 :: "'a trapst_scheme \<Rightarrow> u64" where
  [simp]: "r_cntpct_el0 s = cntpct_el0 s"

definition w_spsr_el1 :: "u64 \<Rightarrow> 'a trapst_scheme \<Rightarrow> 'a trapst_scheme" where
  [simp]: "w_spsr_el1 x s = s\<lparr>spsr_el1 := x\<rparr>"

definition w_elr_el1 :: "u64 \<Rightarrow> 'a trapst_scheme \<Rightarrow> 'a trapst_scheme" where
  [simp]: "w_elr_el1 x s = s\<lparr>elr_el1 := x\<rparr>"

definition w_sp_el0 :: "u64 \<Rightarrow> 'a trapst_scheme \<Rightarrow> 'a trapst_scheme" where
  [simp]: "w_sp_el0 x s = s\<lparr>sp_el0 := x\<rparr>"

definition w_ttbr0_el1 :: "u64 \<Rightarrow> 'a trapst_scheme \<Rightarrow> 'a trapst_scheme" where
  [simp]: "w_ttbr0_el1 x s = s\<lparr>ttbr0_el1 := x\<rparr>"

definition w_vbar_el1 :: "u64 \<Rightarrow> 'a trapst_scheme \<Rightarrow> 'a trapst_scheme" where
  [simp]: "w_vbar_el1 x s = s\<lparr>vbar_el1 := x\<rparr>"

definition w_cntp_cval_el0 :: "u64 \<Rightarrow> 'a trapst_scheme \<Rightarrow> 'a trapst_scheme" where
  [simp]: "w_cntp_cval_el0 x s = s\<lparr>cntp_cval_el0 := x\<rparr>"

definition w_cntp_ctl_el0 :: "u64 \<Rightarrow> 'a trapst_scheme \<Rightarrow> 'a trapst_scheme" where
  [simp]: "w_cntp_ctl_el0 x s = s\<lparr>cntp_ctl_el0 := x\<rparr>"

section \<open>Turning on translation and traps\<close>

text \<open>\<^verbatim>\<open>enable_mmu\<close> of \<^verbatim>\<open>kernel/mmu.S\<close> writes its four arguments and sets the first bit of the control register.\<close>

definition enable_mmu :: "u64 \<Rightarrow> u64 \<Rightarrow> u64 \<Rightarrow> u64 \<Rightarrow> 'a trapst_scheme \<Rightarrow> 'a trapst_scheme" where
  "enable_mmu ttbr0 ttbr1 tcr mair s =
     s\<lparr>ttbr0_el1 := ttbr0, ttbr1_el1 := ttbr1, tcr_el1 := tcr, mair_el1 := mair, sctlr_el1 := sctlr_el1 s OR 1\<rparr>"

text \<open>
  The macros of the translation control register but the last are of type \<^verbatim>\<open>int\<close>; \<^verbatim>\<open>TCR_TG1(0b10)\<close> sets the
  sign bit, and the conversion for \<^verbatim>\<open>TCR_IPS\<close>, of type \<^verbatim>\<open>uint64\<close>, extends the sign.
\<close>

definition tcr_value :: u64 where
  "tcr_value = scast (((25 AND 0x3F) OR push_bit 16 (25 AND 0x3F) OR push_bit 14 (0 AND 3) OR push_bit 30 (2 AND 3)) :: u32) OR
     push_bit 32 (0 AND 7)"

definition kvminithart :: "u64 \<Rightarrow> 'a trapst_scheme \<Rightarrow> 'a trapst_scheme" where
  "kvminithart kernel_pagetable s =
     enable_mmu kernel_pagetable 0 tcr_value (ucast ((push_bit (8 * 0) 0 OR push_bit (8 * 1) 0xFF) :: u32)) s"

definition trapinithart :: "'b tenv_scheme \<Rightarrow> u64 \<Rightarrow> 'a trapst_scheme \<Rightarrow> 'a trapst_scheme" where
  "trapinithart k kernel_pagetable s = (w_vbar_el1 (k_kernelvec k) (w_ttbr0_el1 kernel_pagetable s))\<lparr>irqs_on := True\<rparr>"

text \<open>
  The address size fields of the translation control register are as meant, 39 bits for both halves,
  but the extended sign fills its upper half: the field for the size of physical addresses, which
  \<^verbatim>\<open>TCR_IPS(0)\<close> means to be 0, is 7.
\<close>

lemma tcr_sign_extended: "tcr_value = 0xFFFFFFFF80190019" "drop_bit 32 tcr_value AND 7 = 7"
  by (simp_all add: tcr_value_def signed_take_bit_eq_if_positive)

section \<open>Returning to user mode\<close>

definition prepare_return :: "'b tenv_scheme \<Rightarrow> nat \<Rightarrow> 'a trapst_scheme \<Rightarrow> 'a trapst_scheme result" where
  "prepare_return k c s =
     bindR (cur c s) (\<lambda>p.
       let tf = unat (p_tf p);
         m1 = store64 (mem s) (tf + tf_kernel_ttbr) (r_ttbr0_el1 s);
         m2 = store64 m1 (tf + tf_kernel_sp) (p_kstack p + PGSIZE)
       in Inr (w_elr_el1 (load64 m2 (tf + tf_elr_el1))
           (w_sp_el0 (load64 m2 (tf + tf_sp_el0))
           (w_spsr_el1 (push_bit 6 5 OR 0)
           (w_vbar_el1 (TRAMPOLINE + (k_uservec k - k_trampoline k)) (s\<lparr>mem := m2\<rparr>))))))"

text \<open>
  \<^verbatim>\<open>forkret\<close> up to the jump into the trampoline; it returns the page table the jump passes. The
  argument strings of the first program lie at \<open>k_init\<close>, in the kernel's data.
\<close>

definition forkret :: "'b tenv_scheme \<Rightarrow> nat \<Rightarrow> 'a trapst_scheme \<Rightarrow> (u64 \<times> 'a trapst_scheme) result" where
  "forkret k c s =
     bindR (if first s
        then bindR (kexec (k_trampoline k) c [105, 110, 105, 116] [k_init k] (s\<lparr>first := False\<rparr>)) (\<lambda>(_, s1). Inr s1)
        else Inr s) (\<lambda>s1.
     bindR (prepare_return k c s1) (\<lambda>s2.
     bindR (cur c s2) (\<lambda>p. Inr (p_pagetable p, s2))))"

section \<open>Traps\<close>

definition timer_restart :: "u64 \<Rightarrow> 'a trapst_scheme \<Rightarrow> 'a trapst_scheme" where
  "timer_restart interval s = w_cntp_cval_el0 (r_cntpct_el0 s + interval) s"

definition timerinit :: "'a trapst_scheme \<Rightarrow> 'a trapst_scheme" where
  "timerinit s = w_cntp_ctl_el0 1 (timer_restart 30000000 s)"

definition end_irq :: "u32 \<Rightarrow> 'a trapst_scheme \<Rightarrow> 'a trapst_scheme" where
  "end_irq irq s = s\<lparr>gicc_eoir := gicc_eoir s @ [irq]\<rparr>"

definition kerneltrap :: "int \<Rightarrow> 'a trapst_scheme \<Rightarrow> 'a trapst_scheme result" where
  "kerneltrap type s =
     (if type = 4 then Inl (Panic ''GET KERNEL TRAP SYNC_INVALID_EL1h'')
      else if type = 5 then
        (let irq = gicc_iar s AND 0x3FF in
         if irq = PL011_IRQ then Inr (end_irq irq (pl011_uart_intr s))
         else if irq = TIMER_IRQ then Inr (end_irq irq (timer_restart 100000000 s))
         else Inl (Panic ''unhandled kernel irq''))
      else Inl (Panic ''unhandled kernel irq''))"

text \<open>
  \<^verbatim>\<open>usertrap\<close>: \<open>Some pt\<close> when it returns, with the page table of the process; \<open>None\<close> when the
  processor is given away in its middle, by \<^verbatim>\<open>yield\<close> or by an exit. What is left to do when a
  process that yielded runs again is \<open>usertrap_resume\<close>.
\<close>

definition usertrap_resume :: "'b tenv_scheme \<Rightarrow> nat \<Rightarrow> nat \<Rightarrow> 'a trapst_scheme \<Rightarrow> (u64 \<times> 'a trapst_scheme) result" where
  "usertrap_resume k c p s = bindR (prepare_return k c s) (\<lambda>s1. Inr (p_pagetable (procs s1 ! p), s1))"

definition usertrap :: "'b tenv_scheme \<Rightarrow> nat \<Rightarrow> int \<Rightarrow> 'a trapst_scheme \<Rightarrow> (u64 option \<times> 'a trapst_scheme) result" where
  "usertrap k c type s =
     (case myproc c s of None \<Rightarrow> Inl NullDeref
      | Some p \<Rightarrow>
     let tf = unat (p_tf (procs s ! p));
       m1 = store64 (mem s) (tf + tf_elr_el1) (r_elr_el1 s);
       m2 = store64 m1 (tf + tf_sp_el0) (r_sp_el0 s);
       s1 = w_vbar_el1 (k_kernelvec k) (s\<lparr>mem := m2\<rparr>);
       back = (\<lambda>s. bindR (usertrap_resume k c p s) (\<lambda>(pt, s'). Inr (Some pt, s')))
     in
     if type = 8 then
       (let ec = drop_bit 26 (r_esr_el1 s1) AND 0x3F in
        if ec = 0x15 then
          bindR (syscall (kenv.truncate k) c s1) (\<lambda>s2.
            if p_state (procs s2 ! p) = ZOMBIE then Inr (None, s2) else back s2)
        else back s1)
     else if type = 9 then
       (let irq = gicc_iar s1 AND 0x3FF in
        if irq = PL011_IRQ then back (end_irq irq (pl011_uart_intr s1))
        else if irq = TIMER_IRQ then bindR (yield c (end_irq irq (timer_restart 100000000 s1))) (\<lambda>s2. Inr (None, s2))
        else Inl (Panic ''unhandled user irq''))
     else back s1)"

section \<open>An interrupt of the serial port\<close>

text \<open>What reading the serial port leaves: the memory, the registers, and of a process all but its state.\<close>

definition same_frame :: "'a trapst_scheme \<Rightarrow> 'a trapst_scheme \<Rightarrow> bool" where
  "same_frame s t \<longleftrightarrow> mem t = mem s \<and> cpu_proc t = cpu_proc s \<and> length (procs t) = length (procs s) \<and>
     (\<forall>i < length (procs s). p_tf (procs t ! i) = p_tf (procs s ! i) \<and> p_kstack (procs t ! i) = p_kstack (procs s ! i) \<and>
        p_pagetable (procs t ! i) = p_pagetable (procs s ! i)) \<and>
     ttbr0_el1 t = ttbr0_el1 s \<and> elr_el1 t = elr_el1 s \<and> sp_el0 t = sp_el0 s \<and> gicc_eoir t = gicc_eoir s"

lemma same_frame_trans: "same_frame s t \<Longrightarrow> same_frame t u \<Longrightarrow> same_frame s u"
  by (simp add: same_frame_def)

lemma same_frame_key: "same_frame s (consoleintr c s)"
  by (auto simp: same_frame_def consoleintr_def Let_def wakeup_def wakeup_proc_def)

lemma same_frame_char: "pl011_uart_get_char s = (c, s1) \<Longrightarrow> same_frame s s1"
  by (auto simp: same_frame_def pl011_uart_get_char_def split: list.splits)

lemma same_frame_uart_loop: "same_frame s (pl011_uart_intr_loop s)"
proof (induction s rule: pl011_uart_intr_loop.induct)
  case (1 s)
  obtain c s1 where r: "pl011_uart_get_char s = (c, s1)" by fastforce
  show ?case
  proof (cases "c = - 1")
    case True
    then show ?thesis using same_frame_char [OF r] by (subst pl011_uart_intr_loop.simps) (simp add: r)
  next
    case False
    have "same_frame (consoleintr (word_of_int c) s1) (pl011_uart_intr_loop (consoleintr (word_of_int c) s1))"
      by (rule "1.IH" [OF r [symmetric] False])
    then have "same_frame s (pl011_uart_intr_loop (consoleintr (word_of_int c) s1))"
      by (rule same_frame_trans [OF same_frame_trans [OF same_frame_char [OF r] same_frame_key]])
    then show ?thesis using False by (subst pl011_uart_intr_loop.simps) (simp add: r)
  qed
qed

lemma same_frame_uart: "same_frame s (pl011_uart_intr s)"
  using same_frame_uart_loop [of s] by (simp add: same_frame_def pl011_uart_intr_def Let_def)

text \<open>
  C37. An interrupt of the serial port that is taken in user mode goes back to the instruction and the
  stack it interrupted: \<^verbatim>\<open>usertrap\<close> returns the page table of the process with the saved program
  counter and stack pointer in the registers, user mode with interrupts of the timer and the
  devices unmasked in the saved state, the trap vector in the trampoline and the interrupt ended,
  and it changes no register of the program in the trap frame.
\<close>

theorem usertrap_uart_resumes:
  assumes "myproc c s = Some p" and "p < length (procs s)" and "gicc_iar s AND 0x3FF = PL011_IRQ"
  shows "\<exists>s'. usertrap k c 9 s = Inr (Some (p_pagetable (procs s ! p)), s') \<and> elr_el1 s' = elr_el1 s \<and> sp_el0 s' = sp_el0 s \<and>
    spsr_el1 s' = 0x140 \<and> vbar_el1 s' = TRAMPOLINE + (k_uservec k - k_trampoline k) \<and> gicc_eoir s' = gicc_eoir s @ [PL011_IRQ] \<and>
    (\<forall>i < 31. load64 (mem s') (unat (p_tf (procs s ! p)) + tf_x i) = load64 (mem s) (unat (p_tf (procs s ! p)) + tf_x i))"
proof -
  let ?tf = "unat (p_tf (procs s ! p))"
  let ?m = "store64 (store64 (mem s) (?tf + tf_elr_el1) (elr_el1 s)) (?tf + tf_sp_el0) (sp_el0 s)"
  let ?s1 = "s\<lparr>mem := ?m, vbar_el1 := k_kernelvec k\<rparr>"
  let ?s2 = "pl011_uart_intr ?s1"
  have f: "same_frame ?s1 ?s2" by (rule same_frame_uart)
  have my: "cpu_proc s c = Some p" using assms(1) by (simp add: myproc_def)
  have "load64 (store64 (store64 ?m (?tf + tf_kernel_ttbr) x) (?tf + tf_kernel_sp) y) (?tf + tf_x i) = load64 (mem s) (?tf + tf_x i)"
    if "i < 31" for i x y
    using that by (simp add: load_store_disjoint tf_x_def)
  then show ?thesis
    using f assms my
    by (auto simp: usertrap_def usertrap_resume_def prepare_return_def cur_def same_frame_def myproc_def Let_def end_irq_def load_simps)
qed

definition demo_trap :: trapst where
  "demo_trap = \<lparr>mem = (\<lambda>_. 0), freelist = 0, procs = [idle_proc\<lparr>p_tf := 0x9000, p_pagetable := 0xA000\<rparr>], nextpid = 2,
     cpu_proc = (\<lambda>_. Some 0), initproc = None, bufs = [], disk = (\<lambda>_ _. 0), inodes = [], cons_buf = replicate 128 0,
     cons_r = 0, cons_w = 0, uart_out = [], uart_in = [104, 13], uart_icr = 0, fds = [],
     ttbr0_el1 = 0xB000, vbar_el1 = 0, spsr_el1 = 0, sp_el0 = 0x4000, elr_el1 = 0x1234, esr_el1 = 0, cntpct_el0 = 0,
     cntp_cval_el0 = 0, cntp_ctl_el0 = 0, gicc_iar = 153, gicc_eoir = [], first = False, ttbr1_el1 = 0, tcr_el1 = 0,
     mair_el1 = 0, sctlr_el1 = 1, irqs_on = False\<rparr>"

definition demo_tenv :: tenv where
  "demo_tenv = \<lparr>k_end = 0x100000, k_trampoline = 0x82000, k_forkret = 0x80100, k_buf = 0x90000, k_pid = 0, k_fd = 0,
     k_uservec = 0x82080, k_kernelvec = 0x81000, k_init = 0x90400\<rparr>"

theorem usertrap_uart_resumes_witness:
  "\<exists>s'. usertrap demo_tenv 0 9 demo_trap = Inr (Some 0xA000, s') \<and> elr_el1 s' = 0x1234 \<and> sp_el0 s' = 0x4000 \<and> gicc_eoir s' = [153]"
proof -
  have "myproc 0 demo_trap = Some 0" "0 < length (procs demo_trap)" "gicc_iar demo_trap AND 0x3FF = PL011_IRQ"
    by (simp_all add: demo_trap_def myproc_def)
  from usertrap_uart_resumes [OF this, of demo_tenv] show ?thesis by (auto simp: demo_trap_def)
qed

end
