(* ===== verification/Mmio.thy ===== *)
theory Mmio
  imports Prelude "HOL-Library.State_Monad"
begin

text \<open>
  Registers of devices. The headers describe the registers of a device as a structure of
  \<^verbatim>\<open>int\<close> fields, some of them arrays; \<open>field_off\<close> is the offset the C compiler gives a field. The
  structures below are those of \<^verbatim>\<open>include/gicv2.h\<close> and \<^verbatim>\<open>include/uart.h\<close>, field by field.

  A device is not part of the program: it is an argument with a function for reads and one for
  writes of a register, by address. Programs are in the state monad, over the state of the devices
  and the interrupt mask of the processor.
\<close>

section \<open>Structures of registers\<close>

type_synonym layout = "(string \<times> nat) list"

fun field_off :: "layout \<Rightarrow> string \<Rightarrow> nat" where
  "field_off [] f = 0"
| "field_off ((g, n) # fs) f = (if f = g then 0 else 4 * n + field_off fs f)"

definition gicd_regs :: layout where
  "gicd_regs = [(''GICD_CTLR'', 1), (''GICD_TYPER'', 1), (''GICD_IIDR'', 1), (''Reserve0'', 29),
     (''GICD_IGROUPR'', 15), (''Reserve1'', 17), (''GICD_ISENABLER'', 15), (''Reserve2'', 17),
     (''GICD_ICENABLER'', 15), (''Reserve3'', 17), (''GICD_ISPENDR'', 15), (''Reserve4'', 17),
     (''GICD_ICPENDR'', 15), (''Reserve5'', 17), (''GICD_ISACTIVER'', 15), (''Reserve6'', 17),
     (''GICD_ICACTIVER'', 15), (''Reserve7'', 17), (''GICD_IPRIORITYR'', 127), (''Reserve8'', 129),
     (''GICD_ITARGETSR'', 127), (''Reserve9'', 129), (''GICD_ICFGR'', 31), (''Reserve10'', 33),
     (''GICD_PPISR'', 1), (''GICD_SPISR'', 14), (''Reserve11'', 113), (''GICD_SGIR'', 1), (''Reserve12'', 3),
     (''GICD_CPENDSGIR'', 4), (''GICD_SPENDSGIR'', 4), (''Reserve13'', 40), (''GICD_PIDR4'', 1), (''GICD_PIDR5'', 1),
     (''GICD_PIDR6'', 1), (''GICD_PIDR7'', 1), (''GICD_PIDR0'', 1), (''GICD_PIDR1'', 1), (''GICD_PIDR2'', 1),
     (''GICD_PIDR3'', 1), (''GICD_CIDR0'', 1), (''GICD_CIDR1'', 1), (''GICD_CIDR2'', 1), (''GICD_CIDR3'', 1)]"

definition gicc_regs :: layout where
  "gicc_regs = [(''GICC_CTLR'', 1), (''GICC_PMR'', 1), (''GICC_BPR'', 1), (''GICC_IAR'', 1), (''GICC_EOIR'', 1),
     (''GICC_RPR'', 1), (''GICC_HPPIR'', 1), (''GICC_ABPR'', 1), (''GICC_AIAR'', 1), (''GICC_AEOIR'', 1),
     (''GICC_AHPPIR'', 1), (''Reserve1'', 41), (''GICC_APR0'', 1), (''Reserve2'', 3), (''GICC_NSAPR0'', 1),
     (''Rserve3'', 6), (''GICC_IIDR'', 1), (''Rserve4'', 960), (''GICC_DIR'', 1)]"

definition gpio_struct :: layout where
  "gpio_struct = [(''GPFSEL'', 7), (''GPSET'', 2), (''GPCLR'', 2), (''GPLEV'', 2), (''GPEDS'', 2), (''GPREN'', 2),
     (''GPFEN'', 2), (''GPHEN'', 2), (''GPLEN'', 2), (''GPAREN'', 2), (''GPAFEN'', 2), (''GPIO_PUP_PDN_CNTRL_REG'', 3)]"

definition aux_mu_reg :: layout where
  "aux_mu_reg = [(''AUX_IRQ'', 1), (''AUX_ENABLES'', 1), (''Reserve'', 14), (''AUX_MU_IO_REG'', 1), (''AUX_MU_IER_REG'', 1),
     (''AUX_MU_IIR_REG'', 1), (''AUX_MU_LCR_REG'', 1), (''AUX_MU_MCR_REG'', 1), (''AUX_MU_LSR_REG'', 1),
     (''AUX_MU_MSR_REG'', 1), (''AUX_MU_SCRATCH'', 1), (''AUX_MU_CNTL_REG'', 1), (''AUX_MU_STAT_REG'', 1),
     (''AUX_MU_BAUD_REG'', 1)]"

definition pl011_reg :: layout where
  "pl011_reg = [(''DR'', 1), (''RSRECR'', 5), (''FR'', 1), (''Reserv1'', 1), (''ILPR'', 1), (''IBRD'', 1), (''FBRD'', 1),
     (''LCRH'', 1), (''CR'', 1), (''IFLS'', 1), (''IMSC'', 1), (''RIS'', 1), (''MIS'', 1), (''ICR'', 1), (''DMACR'', 1),
     (''Rserve2'', 15), (''ITCR'', 1), (''ITIP'', 1), (''ITOP'', 1), (''TDR'', 1)]"

section \<open>Access\<close>

record 'h mmio =
  mm_rd :: "u64 \<Rightarrow> 'h \<Rightarrow> u32 \<times> 'h"
  mm_wr :: "u64 \<Rightarrow> u32 \<Rightarrow> 'h \<Rightarrow> 'h"

record 'h devst =
  dv_h :: 'h
  dv_irqs :: bool

type_synonym ('h, 'a) devm = "('h devst, 'a) state"

text \<open>The address of element \<open>i\<close> of a field, in the structure at \<open>base\<close>.\<close>

definition reg :: "u64 \<Rightarrow> layout \<Rightarrow> string \<Rightarrow> nat \<Rightarrow> u64" where
  "reg base fs f i = base + of_nat (field_off fs f + 4 * i)"

definition rdr :: "'h mmio \<Rightarrow> u64 \<Rightarrow> ('h, u32) devm" where
  "rdr hw a = State (\<lambda>s. case mm_rd hw a (dv_h s) of (v, h) \<Rightarrow> (v, s\<lparr>dv_h := h\<rparr>))"

definition wrr :: "'h mmio \<Rightarrow> u64 \<Rightarrow> u32 \<Rightarrow> ('h, unit) devm" where
  "wrr hw a v = State (\<lambda>s. ((), s\<lparr>dv_h := mm_wr hw a v (dv_h s)\<rparr>))"

text \<open>\<^verbatim>\<open>r &= m;\<close> and \<^verbatim>\<open>r |= m;\<close> read the register and write it back.\<close>

definition andr :: "'h mmio \<Rightarrow> u64 \<Rightarrow> u32 \<Rightarrow> ('h, unit) devm" where
  "andr hw a m = do { v \<leftarrow> rdr hw a; wrr hw a (v AND m) }"

definition orr :: "'h mmio \<Rightarrow> u64 \<Rightarrow> u32 \<Rightarrow> ('h, unit) devm" where
  "orr hw a m = do { v \<leftarrow> rdr hw a; wrr hw a (v OR m) }"

definition intr_on :: "('h, unit) devm" where
  "intr_on = State (\<lambda>s. ((), s\<lparr>dv_irqs := True\<rparr>))"

section \<open>The offsets\<close>

text \<open>
  The distributor and the processor interface of the interrupt controller have their registers
  where the comments of the header (and the architecture) say, the serial ports up to \<^verbatim>\<open>DMACR\<close>.
\<close>

lemma gicd_offsets:
  "field_off gicd_regs ''GICD_ISENABLER'' = 0x100" "field_off gicd_regs ''GICD_ICENABLER'' = 0x180"
  "field_off gicd_regs ''GICD_ISPENDR'' = 0x200" "field_off gicd_regs ''GICD_IPRIORITYR'' = 0x400"
  "field_off gicd_regs ''GICD_ITARGETSR'' = 0x800" "field_off gicd_regs ''GICD_ICFGR'' = 0xC00"
  "field_off gicd_regs ''GICD_SGIR'' = 0xF00" "field_off gicd_regs ''GICD_SPENDSGIR'' = 0xF20"
  "field_off gicd_regs ''GICD_PIDR4'' = 0xFD0" "field_off gicd_regs ''GICD_CIDR3'' = 0xFFC"
  "field_off gicd_regs ''GICD_CTLR'' = 0" "field_off gicd_regs ''GICD_TYPER'' = 4"
  by (simp_all add: gicd_regs_def)

lemma gicc_offsets:
  "field_off gicc_regs ''GICC_CTLR'' = 0" "field_off gicc_regs ''GICC_PMR'' = 4" "field_off gicc_regs ''GICC_IAR'' = 0xC"
  "field_off gicc_regs ''GICC_EOIR'' = 0x10" "field_off gicc_regs ''GICC_APR0'' = 0xD0"
  "field_off gicc_regs ''GICC_IIDR'' = 0xFC" "field_off gicc_regs ''GICC_DIR'' = 0x1000"
  by (simp_all add: gicc_regs_def)

text \<open>
  Two structures do not fit the devices: the reserved words of the PL011 are two too many, so that
  \<^verbatim>\<open>TDR\<close> lies at 0x94 instead of 0x8C, and the structure of the GPIO block has none of its reserved
  words, so that the pull-up registers lie at 0x6C instead of 0xE4.
\<close>

lemma uart_offsets:
  "field_off pl011_reg ''FR'' = 0x18" "field_off pl011_reg ''IMSC'' = 0x38" "field_off pl011_reg ''ICR'' = 0x44"
  "field_off pl011_reg ''TDR'' = 0x94" "field_off gpio_struct ''GPIO_PUP_PDN_CNTRL_REG'' = 0x6C"
  "field_off aux_mu_reg ''AUX_MU_IO_REG'' = 0x40" "field_off aux_mu_reg ''AUX_MU_BAUD_REG'' = 0x68"
  by (simp_all add: pl011_reg_def gpio_struct_def aux_mu_reg_def)

end
