(* ===== verification/Devices.thy ===== *)
theory Devices
  imports Mmio
begin

text \<open>
  The interrupt controller, \<^verbatim>\<open>kernel/gicv2.c\<close>, and the initialisation of the serial ports,
  \<^verbatim>\<open>kernel/pl011_uart.c\<close> and \<^verbatim>\<open>kernel/mini_uart.c\<close>, as sequences of accesses to the registers of \<open>Mmio\<close>.
  Sending and receiving on the PL011 is part of \<open>Console\<close>. Messages are left out, but not the
  reads of registers they print.

  The property is about the interrupt controller: on one that behaves as its architecture says,
  \<^verbatim>\<open>gic_init\<close> makes exactly the interrupts of the serial port and of the timer deliverable.
\<close>

abbreviation (input) GPIO_BASE :: u64 where "GPIO_BASE \<equiv> 0xFE200000"
abbreviation (input) AUX_BASE :: u64 where "AUX_BASE \<equiv> 0xFE215000"
abbreviation (input) PL011_BASE :: u64 where "PL011_BASE \<equiv> 0xFE201000"
abbreviation (input) GICD_BASE :: u64 where "GICD_BASE \<equiv> 0xFF841000"
abbreviation (input) GICC_BASE :: u64 where "GICC_BASE \<equiv> 0xFF842000"
abbreviation (input) PL011_INT :: nat where "PL011_INT \<equiv> 153"
abbreviation (input) TIMER_INT :: nat where "TIMER_INT \<equiv> 30"

definition gicd :: "string \<Rightarrow> nat \<Rightarrow> u64" where "gicd f i = reg GICD_BASE gicd_regs f i"
definition gicc :: "string \<Rightarrow> u64" where "gicc f = reg GICC_BASE gicc_regs f 0"
definition gpio :: "string \<Rightarrow> nat \<Rightarrow> u64" where "gpio f i = reg GPIO_BASE gpio_struct f i"
definition aux_mu_regs :: "string \<Rightarrow> u64" where "aux_mu_regs f = reg AUX_BASE aux_mu_reg f 0"
definition pl011_regs :: "string \<Rightarrow> u64" where "pl011_regs f = reg PL011_BASE pl011_reg f 0"

section \<open>The interrupt controller\<close>

text \<open>The field of an interrupt in a register with four interrupts of a byte each.\<close>

definition irq_byte :: "u32 \<Rightarrow> nat \<Rightarrow> u32" where
  "irq_byte v irq = push_bit (irq mod 4 * 8) v"

definition gic_init :: "'h mmio \<Rightarrow> ('h, unit) devm" where
  "gic_init hw = do {
     wrr hw (gicd ''GICD_CTLR'' 0) 0;
     _ \<leftarrow> rdr hw (gicd ''GICD_TYPER'' 0);
     wrr hw (gicd ''GICD_ISENABLER'' (PL011_INT div 32)) (push_bit (PL011_INT mod 32) 1);
     wrr hw (gicd ''GICD_ISENABLER'' (TIMER_INT div 32)) (push_bit (TIMER_INT mod 32) 1);
     andr hw (gicd ''GICD_IPRIORITYR'' (PL011_INT div 4)) (NOT (irq_byte 0xFF PL011_INT));
     andr hw (gicd ''GICD_IPRIORITYR'' (TIMER_INT div 4)) (NOT (irq_byte 0xFF TIMER_INT));
     andr hw (gicd ''GICD_ITARGETSR'' (PL011_INT div 4)) (NOT (irq_byte 0xFF PL011_INT));
     orr hw (gicd ''GICD_ITARGETSR'' (PL011_INT div 4)) (irq_byte 1 PL011_INT);
     andr hw (gicd ''GICD_ITARGETSR'' (TIMER_INT div 4)) (NOT (irq_byte 0xFF TIMER_INT));
     orr hw (gicd ''GICD_ITARGETSR'' (TIMER_INT div 4)) (irq_byte 1 TIMER_INT);
     wrr hw (gicc ''GICC_CTLR'') 1;
     wrr hw (gicd ''GICD_CTLR'' 0) 1;
     wrr hw (gicc ''GICC_PMR'') 0xFF;
     _ \<leftarrow> rdr hw (gicd ''GICD_CTLR'' 0);
     _ \<leftarrow> rdr hw (gicc ''GICC_CTLR'');
     intr_on
   }"

definition write_gicd_sgir :: "'h mmio \<Rightarrow> ('h, unit) devm" where
  "write_gicd_sgir hw = do {
     wrr hw (gicd ''GICD_CTLR'' 0) 1;
     wrr hw (gicd ''GICD_ISENABLER'' 0) 0xFFFF;
     wrr hw (gicc ''GICC_CTLR'') 1;
     wrr hw (gicc ''GICC_PMR'') 0xF0;
     intr_on;
     _ \<leftarrow> rdr hw (gicd ''GICD_TYPER'' 0);
     _ \<leftarrow> rdr hw (gicd ''GICD_IIDR'' 0);
     _ \<leftarrow> rdr hw (gicd ''GICD_ISPENDR'' 0);
     wrr hw (gicd ''GICD_SGIR'' 0) (push_bit 16 1)
   }"

section \<open>The serial ports\<close>

text \<open>Both ports use pins 14 and 15.\<close>

definition uart_pins :: "'h mmio \<Rightarrow> ('h, unit) devm" where
  "uart_pins hw = do {
     andr hw (gpio ''GPFSEL'' 1) (NOT 0x3F000);
     orr hw (gpio ''GPFSEL'' 1) 0x12000;
     andr hw (gpio ''GPIO_PUP_PDN_CNTRL_REG'' 0) (NOT 0xF0000000);
     orr hw (gpio ''GPIO_PUP_PDN_CNTRL_REG'' 0) 0x50000000
   }"

definition pl011_uart_init :: "'h mmio \<Rightarrow> ('h, unit) devm" where
  "pl011_uart_init hw = do {
     uart_pins hw;
     wrr hw (pl011_regs ''CR'') 0;
     wrr hw (pl011_regs ''ICR'') 0x7FF;
     wrr hw (pl011_regs ''IBRD'') 2;
     wrr hw (pl011_regs ''FBRD'') 0xB;
     wrr hw (pl011_regs ''LCRH'') (push_bit 4 7);
     wrr hw (pl011_regs ''CR'') 0x301
   }"

definition pl011_uart_ie :: "'h mmio \<Rightarrow> ('h, unit) devm" where
  "pl011_uart_ie hw = do {
     orr hw (pl011_regs ''IMSC'') (push_bit 4 1);
     _ \<leftarrow> rdr hw (pl011_regs ''IFLS'');
     _ \<leftarrow> rdr hw (pl011_regs ''RIS'');
     State_Monad.return ()
   }"

definition mini_uart_init :: "'h mmio \<Rightarrow> ('h, unit) devm" where
  "mini_uart_init hw = do {
     uart_pins hw;
     wrr hw (aux_mu_regs ''AUX_ENABLES'') 1;
     wrr hw (aux_mu_regs ''AUX_MU_IER_REG'') 0;
     wrr hw (aux_mu_regs ''AUX_MU_CNTL_REG'') 0;
     wrr hw (aux_mu_regs ''AUX_MU_LCR_REG'') 3;
     wrr hw (aux_mu_regs ''AUX_MU_MCR_REG'') 0;
     wrr hw (aux_mu_regs ''AUX_MU_IIR_REG'') 0xC6;
     wrr hw (aux_mu_regs ''AUX_MU_BAUD_REG'') 541;
     wrr hw (aux_mu_regs ''AUX_MU_CNTL_REG'') 3
   }"

text \<open>Waiting for room has no bound; the value is whether the byte was sent within \<open>fuel\<close> looks.\<close>

fun mini_uart_send_char :: "'h mmio \<Rightarrow> nat \<Rightarrow> byte \<Rightarrow> ('h, bool) devm" where
  "mini_uart_send_char hw 0 c = State_Monad.return False"
| "mini_uart_send_char hw (Suc fuel) c = do {
     v \<leftarrow> rdr hw (aux_mu_regs ''AUX_MU_LSR_REG'');
     if v AND 0x20 = 0 then mini_uart_send_char hw fuel c
     else do { wrr hw (aux_mu_regs ''AUX_MU_IO_REG'') (ucast c); State_Monad.return True }
   }"

fun mini_uart_send_text :: "'h mmio \<Rightarrow> nat \<Rightarrow> byte list \<Rightarrow> ('h, bool) devm" where
  "mini_uart_send_text hw fuel [] = State_Monad.return True"
| "mini_uart_send_text hw fuel (c # cs) =
     (if c = 0 then State_Monad.return True
      else do {
        ok \<leftarrow> (if c = 10 then mini_uart_send_char hw fuel 13 else State_Monad.return True);
        if \<not> ok then State_Monad.return False
        else do {
          ok \<leftarrow> mini_uart_send_char hw fuel c;
          if \<not> ok then State_Monad.return False else mini_uart_send_text hw fuel cs
        }
      })"

definition mini_uart_recev :: "'h mmio \<Rightarrow> ('h, int) devm" where
  "mini_uart_recev hw = do {
     v \<leftarrow> rdr hw (aux_mu_regs ''AUX_MU_LSR_REG'');
     if v AND 1 \<noteq> 0 then do { r \<leftarrow> rdr hw (aux_mu_regs ''AUX_MU_IO_REG''); State_Monad.return (sint r) }
     else State_Monad.return (- 1)
   }"

section \<open>What the interrupt controller does\<close>

record gic =
  g_on :: bool
  g_cpu :: bool
  g_pmr :: u32
  g_enabled :: "nat set"
  g_prio :: "nat \<Rightarrow> byte"
  g_target :: "nat \<Rightarrow> byte"

definition byte_of :: "u32 \<Rightarrow> nat \<Rightarrow> byte" where
  "byte_of v j = ucast (drop_bit (8 * j) v)"

definition put4 :: "nat \<Rightarrow> u32 \<Rightarrow> (nat \<Rightarrow> byte) \<Rightarrow> nat \<Rightarrow> byte" where
  "put4 n v f = (\<lambda>i. if i div 4 = n then byte_of v (i mod 4) else f i)"

text \<open>
  The registers as the architecture describes them: setting enable bits leaves the others, the
  priorities and targets of four interrupts share a register, and the targets of the first 32
  interrupts, which are private to a processor, cannot be written.
\<close>

definition gic_ok :: "'h mmio \<Rightarrow> ('h \<Rightarrow> gic) \<Rightarrow> bool" where
  "gic_ok hw gv \<longleftrightarrow>
     (\<forall>f i h. gv (snd (mm_rd hw (gicd f i) h)) = gv h) \<and>
     (\<forall>h. gv (snd (mm_rd hw (gicc ''GICC_CTLR'') h)) = gv h) \<and>
     (\<forall>v h. gv (mm_wr hw (gicd ''GICD_CTLR'' 0) v h) = (gv h)\<lparr>g_on := odd v\<rparr>) \<and>
     (\<forall>v h. gv (mm_wr hw (gicc ''GICC_CTLR'') v h) = (gv h)\<lparr>g_cpu := odd v\<rparr>) \<and>
     (\<forall>v h. gv (mm_wr hw (gicc ''GICC_PMR'') v h) = (gv h)\<lparr>g_pmr := v AND 0xFF\<rparr>) \<and>
     (\<forall>n v h. n < 15 \<longrightarrow> gv (mm_wr hw (gicd ''GICD_ISENABLER'' n) v h) =
        (gv h)\<lparr>g_enabled := g_enabled (gv h) \<union> {32 * n + j | j. j < 32 \<and> bit v j}\<rparr>) \<and>
     (\<forall>n h. n < 127 \<longrightarrow> (\<forall>j < 4. byte_of (fst (mm_rd hw (gicd ''GICD_IPRIORITYR'' n) h)) j = g_prio (gv h) (4 * n + j))) \<and>
     (\<forall>n v h. n < 127 \<longrightarrow> gv (mm_wr hw (gicd ''GICD_IPRIORITYR'' n) v h) = (gv h)\<lparr>g_prio := put4 n v (g_prio (gv h))\<rparr>) \<and>
     (\<forall>n h. n < 127 \<longrightarrow> (\<forall>j < 4. byte_of (fst (mm_rd hw (gicd ''GICD_ITARGETSR'' n) h)) j = g_target (gv h) (4 * n + j))) \<and>
     (\<forall>n v h. n < 127 \<longrightarrow> gv (mm_wr hw (gicd ''GICD_ITARGETSR'' n) v h) =
        (if n < 8 then gv h else (gv h)\<lparr>g_target := put4 n v (g_target (gv h))\<rparr>))"

text \<open>An interrupt that is pending is delivered to the processor that has set up the controller.\<close>

definition delivers :: "gic \<Rightarrow> nat \<Rightarrow> nat \<Rightarrow> bool" where
  "delivers g cpu i \<longleftrightarrow> g_on g \<and> g_cpu g \<and> i \<in> g_enabled g \<and> unat (g_prio g i) < unat (g_pmr g) \<and> (i < 32 \<or> bit (g_target g i) cpu)"

section \<open>Setting up the interrupts\<close>

lemma run_wrr [simp]: "run_state (wrr hw a v) s = ((), s\<lparr>dv_h := mm_wr hw a v (dv_h s)\<rparr>)"
  by (simp add: wrr_def)

lemma run_rdr [simp]: "run_state (rdr hw a) s = (fst (mm_rd hw a (dv_h s)), s\<lparr>dv_h := snd (mm_rd hw a (dv_h s))\<rparr>)"
  by (simp add: rdr_def split: prod.split)

lemma run_intr_on [simp]: "run_state intr_on s = ((), s\<lparr>dv_irqs := True\<rparr>)"
  by (simp add: intr_on_def)

lemma byte_of_clear:
  assumes "j < 4" "k < 4"
  shows "byte_of (v AND NOT (push_bit (8 * k) 0xFF)) j = (if j = k then 0 else byte_of v j)"
proof -
  have m: "(0xFF :: u32) = mask 8" by (simp add: mask_eq_exp_minus_1)
  show ?thesis
    unfolding m by (rule bit_word_eqI) (use assms in \<open>auto simp: byte_of_def bit_simps\<close>)
qed

lemma byte_of_set:
  assumes "j < 4" "k < 4"
  shows "byte_of (v OR 2 ^ (8 * k)) j = (if j = k then byte_of v j OR 1 else byte_of v j)"
  by (rule bit_word_eqI) (use assms in \<open>auto simp: byte_of_def bit_simps\<close>)

lemma put4_clear:
  assumes "\<forall>j < 4. byte_of v j = f (4 * (irq div 4) + j)"
  shows "put4 (irq div 4) (v AND NOT (irq_byte 0xFF irq)) f = f(irq := 0)"
proof
  fix i
  have e: "irq_byte 0xFF irq = push_bit (8 * (irq mod 4)) 0xFF" by (simp add: irq_byte_def mult.commute)
  have "i mod 4 = irq mod 4 \<longleftrightarrow> i = irq" if "i div 4 = irq div 4" using that by (metis div_mult_mod_eq)
  moreover have "4 * (irq div 4) + i mod 4 = i" if "i div 4 = irq div 4" using that by (metis mult_div_mod_eq)
  ultimately show "put4 (irq div 4) (v AND NOT (irq_byte 0xFF irq)) f i = (f(irq := 0)) i"
    using assms unfolding e by (auto simp: put4_def byte_of_clear)
qed

lemma put4_set:
  assumes "\<forall>j < 4. byte_of v j = f (4 * (irq div 4) + j)"
  shows "put4 (irq div 4) (v OR irq_byte 1 irq) f = f(irq := f irq OR 1)"
proof
  fix i
  have e: "irq_byte 1 irq = 2 ^ (8 * (irq mod 4))" by (simp add: irq_byte_def mult.commute)
  have "i mod 4 = irq mod 4 \<longleftrightarrow> i = irq" if "i div 4 = irq div 4" using that by (metis div_mult_mod_eq)
  moreover have "4 * (irq div 4) + i mod 4 = i" if "i div 4 = irq div 4" using that by (metis mult_div_mod_eq)
  ultimately show "put4 (irq div 4) (v OR irq_byte 1 irq) f i = (f(irq := f irq OR 1)) i"
    using assms unfolding e by (auto simp: put4_def byte_of_set)
qed

text \<open>The read-modify-write of the field of one interrupt.\<close>

lemma gic_rmw:
  assumes "gic_ok hw gv" "irq < 508"
  shows "gv (dv_h (snd (run_state (andr hw (gicd ''GICD_IPRIORITYR'' (irq div 4)) (NOT (irq_byte 0xFF irq))) s))) =
      (gv (dv_h s))\<lparr>g_prio := (g_prio (gv (dv_h s)))(irq := 0)\<rparr>"
    and "gv (dv_h (snd (run_state (andr hw (gicd ''GICD_ITARGETSR'' (irq div 4)) (NOT (irq_byte 0xFF irq))) s))) =
      (if irq < 32 then gv (dv_h s) else (gv (dv_h s))\<lparr>g_target := (g_target (gv (dv_h s)))(irq := 0)\<rparr>)"
    and "gv (dv_h (snd (run_state (orr hw (gicd ''GICD_ITARGETSR'' (irq div 4)) (irq_byte 1 irq)) s))) =
      (if irq < 32 then gv (dv_h s) else (gv (dv_h s))\<lparr>g_target := (g_target (gv (dv_h s)))(irq := g_target (gv (dv_h s)) irq OR 1)\<rparr>)"
proof -
  have n: "irq div 4 < 127" "irq div 4 < 8 \<longleftrightarrow> irq < 32" using assms(2) by (auto simp: div_less_iff_less_mult)
  let ?p = "fst (mm_rd hw (gicd ''GICD_IPRIORITYR'' (irq div 4)) (dv_h s))"
  let ?t = "fst (mm_rd hw (gicd ''GICD_ITARGETSR'' (irq div 4)) (dv_h s))"
  have "\<forall>j < 4. byte_of ?p j = g_prio (gv (dv_h s)) (4 * (irq div 4) + j)"
    and "\<forall>j < 4. byte_of ?t j = g_target (gv (dv_h s)) (4 * (irq div 4) + j)"
    using assms(1) n(1) unfolding gic_ok_def by blast+
  note p = put4_clear [OF this(1)] and t = put4_clear [OF this(2)] put4_set [OF this(2)]
  have r: "gv (snd (mm_rd hw (gicd f i) h)) = gv h" for f i h using assms(1) by (simp add: gic_ok_def)
  have w: "gv (mm_wr hw (gicd ''GICD_IPRIORITYR'' (irq div 4)) v h) = (gv h)\<lparr>g_prio := put4 (irq div 4) v (g_prio (gv h))\<rparr>"
    "gv (mm_wr hw (gicd ''GICD_ITARGETSR'' (irq div 4)) v h) =
      (if irq < 32 then gv h else (gv h)\<lparr>g_target := put4 (irq div 4) v (g_target (gv h))\<rparr>)" for v h
    using assms(1) n by (simp_all add: gic_ok_def)
  show "gv (dv_h (snd (run_state (andr hw (gicd ''GICD_IPRIORITYR'' (irq div 4)) (NOT (irq_byte 0xFF irq))) s))) =
      (gv (dv_h s))\<lparr>g_prio := (g_prio (gv (dv_h s)))(irq := 0)\<rparr>"
    by (simp add: andr_def w r p)
  show "gv (dv_h (snd (run_state (andr hw (gicd ''GICD_ITARGETSR'' (irq div 4)) (NOT (irq_byte 0xFF irq))) s))) =
      (if irq < 32 then gv (dv_h s) else (gv (dv_h s))\<lparr>g_target := (g_target (gv (dv_h s)))(irq := 0)\<rparr>)"
    by (simp add: andr_def w r t)
  show "gv (dv_h (snd (run_state (orr hw (gicd ''GICD_ITARGETSR'' (irq div 4)) (irq_byte 1 irq)) s))) =
      (if irq < 32 then gv (dv_h s) else (gv (dv_h s))\<lparr>g_target := (g_target (gv (dv_h s)))(irq := g_target (gv (dv_h s)) irq OR 1)\<rparr>)"
    by (simp add: orr_def w r t)
qed

lemma run_then: "dv_h (snd (run_state (m \<bind> f) s)) = dv_h (snd (run_state (f (fst (run_state m s))) (snd (run_state m s))))"
  by (simp add: run_state_bind split: prod.split)

lemma irqs_then: "dv_irqs (snd (run_state (m \<bind> f) s)) = dv_irqs (snd (run_state (f (fst (run_state m s))) (snd (run_state m s))))"
  by (simp add: run_state_bind split: prod.split)

text \<open>
  C38. After \<^verbatim>\<open>gic_init\<close> the controller delivers the interrupts of the serial port and of the timer to
  processor 0, with the processor's interrupts unmasked; of no other interrupt the enabling, the
  priority or the target has changed.
\<close>

theorem gic_init_enables:
  assumes "gic_ok hw gv"
  shows "let g = gv (dv_h s); s' = snd (run_state (gic_init hw) s); g' = gv (dv_h s') in
    dv_irqs s' \<and> delivers g' 0 PL011_INT \<and> delivers g' 0 TIMER_INT \<and>
    g_enabled g' = g_enabled g \<union> {PL011_INT, TIMER_INT} \<and>
    (\<forall>i. i \<noteq> PL011_INT \<and> i \<noteq> TIMER_INT \<longrightarrow> g_prio g' i = g_prio g i \<and> g_target g' i = g_target g i)"
proof -
  have r: "gv (snd (mm_rd hw (gicd f i) h)) = gv h" "gv (snd (mm_rd hw (gicc ''GICC_CTLR'') h)) = gv h" for f i h
    using assms by (simp_all add: gic_ok_def)
  have w: "gv (mm_wr hw (gicd ''GICD_CTLR'' 0) v h) = (gv h)\<lparr>g_on := odd v\<rparr>"
    "gv (mm_wr hw (gicc ''GICC_CTLR'') v h) = (gv h)\<lparr>g_cpu := odd v\<rparr>"
    "gv (mm_wr hw (gicc ''GICC_PMR'') v h) = (gv h)\<lparr>g_pmr := v AND 0xFF\<rparr>"
    "n < 15 \<Longrightarrow> gv (mm_wr hw (gicd ''GICD_ISENABLER'' n) v h) =
      (gv h)\<lparr>g_enabled := g_enabled (gv h) \<union> {32 * n + j | j. j < 32 \<and> bit v j}\<rparr>" for n v h
    using assms by (simp_all add: gic_ok_def)
  have e: "{32 * (k div 32) + j | j. j < 32 \<and> bit (push_bit (k mod 32) 1 :: u32) j} = {k}" for k :: nat
    by (auto simp: bit_simps)
  note m = gic_rmw [OF assms, of PL011_INT] gic_rmw [OF assms, of TIMER_INT]
  have "gv (dv_h (snd (run_state (gic_init hw) s))) = (gv (dv_h s))\<lparr>g_on := True, g_cpu := True, g_pmr := 0xFF,
      g_enabled := insert TIMER_INT (insert PL011_INT (g_enabled (gv (dv_h s)))),
      g_prio := (g_prio (gv (dv_h s)))(PL011_INT := 0, TIMER_INT := 0), g_target := (g_target (gv (dv_h s)))(PL011_INT := 1)\<rparr>"
    by (simp add: gic_init_def run_then r w m [simplified] e [of PL011_INT, simplified] e [of TIMER_INT, simplified] del: run_state_bind)
  moreover have "dv_irqs (snd (run_state (gic_init hw) s))"
    by (simp add: gic_init_def irqs_then del: run_state_bind)
  ultimately show ?thesis by (simp add: Let_def delivers_def insert_commute)
qed

text \<open>A controller that keeps what is written to it.\<close>

definition demo_gic :: "gic mmio" where
  "demo_gic = \<lparr>
     mm_rd = (\<lambda>a g. let o' = unat (a - GICD_BASE) in
       (if o' < 0x1000 then if 0x800 \<le> o' then load32 (g_target g) (o' - 0x800) else load32 (g_prio g) (o' - 0x400) else 0, g)),
     mm_wr = (\<lambda>a v g. let o' = unat (a - GICD_BASE) in
       if o' = 0 then g\<lparr>g_on := odd v\<rparr>
       else if o' = 0x1000 then g\<lparr>g_cpu := odd v\<rparr>
       else if o' = 0x1004 then g\<lparr>g_pmr := v AND 0xFF\<rparr>
       else if o' < 0x400 then g\<lparr>g_enabled := g_enabled g \<union> {32 * ((o' - 0x100) div 4) + j | j. j < 32 \<and> bit v j}\<rparr>
       else if o' < 0x800 then g\<lparr>g_prio := put4 ((o' - 0x400) div 4) v (g_prio g)\<rparr>
       else if (o' - 0x800) div 4 < 8 then g
       else g\<lparr>g_target := put4 ((o' - 0x800) div 4) v (g_target g)\<rparr>)\<rparr>"

lemma load_byte: "j < n \<Longrightarrow> load n d a div 256 ^ j mod 256 = unat (d (a + j))"
proof (induction n arbitrary: a j)
  case (Suc n)
  have "unat (d a) < 256" using unat_bounds(1) by simp
  then have dv: "load (Suc n) d a div 256 = load n d (Suc a)" and md: "load (Suc n) d a mod 256 = unat (d a)" by simp_all
  show ?case
  proof (cases j)
    case 0
    then show ?thesis using md by simp
  next
    case (Suc k)
    have "load (Suc n) d a div 256 ^ Suc k = load n d (Suc a) div 256 ^ k"
      unfolding power_Suc div_mult2_eq dv ..
    then show ?thesis using Suc.IH [of k "Suc a"] Suc Suc.prems by simp
  qed
qed simp

lemma byte_of_load32: "j < 4 \<Longrightarrow> byte_of (load32 d a) j = d (a + j)"
proof -
  assume j: "j < 4"
  have p: "(2 :: nat) ^ (8 * j) = 256 ^ j" by (simp add: power_mult)
  have l: "unat (load32 d a) = load 4 d a" using load32_range [of d a] by (simp add: load32_def unat_of_nat)
  have "unat (drop_bit (8 * j) (load32 d a)) = load 4 d a div 256 ^ j"
    using unat_bounds(3) [of "load32 d a"]
    by (simp only: unsigned_drop_bit_eq) (simp add: take_bit_nat_eq_self drop_bit_eq_div p l)
  then have "unat (byte_of (load32 d a) j) = load 4 d a div 256 ^ j mod 256"
    by (simp add: byte_of_def unsigned_ucast_eq take_bit_eq_mod)
  then show ?thesis using load_byte [OF j, of d a] by (simp add: word_unat_eq_iff)
qed

lemma unat_gicd: "field_off gicd_regs f + 4 * i < 0x1000 \<Longrightarrow> unat (gicd f i - GICD_BASE) = field_off gicd_regs f + 4 * i"
  by (simp add: gicd_def reg_def unat_of_nat del: of_nat_add of_nat_mult)

lemma unat_gicc: "unat (gicc ''GICC_CTLR'' - GICD_BASE) = 0x1000" "unat (gicc ''GICC_PMR'' - GICD_BASE) = 0x1004"
  by (simp_all add: gicc_def reg_def gicc_offsets)

lemma demo_gic_ok: "gic_ok demo_gic (\<lambda>g. g)"
  unfolding gic_ok_def demo_gic_def
  by (intro conjI allI impI) (simp_all add: Let_def unat_gicd unat_gicc gicd_offsets byte_of_load32)

definition demo_dev :: "gic devst" where
  "demo_dev = \<lparr>dv_h = \<lparr>g_on = False, g_cpu = False, g_pmr = 0, g_enabled = {}, g_prio = (\<lambda>_. 0xA0), g_target = (\<lambda>_. 0)\<rparr>,
     dv_irqs = False\<rparr>"

theorem gic_init_enables_witness:
  "delivers (dv_h (snd (run_state (gic_init demo_gic) demo_dev))) 0 PL011_INT \<and>
   g_enabled (dv_h (snd (run_state (gic_init demo_gic) demo_dev))) = {PL011_INT, TIMER_INT}"
  using gic_init_enables [OF demo_gic_ok, of demo_dev] by (simp add: Let_def demo_dev_def)

end
