(* ===== verification/Sdhci.thy ===== *)
theory Sdhci
  imports Prelude "HOL-Library.State_Monad" "HOL-Library.Log_Nat"
begin

text \<open>
  The driver of the SD host controller, \<^verbatim>\<open>kernel/sdhci.c\<close> with \<^verbatim>\<open>include/sdhci.h\<close>, in the state monad.
  The controller is not part of the program: it is the argument \<open>hw\<close>, which says what a read of a
  register gives and changes, what a write changes, and what a wait of some microseconds (or of some
  idle instructions) changes.
  The state has the state of the controller and the global variables of the driver. Messages
  printed on the console are left out.
\<close>

section \<open>The controller and the state of the driver\<close>

datatype sdreg =
    ARG2 | BLKSIZECNT | ARG1 | CMDTM | RESP0 | RESP1 | RESP2 | RESP3 | DATA | STATUS
  | CONTROL0 | CONTROL1 | INTERRUPT | INT_MASK | INT_EN | CONTROL2 | SLOTISR_VER

record 'h sdhw =
  hw_rd :: "sdreg \<Rightarrow> 'h \<Rightarrow> u32 \<times> 'h"
  hw_wr :: "sdreg \<Rightarrow> u32 \<Rightarrow> 'h \<Rightarrow> 'h"
  hw_wait :: "nat \<Rightarrow> 'h \<Rightarrow> 'h"
  hw_nops :: "nat \<Rightarrow> 'h \<Rightarrow> 'h"

record 'h sdst =
  sd_h :: 'h
  sd_scr0 :: u64
  sd_scr1 :: u64
  sd_rca :: u64
  sd_err :: u64
  sd_hv :: u64

type_synonym ('h, 'a) sdm = "('h sdst, 'a) state"

abbreviation (input) CMD_NEED_APP :: u32 where "CMD_NEED_APP \<equiv> 0x80000000"
abbreviation (input) CMD_RSPNS_48 :: u32 where "CMD_RSPNS_48 \<equiv> 0x00020000"
abbreviation (input) CMD_ERRORS_MASK :: u32 where "CMD_ERRORS_MASK \<equiv> 0xFFF9C004"
abbreviation (input) CMD_RCA_MASK :: u32 where "CMD_RCA_MASK \<equiv> 0xFFFF0000"
abbreviation (input) CMD_GO_IDLE :: u32 where "CMD_GO_IDLE \<equiv> 0"
abbreviation (input) CMD_ALL_SEND_CID :: u32 where "CMD_ALL_SEND_CID \<equiv> 0x02010000"
abbreviation (input) CMD_SEND_REL_ADDR :: u32 where "CMD_SEND_REL_ADDR \<equiv> 0x03020000"
abbreviation (input) CMD_CARD_SELECT :: u32 where "CMD_CARD_SELECT \<equiv> 0x07030000"
abbreviation (input) CMD_SEND_IF_COND :: u32 where "CMD_SEND_IF_COND \<equiv> 0x08020000"
abbreviation (input) CMD_STOP_TRANS :: u32 where "CMD_STOP_TRANS \<equiv> 0x0C030000"
abbreviation (input) CMD_READ_SINGLE :: u32 where "CMD_READ_SINGLE \<equiv> 0x11220010"
abbreviation (input) CMD_READ_MULTI :: u32 where "CMD_READ_MULTI \<equiv> 0x12220032"
abbreviation (input) CMD_SET_BLOCKCNT :: u32 where "CMD_SET_BLOCKCNT \<equiv> 0x17020000"
abbreviation (input) CMD_WRITE_SINGLE :: u32 where "CMD_WRITE_SINGLE \<equiv> 0x18220000"
abbreviation (input) CMD_WRITE_MULTI :: u32 where "CMD_WRITE_MULTI \<equiv> 0x19220022"
abbreviation (input) CMD_APP_CMD :: u32 where "CMD_APP_CMD \<equiv> 0x37000000"
abbreviation (input) CMD_SET_BUS_WIDTH :: u32 where "CMD_SET_BUS_WIDTH \<equiv> 0x86020000"
abbreviation (input) CMD_SEND_OP_COND :: u32 where "CMD_SEND_OP_COND \<equiv> 0xA9020000"
abbreviation (input) CMD_SEND_SCR :: u32 where "CMD_SEND_SCR \<equiv> 0xB3220010"

abbreviation (input) SR_READ_AVAILABLE :: u32 where "SR_READ_AVAILABLE \<equiv> 0x800"
abbreviation (input) SR_WRITE_AVAILABLE :: u32 where "SR_WRITE_AVAILABLE \<equiv> 0x400"
abbreviation (input) SR_DAT_INHIBIT :: u32 where "SR_DAT_INHIBIT \<equiv> 2"
abbreviation (input) SR_CMD_INHIBIT :: u32 where "SR_CMD_INHIBIT \<equiv> 1"
abbreviation (input) SR_APP_CMD :: u32 where "SR_APP_CMD \<equiv> 0x20"

abbreviation (input) INT_DATA_TIMEOUT :: u32 where "INT_DATA_TIMEOUT \<equiv> 0x100000"
abbreviation (input) INT_CMD_TIMEOUT :: u32 where "INT_CMD_TIMEOUT \<equiv> 0x10000"
abbreviation (input) INT_READ_RDY :: u32 where "INT_READ_RDY \<equiv> 0x20"
abbreviation (input) INT_WRITE_RDY :: u32 where "INT_WRITE_RDY \<equiv> 0x10"
abbreviation (input) INT_DATA_DONE :: u32 where "INT_DATA_DONE \<equiv> 2"
abbreviation (input) INT_CMD_DONE :: u32 where "INT_CMD_DONE \<equiv> 1"
abbreviation (input) INT_ERROR_MASK :: u32 where "INT_ERROR_MASK \<equiv> 0x017E8000"

abbreviation (input) C0_HCTL_DWITDH :: u32 where "C0_HCTL_DWITDH \<equiv> 2"
abbreviation (input) C1_SRST_HC :: u32 where "C1_SRST_HC \<equiv> 0x01000000"
abbreviation (input) C1_TOUNIT_MAX :: u32 where "C1_TOUNIT_MAX \<equiv> 0xE0000"
abbreviation (input) C1_CLK_EN :: u32 where "C1_CLK_EN \<equiv> 4"
abbreviation (input) C1_CLK_STABLE :: u32 where "C1_CLK_STABLE \<equiv> 2"
abbreviation (input) C1_CLK_INTLEN :: u32 where "C1_CLK_INTLEN \<equiv> 1"

abbreviation (input) SCR_SD_BUS_WIDTH_4 :: u64 where "SCR_SD_BUS_WIDTH_4 \<equiv> 0x400"
abbreviation (input) SCR_SUPP_SET_BLKCNT :: u64 where "SCR_SUPP_SET_BLKCNT \<equiv> 0x02000000"
abbreviation (input) SCR_SUPP_CCS :: u64 where "SCR_SUPP_CCS \<equiv> 1"
abbreviation (input) ACMD41_VOLTAGE :: u32 where "ACMD41_VOLTAGE \<equiv> 0x00FF8000"
abbreviation (input) ACMD41_CMD_COMPLETE :: u32 where "ACMD41_CMD_COMPLETE \<equiv> 0x80000000"
abbreviation (input) ACMD41_CMD_CCS :: u32 where "ACMD41_CMD_CCS \<equiv> 0x40000000"
abbreviation (input) ACMD41_ARG_HC :: u32 where "ACMD41_ARG_HC \<equiv> 0x51FF8000"
abbreviation (input) SD_TIMEOUT :: int where "SD_TIMEOUT \<equiv> - 1"
abbreviation (input) SD_ERROR :: int where "SD_ERROR \<equiv> - 2"

text \<open>Access to the registers and the variables.\<close>

definition rd :: "'h sdhw \<Rightarrow> sdreg \<Rightarrow> ('h, u32) sdm" where
  "rd hw r = State (\<lambda>s. case hw_rd hw r (sd_h s) of (v, h) \<Rightarrow> (v, s\<lparr>sd_h := h\<rparr>))"

definition wr :: "'h sdhw \<Rightarrow> sdreg \<Rightarrow> u32 \<Rightarrow> ('h, unit) sdm" where
  "wr hw r v = State (\<lambda>s. ((), s\<lparr>sd_h := hw_wr hw r v (sd_h s)\<rparr>))"

definition wait_msec :: "'h sdhw \<Rightarrow> nat \<Rightarrow> ('h, unit) sdm" where
  "wait_msec hw n = State (\<lambda>s. ((), s\<lparr>sd_h := hw_wait hw n (sd_h s)\<rparr>))"

definition wait_cycles :: "'h sdhw \<Rightarrow> nat \<Rightarrow> ('h, unit) sdm" where
  "wait_cycles hw n = State (\<lambda>s. ((), s\<lparr>sd_h := hw_nops hw n (sd_h s)\<rparr>))"

definition getv :: "('h sdst \<Rightarrow> 'a) \<Rightarrow> ('h, 'a) sdm" where
  "getv f = State (\<lambda>s. (f s, s))"

definition setv :: "('h sdst \<Rightarrow> 'h sdst) \<Rightarrow> ('h, unit) sdm" where
  "setv f = State (\<lambda>s. ((), f s))"

text \<open>Errors are negative integers, stored in an unsigned variable of 64 bits.\<close>

definition set_err :: "int \<Rightarrow> ('h, unit) sdm" where
  "set_err e = setv (\<lambda>s. s\<lparr>sd_err := word_of_int e\<rparr>)"

section \<open>Waiting for the controller\<close>

text \<open>
  \<^verbatim>\<open>while (... && cnt--) wait_msec(1);\<close> The value is that of \<open>cnt\<close> after the loop: \<open>- 1\<close> when the
  count has run out.
\<close>

fun status_loop :: "'h sdhw \<Rightarrow> u32 \<Rightarrow> nat \<Rightarrow> ('h, int) sdm" where
  "status_loop hw msk cnt = do {
     st \<leftarrow> rd hw STATUS;
     if st AND msk = 0 then State_Monad.return (int cnt)
     else do {
       i \<leftarrow> rd hw INTERRUPT;
       if i AND INT_ERROR_MASK \<noteq> 0 then State_Monad.return (int cnt)
       else (case cnt of 0 \<Rightarrow> State_Monad.return (- 1)
         | Suc n \<Rightarrow> do { wait_msec hw 1; status_loop hw msk n })
     }
   }"

definition sd_status :: "'h sdhw \<Rightarrow> u32 \<Rightarrow> ('h, int) sdm" where
  "sd_status hw msk = do {
     cnt \<leftarrow> status_loop hw msk 500000;
     if cnt \<le> 0 then State_Monad.return SD_ERROR
     else do {
       i \<leftarrow> rd hw INTERRUPT;
       State_Monad.return (if i AND INT_ERROR_MASK \<noteq> 0 then SD_ERROR else 0)
     }
   }"

fun int_loop :: "'h sdhw \<Rightarrow> u32 \<Rightarrow> nat \<Rightarrow> ('h, int) sdm" where
  "int_loop hw m cnt = do {
     i \<leftarrow> rd hw INTERRUPT;
     if i AND m \<noteq> 0 then State_Monad.return (int cnt)
     else (case cnt of 0 \<Rightarrow> State_Monad.return (- 1)
       | Suc n \<Rightarrow> do { wait_msec hw 1; int_loop hw m n })
   }"

declare status_loop.simps [simp del] int_loop.simps [simp del]

definition sd_int :: "'h sdhw \<Rightarrow> u32 \<Rightarrow> ('h, int) sdm" where
  "sd_int hw msk = do {
     cnt \<leftarrow> int_loop hw (msk OR INT_ERROR_MASK) 1000000;
     r \<leftarrow> rd hw INTERRUPT;
     if cnt \<le> 0 \<or> r AND INT_CMD_TIMEOUT \<noteq> 0 \<or> r AND INT_DATA_TIMEOUT \<noteq> 0
     then do { wr hw INTERRUPT r; State_Monad.return SD_TIMEOUT }
     else if r AND INT_ERROR_MASK \<noteq> 0
     then do { wr hw INTERRUPT r; State_Monad.return SD_ERROR }
     else do { wr hw INTERRUPT msk; State_Monad.return 0 }
   }"

section \<open>Commands\<close>

text \<open>What \<^verbatim>\<open>sd_cmd\<close> makes of the response, by the code of the command.\<close>

definition cmd_result :: "'h sdhw \<Rightarrow> u32 \<Rightarrow> u32 \<Rightarrow> ('h, u32) sdm" where
  "cmd_result hw code arg = do {
     r \<leftarrow> rd hw RESP0;
     if code = CMD_GO_IDLE \<or> code = CMD_APP_CMD then State_Monad.return 0
     else if code = CMD_APP_CMD OR CMD_RSPNS_48 then State_Monad.return (r AND SR_APP_CMD)
     else if code = CMD_SEND_OP_COND then State_Monad.return r
     else if code = CMD_SEND_IF_COND then State_Monad.return (if r = arg then 0 else word_of_int SD_ERROR)
     else if code = CMD_ALL_SEND_CID then do {
       r3 \<leftarrow> rd hw RESP3;
       r2 \<leftarrow> rd hw RESP2;
       r1 \<leftarrow> rd hw RESP1;
       State_Monad.return (r OR r3 OR r2 OR r1)
     }
     else if code = CMD_SEND_REL_ADDR then do {
       setv (\<lambda>s. s\<lparr>sd_err := ucast (((r AND 0x1FFF) OR push_bit 6 (r AND 0x2000) OR push_bit 8 (r AND 0x4000) OR
         push_bit 8 (r AND 0x8000)) AND CMD_ERRORS_MASK)\<rparr>);
       State_Monad.return (r AND CMD_RCA_MASK)
     }
     else State_Monad.return (r AND CMD_ERRORS_MASK)
   }"

text \<open>The part of \<^verbatim>\<open>sd_cmd\<close> after the prefix for application commands; \<open>code\<close> no longer has the flag.\<close>

definition cmd_send :: "'h sdhw \<Rightarrow> u32 \<Rightarrow> u32 \<Rightarrow> ('h, u32) sdm" where
  "cmd_send hw code arg = do {
     st \<leftarrow> sd_status hw SR_CMD_INHIBIT;
     if st \<noteq> 0 then do { set_err SD_TIMEOUT; State_Monad.return 0 }
     else do {
       i \<leftarrow> rd hw INTERRUPT;
       wr hw INTERRUPT i;
       wr hw ARG1 arg;
       wr hw CMDTM code;
       (if code = CMD_SEND_OP_COND then wait_msec hw 1000
        else if code = CMD_SEND_IF_COND \<or> code = CMD_APP_CMD then wait_msec hw 100
        else State_Monad.return ());
       r \<leftarrow> sd_int hw INT_CMD_DONE;
       if r \<noteq> 0 then do { set_err r; State_Monad.return 0 } else cmd_result hw code arg
     }
   }"

function sd_cmd :: "'h sdhw \<Rightarrow> u32 \<Rightarrow> u32 \<Rightarrow> ('h, u32) sdm" where
  "sd_cmd hw code arg = do {
     set_err 0;
     if code AND CMD_NEED_APP \<noteq> 0 then do {
       rca \<leftarrow> getv sd_rca;
       r \<leftarrow> sd_cmd hw (CMD_APP_CMD OR (if rca \<noteq> 0 then CMD_RSPNS_48 else 0)) (ucast rca);
       rca' \<leftarrow> getv sd_rca;
       if rca' \<noteq> 0 \<and> r = 0 then do { set_err SD_ERROR; State_Monad.return 0 }
       else cmd_send hw (code AND NOT CMD_NEED_APP) arg
     }
     else cmd_send hw code arg
   }"
  by pat_completeness auto
termination
  by (relation "measure (\<lambda>(hw, code, arg). if code AND CMD_NEED_APP \<noteq> 0 then 1 else 0)") auto

declare sd_cmd.simps [simp del]

section \<open>Blocks\<close>

text \<open>\<^verbatim>\<open>for (d = 0; d < 128; d++) buf[d] = sdchi->DATA;\<close> and the same with the sides exchanged.\<close>

fun read_words :: "'h sdhw \<Rightarrow> nat \<Rightarrow> nat \<Rightarrow> store \<Rightarrow> ('h, store) sdm" where
  "read_words hw 0 a buf = State_Monad.return buf"
| "read_words hw (Suc n) a buf = do { v \<leftarrow> rd hw DATA; read_words hw n (a + 4) (store32 buf a v) }"

fun write_words :: "'h sdhw \<Rightarrow> nat \<Rightarrow> nat \<Rightarrow> store \<Rightarrow> ('h, unit) sdm" where
  "write_words hw 0 a buf = State_Monad.return ()"
| "write_words hw (Suc n) a buf = do { wr hw DATA (load32 buf a); write_words hw n (a + 4) buf }"

text \<open>
  The part before the loop, which \<^verbatim>\<open>sd_readblock\<close> and \<^verbatim>\<open>sd_writeblock\<close> share but for the commands;
  the value says whether to go on.
\<close>

definition start_transfer :: "'h sdhw \<Rightarrow> u32 \<Rightarrow> u32 \<Rightarrow> u32 \<Rightarrow> u32 \<Rightarrow> u32 \<Rightarrow> ('h, bool) sdm" where
  "start_transfer hw inhibit single multi lba num = do {
     st \<leftarrow> sd_status hw inhibit;
     if st \<noteq> 0 then do { set_err SD_TIMEOUT; State_Monad.return False }
     else do {
       scr \<leftarrow> getv sd_scr0;
       if scr AND SCR_SUPP_CCS \<noteq> 0 then do {
         ok \<leftarrow> (if 1 < num \<and> scr AND SCR_SUPP_SET_BLKCNT \<noteq> 0
            then do { _ \<leftarrow> sd_cmd hw CMD_SET_BLOCKCNT num; e \<leftarrow> getv sd_err; State_Monad.return (e = 0) }
            else State_Monad.return True);
         if \<not> ok then State_Monad.return False
         else do {
           wr hw BLKSIZECNT (push_bit 16 num OR 512);
           _ \<leftarrow> sd_cmd hw (if num = 1 then single else multi) lba;
           e \<leftarrow> getv sd_err;
           State_Monad.return (e = 0)
         }
       }
       else do { wr hw BLKSIZECNT (push_bit 16 1 OR 512); State_Monad.return True }
     }
   }"

text \<open>Before every block: without the capacity flag each block has a command of its own.\<close>

definition block_ready :: "'h sdhw \<Rightarrow> u32 \<Rightarrow> u32 \<Rightarrow> u32 \<Rightarrow> nat \<Rightarrow> ('h, bool) sdm" where
  "block_ready hw single rdy lba c = do {
     scr \<leftarrow> getv sd_scr0;
     ok \<leftarrow> (if scr AND SCR_SUPP_CCS = 0
        then do { _ \<leftarrow> sd_cmd hw single ((lba + of_nat c) * 512); e \<leftarrow> getv sd_err; State_Monad.return (e = 0) }
        else State_Monad.return True);
     if \<not> ok then State_Monad.return False
     else do {
       r \<leftarrow> sd_int hw rdy;
       if r \<noteq> 0 then do { set_err r; State_Monad.return False } else State_Monad.return True
     }
   }"

text \<open>The loop over the blocks from \<open>c\<close> on, of which \<open>k\<close> are left.\<close>

fun read_blocks :: "'h sdhw \<Rightarrow> u32 \<Rightarrow> nat \<Rightarrow> nat \<Rightarrow> store \<Rightarrow> ('h, bool \<times> store) sdm" where
  "read_blocks hw lba c 0 buf = State_Monad.return (True, buf)"
| "read_blocks hw lba c (Suc k) buf = do {
     ok \<leftarrow> block_ready hw CMD_READ_SINGLE INT_READ_RDY lba c;
     if \<not> ok then State_Monad.return (False, buf)
     else do { buf' \<leftarrow> read_words hw 128 (512 * c) buf; read_blocks hw lba (Suc c) k buf' }
   }"

fun write_blocks :: "'h sdhw \<Rightarrow> u32 \<Rightarrow> nat \<Rightarrow> nat \<Rightarrow> store \<Rightarrow> ('h, bool) sdm" where
  "write_blocks hw lba c 0 buf = State_Monad.return True"
| "write_blocks hw lba c (Suc k) buf = do {
     ok \<leftarrow> block_ready hw CMD_WRITE_SINGLE INT_WRITE_RDY lba c;
     if \<not> ok then State_Monad.return False
     else do { write_words hw 128 (512 * c) buf; write_blocks hw lba (Suc c) k buf }
   }"

text \<open>After the loop; the value is that of the whole function.\<close>

definition end_transfer :: "'h sdhw \<Rightarrow> u32 \<Rightarrow> ('h, u32) sdm" where
  "end_transfer hw num = do {
     scr \<leftarrow> getv sd_scr0;
     (if 1 < num \<and> scr AND SCR_SUPP_SET_BLKCNT = 0 \<and> scr AND SCR_SUPP_CCS \<noteq> 0
      then do { _ \<leftarrow> sd_cmd hw CMD_STOP_TRANS 0; State_Monad.return () }
      else State_Monad.return ());
     e \<leftarrow> getv sd_err;
     State_Monad.return (if e \<noteq> 0 then 0 else num * 512)
   }"

definition sd_readblock :: "'h sdhw \<Rightarrow> u32 \<Rightarrow> store \<Rightarrow> u32 \<Rightarrow> ('h, u32 \<times> store) sdm" where
  "sd_readblock hw lba buffer num0 = do {
     let num = (if num0 < 1 then 1 else num0);
     ok \<leftarrow> start_transfer hw SR_DAT_INHIBIT CMD_READ_SINGLE CMD_READ_MULTI lba num;
     if \<not> ok then State_Monad.return (0, buffer)
     else do {
       (ok', buf) \<leftarrow> read_blocks hw lba 0 (unat num) buffer;
       if \<not> ok' then State_Monad.return (0, buf)
       else do { r \<leftarrow> end_transfer hw num; State_Monad.return (r, buf) }
     }
   }"

definition sd_writeblock :: "'h sdhw \<Rightarrow> store \<Rightarrow> u32 \<Rightarrow> u32 \<Rightarrow> ('h, u32) sdm" where
  "sd_writeblock hw buffer lba num0 = do {
     let num = (if num0 < 1 then 1 else num0);
     ok \<leftarrow> start_transfer hw (SR_DAT_INHIBIT OR SR_WRITE_AVAILABLE) CMD_WRITE_SINGLE CMD_WRITE_MULTI lba num;
     if \<not> ok then State_Monad.return 0
     else do {
       ok' \<leftarrow> write_blocks hw lba 0 (unat num) buffer;
       if \<not> ok' then State_Monad.return 0
       else do {
         r \<leftarrow> sd_int hw INT_DATA_DONE;
         if r \<noteq> 0 then do { set_err r; State_Monad.return 0 } else end_transfer hw num
       }
     }
   }"

section \<open>The clock\<close>

text \<open>The shift: the five steps of a binary search for the highest bit of \<open>x\<close>.\<close>

definition clk_step :: "u32 \<Rightarrow> nat \<Rightarrow> u32 \<times> u32 \<Rightarrow> u32 \<times> u32" where
  "clk_step hi n xs = (case xs of (x, s) \<Rightarrow> if x AND hi = 0 then (push_bit n x, s - of_nat n) else (x, s))"

definition clk_shift :: "u32 \<Rightarrow> u32" where
  "clk_shift x =
     (if x = 0 then 0
      else case clk_step 0x80000000 1 (clk_step 0xC0000000 2 (clk_step 0xF0000000 4
          (clk_step 0xFF000000 8 (clk_step 0xFFFF0000 16 (x, 32))))) of (_, s) \<Rightarrow>
        let s1 = (if s > 0 then s - 1 else s) in if s1 > 7 then 7 else s1)"

text \<open>The bits of \<^verbatim>\<open>CONTROL1\<close> for the divisor \<open>c\<close>, by the version of the host.\<close>

definition clk_divisor :: "u64 \<Rightarrow> u32 \<Rightarrow> u32" where
  "clk_divisor hv c =
     (let s = clk_shift (c - 1);
        d = (if hv > 1 then c else push_bit (unat s) 1);
        d1 = (if d \<le> 2 then 2 else d);
        h = (if hv > 1 then drop_bit 2 (d1 AND 0x300) else 0)
      in push_bit 8 (d1 AND 0xFF) OR h)"

fun poll :: "'h sdhw \<Rightarrow> sdreg \<Rightarrow> (u32 \<Rightarrow> bool) \<Rightarrow> nat \<Rightarrow> nat \<Rightarrow> ('h, int) sdm" where
  "poll hw r stop n cnt = do {
     v \<leftarrow> rd hw r;
     if stop v then State_Monad.return (int cnt)
     else (case cnt of 0 \<Rightarrow> State_Monad.return (- 1)
       | Suc k \<Rightarrow> do { wait_msec hw n; poll hw r stop n k })
   }"

declare poll.simps [simp del]

definition sd_clk :: "'h sdhw \<Rightarrow> u32 \<Rightarrow> ('h, int) sdm" where
  "sd_clk hw f = do {
     let c = 41666666 div f;
     cnt \<leftarrow> poll hw STATUS (\<lambda>st. st AND (SR_CMD_INHIBIT OR SR_DAT_INHIBIT) = 0) 1 100000;
     if cnt \<le> 0 then State_Monad.return SD_ERROR
     else do {
       v \<leftarrow> rd hw CONTROL1;
       wr hw CONTROL1 (v AND NOT C1_CLK_EN);
       wait_msec hw 10;
       hv \<leftarrow> getv sd_hv;
       v \<leftarrow> rd hw CONTROL1;
       wr hw CONTROL1 ((v AND 0xFFFF003F) OR clk_divisor hv c);
       wait_msec hw 10;
       v \<leftarrow> rd hw CONTROL1;
       wr hw CONTROL1 (v OR C1_CLK_EN);
       wait_msec hw 10;
       cnt \<leftarrow> poll hw CONTROL1 (\<lambda>v. v AND C1_CLK_STABLE \<noteq> 0) 10 10000;
       State_Monad.return (if cnt \<le> 0 then SD_ERROR else 0)
     }
   }"

section \<open>Initialisation\<close>

text \<open>\<^verbatim>\<open>return sd_err;\<close> from a function of type \<^verbatim>\<open>int\<close>.\<close>

definition err_int :: "u64 \<Rightarrow> int" where
  "err_int e = sint (ucast e :: u32)"

text \<open>\<^verbatim>\<open>sd_cmd(...); if (sd_err) return sd_err;\<close> with the rest of the function as an argument.\<close>

definition cmd_then :: "'h sdhw \<Rightarrow> u32 \<Rightarrow> u32 \<Rightarrow> ('h, int option) sdm \<Rightarrow> ('h, int option) sdm" where
  "cmd_then hw code arg rest = do {
     _ \<leftarrow> sd_cmd hw code arg;
     e \<leftarrow> getv sd_err;
     if e \<noteq> 0 then State_Monad.return (Some (err_int e)) else rest
   }"

text \<open>
  The loop of the reset, which waits before it looks, and the loop that asks for the operating
  condition: \<open>Inl\<close> when it returns from \<^verbatim>\<open>sd_init\<close>, \<open>Inr\<close> with \<open>r\<close> and \<open>cnt\<close> when it ends.
\<close>

fun reset_loop :: "'h sdhw \<Rightarrow> nat \<Rightarrow> ('h, int) sdm" where
  "reset_loop hw cnt = do {
     wait_msec hw 10;
     v \<leftarrow> rd hw CONTROL1;
     if v AND C1_SRST_HC = 0 then State_Monad.return (int cnt)
     else (case cnt of 0 \<Rightarrow> State_Monad.return (- 1) | Suc k \<Rightarrow> reset_loop hw k)
   }"

fun op_cond_loop :: "'h sdhw \<Rightarrow> u32 \<Rightarrow> nat \<Rightarrow> ('h, int + u32 \<times> int) sdm" where
  "op_cond_loop hw r cnt =
     (if r AND ACMD41_CMD_COMPLETE \<noteq> 0 then State_Monad.return (Inr (r, int cnt))
      else case cnt of 0 \<Rightarrow> State_Monad.return (Inr (r, - 1))
      | Suc k \<Rightarrow> do {
          wait_cycles hw 400;
          r \<leftarrow> sd_cmd hw CMD_SEND_OP_COND ACMD41_ARG_HC;
          e \<leftarrow> getv sd_err;
          if e \<noteq> word_of_int SD_TIMEOUT \<and> e \<noteq> 0 then State_Monad.return (Inl (err_int e))
          else op_cond_loop hw r k
        })"

declare reset_loop.simps [simp del] op_cond_loop.simps [simp del]

text \<open>
  \<^verbatim>\<open>while (r < 2 && cnt)\<close>: \<open>cnt\<close> is never counted down, so the loop has no bound of its own. The
  value is \<open>False\<close> when it is still running after \<open>fuel\<close> rounds.
\<close>

definition set_scr :: "nat \<Rightarrow> u32 \<Rightarrow> 'h sdst \<Rightarrow> 'h sdst" where
  "set_scr r v s = (if r = 0 then s\<lparr>sd_scr0 := ucast v\<rparr> else s\<lparr>sd_scr1 := ucast v\<rparr>)"

fun scr_loop :: "'h sdhw \<Rightarrow> nat \<Rightarrow> nat \<Rightarrow> ('h, bool) sdm" where
  "scr_loop hw fuel r =
     (if 2 \<le> r then State_Monad.return True
      else case fuel of 0 \<Rightarrow> State_Monad.return False
      | Suc k \<Rightarrow> do {
          st \<leftarrow> rd hw STATUS;
          if st AND SR_READ_AVAILABLE \<noteq> 0
          then do { v \<leftarrow> rd hw DATA; setv (set_scr r v); scr_loop hw k (Suc r) }
          else do { wait_msec hw 1; scr_loop hw k r }
        })"

declare scr_loop.simps [simp del]

text \<open>The end of \<^verbatim>\<open>sd_init\<close>, from the reading of the configuration register on.\<close>

definition init_scr :: "'h sdhw \<Rightarrow> nat \<Rightarrow> u64 \<Rightarrow> ('h, int option) sdm" where
  "init_scr hw fuel ccs = do {
     st \<leftarrow> sd_status hw SR_DAT_INHIBIT;
     if st \<noteq> 0 then State_Monad.return (Some SD_TIMEOUT)
     else do {
       wr hw BLKSIZECNT (push_bit 16 1 OR 8);
       cmd_then hw CMD_SEND_SCR 0 (do {
         r \<leftarrow> sd_int hw INT_READ_RDY;
         if r \<noteq> 0 then State_Monad.return (Some SD_TIMEOUT)
         else do {
           done \<leftarrow> scr_loop hw fuel 0;
           if \<not> done then State_Monad.return None
           else do {
             scr \<leftarrow> getv sd_scr0;
             rca \<leftarrow> getv sd_rca;
             let fin = (do { setv (\<lambda>s. s\<lparr>sd_scr0 := (sd_scr0 s AND NOT SCR_SUPP_CCS) OR ccs\<rparr>); State_Monad.return (Some 0) });
             if scr AND SCR_SD_BUS_WIDTH_4 \<noteq> 0
             then cmd_then hw CMD_SET_BUS_WIDTH (ucast (rca OR 2)) (do {
               v \<leftarrow> rd hw CONTROL0;
               wr hw CONTROL0 (v OR C0_HCTL_DWITDH);
               fin
             })
             else fin
           }
         }
       })
     }
   }"

text \<open>The middle, from the identification of the card to its selection.\<close>

definition init_ident :: "'h sdhw \<Rightarrow> nat \<Rightarrow> u64 \<Rightarrow> ('h, int option) sdm" where
  "init_ident hw fuel ccs = do {
     _ \<leftarrow> sd_cmd hw CMD_ALL_SEND_CID 0;
     r \<leftarrow> sd_cmd hw CMD_SEND_REL_ADDR 0;
     setv (\<lambda>s. s\<lparr>sd_rca := scast r\<rparr>);
     e \<leftarrow> getv sd_err;
     if e \<noteq> 0 then State_Monad.return (Some (err_int e))
     else do {
       r \<leftarrow> sd_clk hw 25000000;
       if r \<noteq> 0 then State_Monad.return (Some r)
       else do { rca \<leftarrow> getv sd_rca; cmd_then hw CMD_CARD_SELECT (ucast rca) (init_scr hw fuel ccs) }
     }
   }"

definition sd_init :: "'h sdhw \<Rightarrow> nat \<Rightarrow> ('h, int option) sdm" where
  "sd_init hw fuel = do {
     ver \<leftarrow> rd hw SLOTISR_VER;
     setv (\<lambda>s. s\<lparr>sd_hv := ucast (drop_bit 16 (ver AND 0xFF0000))\<rparr>);
     wr hw CONTROL0 0;
     v \<leftarrow> rd hw CONTROL1;
     wr hw CONTROL1 (v OR C1_SRST_HC);
     cnt \<leftarrow> reset_loop hw 10000;
     if cnt \<le> 0 then State_Monad.return (Some SD_ERROR)
     else do {
       v \<leftarrow> rd hw CONTROL1;
       wr hw CONTROL1 (v OR (C1_CLK_INTLEN OR C1_TOUNIT_MAX));
       wait_msec hw 10;
       r \<leftarrow> sd_clk hw 400000;
       if r \<noteq> 0 then State_Monad.return (Some r)
       else do {
         wr hw INT_EN 0xFFFFFFFF;
         wr hw INT_MASK 0xFFFFFFFF;
         setv (\<lambda>s. s\<lparr>sd_scr0 := 0, sd_scr1 := 0, sd_rca := 0, sd_err := 0\<rparr>);
         cmd_then hw CMD_GO_IDLE 0 (cmd_then hw CMD_SEND_IF_COND 0x1AA (do {
           oc \<leftarrow> op_cond_loop hw 0 6;
           (case oc of Inl e \<Rightarrow> State_Monad.return (Some e)
            | Inr (r, cnt) \<Rightarrow>
                if r AND ACMD41_CMD_COMPLETE = 0 \<or> cnt = 0 then State_Monad.return (Some SD_TIMEOUT)
                else if r AND ACMD41_VOLTAGE = 0 then State_Monad.return (Some SD_ERROR)
                else init_ident hw fuel (if r AND ACMD41_CMD_CCS \<noteq> 0 then SCR_SUPP_CCS else 0))
         }))
       }
     }
   }"

section \<open>The shift is a logarithm\<close>

text \<open>\<open>clk_inv a k\<close>: the search has narrowed the place of the highest bit of \<open>a\<close> down to \<open>k\<close> bits.\<close>

definition clk_inv :: "nat \<Rightarrow> nat \<Rightarrow> u32 \<times> u32 \<Rightarrow> bool" where
  "clk_inv a k xs = (case xs of (x, s) \<Rightarrow>
     2 ^ (32 - k) \<le> unat x \<and> unat x = a * 2 ^ (32 - unat s) \<and> k \<le> unat s \<and> unat s \<le> 32)"

lemma high_bits_zero:
  assumes "n \<le> 32"
  shows "(x :: u32) AND NOT (mask (32 - n)) = 0 \<longleftrightarrow> unat x < 2 ^ (32 - n)"
proof -
  have "x AND NOT (mask (32 - n)) = 0 \<longleftrightarrow> take_bit (32 - n) x = x"
    by (auto simp: bit_eq_iff bit_simps)
  also have "\<dots> \<longleftrightarrow> take_bit (32 - n) (unat x) = unat x"
    by (simp add: word_unat_eq_iff unsigned_take_bit_eq)
  finally show ?thesis by (simp add: take_bit_nat_eq_self_iff)
qed

lemma clk_step_inv:
  assumes i: "clk_inv a (2 * n) xs" and n: "0 < n" "n \<le> 16" and hi: "hi = NOT (mask (32 - n))"
  shows "clk_inv a n (clk_step hi n xs)"
proof -
  obtain x s where xs: "xs = (x, s)" by fastforce
  have le: "2 ^ (32 - 2 * n) \<le> unat x" and x: "unat x = a * 2 ^ (32 - unat s)" and s: "2 * n \<le> unat s" "unat s \<le> 32"
    using i by (auto simp: clk_inv_def xs)
  show ?thesis
  proof (cases "unat x < 2 ^ (32 - n)")
    case True
    have sm: "unat x * 2 ^ n < 2 ^ 32"
    proof -
      have "unat x * 2 ^ n < 2 ^ (32 - n) * 2 ^ n" using True by simp
      also have "\<dots> = (2 :: nat) ^ 32" using n by (simp flip: power_add)
      finally show ?thesis .
    qed
    have "unat (push_bit n x) = take_bit LENGTH(32) (push_bit n (unat x))" by (rule unsigned_push_bit_eq)
    also have "\<dots> = push_bit n (unat x)" by (rule take_bit_nat_eq_self) (use sm in \<open>simp add: push_bit_eq_mult\<close>)
    finally have p: "unat (push_bit n x) = unat x * 2 ^ n" by (simp only: push_bit_eq_mult)
    have "of_nat n \<le> s" using s n by (simp add: word_le_nat_alt unat_of_nat)
    then have sn: "unat (s - of_nat n) = unat s - n" using n by (simp add: unat_sub unat_of_nat)
    have "32 - (unat s - n) = (32 - unat s) + n" using s n by simp
    then have e: "unat x * 2 ^ n = a * 2 ^ (32 - (unat s - n))" by (simp only: x power_add mult.assoc)
    have "2 ^ (32 - n) = (2 :: nat) ^ (32 - 2 * n) * 2 ^ n" using n by (simp flip: power_add)
    then have "2 ^ (32 - n) \<le> unat x * 2 ^ n" using le by simp
    then show ?thesis
      using True s n high_bits_zero [of n x] e by (auto simp: clk_inv_def clk_step_def xs hi p sn)
  next
    case False
    then show ?thesis using s n x high_bits_zero [of n x] by (simp add: clk_inv_def clk_step_def xs hi)
  qed
qed

lemma clk_masks: "(0xFFFF0000 :: u32) = NOT (mask (32 - 16))" "(0xFF000000 :: u32) = NOT (mask (32 - 8))"
  "(0xF0000000 :: u32) = NOT (mask (32 - 4))" "(0xC0000000 :: u32) = NOT (mask (32 - 2))"
  "(0x80000000 :: u32) = NOT (mask (32 - 1))"
  by (simp_all add: mask_eq_exp_minus_1)

lemma clk_search:
  assumes "x \<noteq> 0"
  shows "clk_inv (unat x) 1 (clk_step 0x80000000 1 (clk_step 0xC0000000 2 (clk_step 0xF0000000 4
          (clk_step 0xFF000000 8 (clk_step 0xFFFF0000 16 (x, 32))))))"
proof -
  have "clk_inv (unat x) 32 (x, 32)" using assms by (simp add: clk_inv_def unat_gt_0 Suc_le_eq)
  then have "clk_inv (unat x) 16 (clk_step 0xFFFF0000 16 (x, 32))"
    by (intro clk_step_inv [OF _ _ _ clk_masks(1)]) simp_all
  then have "clk_inv (unat x) 8 (clk_step 0xFF000000 8 (clk_step 0xFFFF0000 16 (x, 32)))"
    by (intro clk_step_inv [OF _ _ _ clk_masks(2)]) simp_all
  then have "clk_inv (unat x) 4 (clk_step 0xF0000000 4 (clk_step 0xFF000000 8 (clk_step 0xFFFF0000 16 (x, 32))))"
    by (intro clk_step_inv [OF _ _ _ clk_masks(3)]) simp_all
  then have "clk_inv (unat x) 2 (clk_step 0xC0000000 2 (clk_step 0xF0000000 4 (clk_step 0xFF000000 8
      (clk_step 0xFFFF0000 16 (x, 32)))))"
    by (intro clk_step_inv [OF _ _ _ clk_masks(4)]) simp_all
  then show ?thesis
    by (intro clk_step_inv [OF _ _ _ clk_masks(5)]) simp_all
qed

text \<open>
  C35. The five tests of \<^verbatim>\<open>sd_clk\<close> find the place of the highest bit of the divisor: the shift is the
  binary logarithm of \<open>x\<close>, rounded down, and at most 7. The statement covers every value, also 0.
\<close>

theorem clk_shift_log: "unat (clk_shift x) = min 7 (floorlog 2 (unat x) - 1)"
proof (cases "x = 0")
  case True
  then show ?thesis by (simp add: clk_shift_def floorlog_def)
next
  case False
  obtain y s where ys: "clk_step 0x80000000 1 (clk_step 0xC0000000 2 (clk_step 0xF0000000 4
          (clk_step 0xFF000000 8 (clk_step 0xFFFF0000 16 (x, 32))))) = (y, s)" by fastforce
  then have y: "2 ^ 31 \<le> unat y" "unat y = unat x * 2 ^ (32 - unat s)" and s: "1 \<le> unat s" "unat s \<le> 32"
    using clk_search [OF False] by (simp_all add: clk_inv_def)
  have "floorlog 2 (unat y) = 32"
    using y(1) unat_bounds(3) [of y] floorlog_leI [of "unat y" 2 32] floorlog_ge_SucI [of 2 31 "unat y"] by simp
  moreover have "floorlog 2 (unat y) = floorlog 2 (unat x) + (32 - unat s)"
    unfolding y(2) using False by (subst floorlog_power) (simp_all add: unat_gt_0)
  ultimately have fl: "floorlog 2 (unat x) = unat s" using s by simp
  have "0 < s" using s by (simp add: word_less_nat_alt)
  moreover have "unat (s - 1) = unat s - 1" using s by (simp add: unat_sub word_le_nat_alt)
  ultimately show ?thesis using False ys fl by (simp add: clk_shift_def word_less_nat_alt min_def)
qed

section \<open>Two slips of the initialisation\<close>

text \<open>
  \<^verbatim>\<open>sd_cmd\<close> means to hand the response to \<^verbatim>\<open>CMD_SEND_OP_COND\<close> back as it is, and to wait a
  millisecond for it. The code it compares with has the flag for application commands, which has
  been cleared by then: the response comes back reduced to the error bits, from any controller.
\<close>

lemma run_bind_and:
  "(\<And>v t. fst (run_state (f v) t) AND X = (0 :: u32)) \<Longrightarrow> fst (run_state (m \<bind> f) s) AND X = 0"
  by (simp add: run_state_bind split: prod.split)

lemma op_cond_masked: "fst (run_state (sd_cmd hw CMD_SEND_OP_COND arg) s) AND NOT CMD_ERRORS_MASK = 0"
proof -
  have m: "(r AND CMD_ERRORS_MASK) AND - 0xFFF9C005 = 0" for r :: u32
    unfolding and.assoc by simp
  have c: "CMD_SEND_OP_COND AND CMD_NEED_APP \<noteq> 0" "CMD_SEND_OP_COND AND NOT CMD_NEED_APP = 0x29020000"
    by simp_all
  have r: "fst (run_state (cmd_result hw 0x29020000 arg) t) AND - 0xFFF9C005 = 0" for t
    unfolding cmd_result_def by (rule run_bind_and) (use m in simp)
  have "fst (run_state (cmd_send hw 0x29020000 arg) t) AND - 0xFFF9C005 = 0" for t
    unfolding cmd_send_def by (intro run_bind_and) (auto simp del: run_state_bind intro!: run_bind_and r)
  then show ?thesis
    by (subst sd_cmd.simps) (auto simp: c simp del: run_state_bind intro!: run_bind_and)
qed

text \<open>
  The loop that reads the configuration register has a counter that it tests and never counts
  down: as long as the controller has no data, no number of rounds ends it.
\<close>

lemma scr_loop_waits:
  assumes "\<And>h. fst (hw_rd hw STATUS h) AND SR_READ_AVAILABLE = 0" and "r < 2"
  shows "fst (run_state (scr_loop hw fuel r) s) = False"
proof (induction fuel arbitrary: s)
  case (Suc fuel)
  have "fst (run_state (rd hw STATUS) s) AND SR_READ_AVAILABLE = 0" for s
    using assms(1) [of "sd_h s"] by (cases "hw_rd hw STATUS (sd_h s)") (simp add: rd_def)
  from this [of s] show ?case
    using Suc assms(2) by (subst scr_loop.simps) (auto simp: run_state_bind split: prod.split)
qed (use assms(2) in \<open>subst scr_loop.simps, simp\<close>)

end
