(* ===== verification/Sd_Init.thy ===== *)
theory Sd_Init
  imports Sdhci
begin

text \<open>
  The initialisation of the card returns. Every loop of \<^verbatim>\<open>sd_init\<close> but one counts down. The loop that reads the
  configuration register has no bound of its own; it ends on a controller that delivers the data it has announced.
  That is the predicate \<open>sd_buffer\<close>: what the specification of the host controller says of the status register
  of interrupts and of the flag \<^verbatim>\<open>SR_READ_AVAILABLE\<close>.
\<close>

section \<open>Controllers that deliver what they announce\<close>

text \<open>
  \<open>fetch hw n h\<close>: the state after the next word of data has been read, if the controller has one within \<open>n\<close>
  looks at its status register, one microsecond apart.
\<close>

fun fetch :: "'h sdhw \<Rightarrow> nat \<Rightarrow> 'h \<Rightarrow> 'h option" where
  "fetch hw 0 h = None"
| "fetch hw (Suc n) h = (case hw_rd hw STATUS h of (st, h1) \<Rightarrow>
     if st AND SR_READ_AVAILABLE \<noteq> 0 then Some (snd (hw_rd hw DATA h1)) else fetch hw n (hw_wait hw 1 h1))"

text \<open>
  A flag of the interrupt register stays until it is cleared. When the buffer is ready to be read and the flag
  that says so is cleared, two words of data can be read, each within \<open>n\<close> looks.
\<close>

definition sd_buffer :: "'h sdhw \<Rightarrow> nat \<Rightarrow> bool" where
  "sd_buffer hw n \<longleftrightarrow>
     (\<forall>h. fst (hw_rd hw INTERRUPT h) AND NOT (fst (hw_rd hw INTERRUPT (snd (hw_rd hw INTERRUPT h)))) = 0) \<and>
     (\<forall>h. fst (hw_rd hw INTERRUPT h) AND INT_READ_RDY \<noteq> 0 \<longrightarrow>
       (\<exists>h1 h2. fetch hw n (hw_wr hw INTERRUPT INT_READ_RDY (snd (hw_rd hw INTERRUPT h))) = Some h1 \<and> fetch hw n h1 = Some h2))"

section \<open>The loop that reads the configuration register\<close>

lemma scr_loop_fetch:
  "fetch hw n (sd_h s) = Some h1 \<Longrightarrow> r < 2 \<Longrightarrow> n \<le> fuel \<Longrightarrow>
    \<exists>k s'. fuel - n \<le> k \<and> sd_h s' = h1 \<and> run_state (scr_loop hw fuel r) s = run_state (scr_loop hw k (Suc r)) s'"
proof (induction n arbitrary: s fuel)
  case (Suc n)
  obtain f where f: "fuel = Suc f" "n \<le> f" using Suc.prems(3) by (cases fuel) auto
  obtain st h where st: "hw_rd hw STATUS (sd_h s) = (st, h)" by fastforce
  show ?case
  proof (cases "st AND SR_READ_AVAILABLE = 0")
    case True
    then have "fetch hw n (sd_h (s\<lparr>sd_h := hw_wait hw 1 h\<rparr>)) = Some h1" using Suc.prems(1) st by simp
    then obtain k s' where "f - n \<le> k" "sd_h s' = h1"
        "run_state (scr_loop hw f r) (s\<lparr>sd_h := hw_wait hw 1 h\<rparr>) = run_state (scr_loop hw k (Suc r)) s'"
      using Suc.IH [OF _ Suc.prems(2) f(2)] by blast
    then show ?thesis
      using True st Suc.prems(2) f by (subst scr_loop.simps) (auto simp: run_state_bind rd_def wait_msec_def)
  next
    case False
    obtain v h' where v: "hw_rd hw DATA h = (v, h')" by fastforce
    then have "h1 = h'" using False st Suc.prems(1) by simp
    then show ?thesis
      using False st v Suc.prems(2) f
      by (subst scr_loop.simps)
        (auto simp: run_state_bind rd_def setv_def intro!: exI [of _ f] exI [of _ "set_scr r v (s\<lparr>sd_h := h'\<rparr>)"], simp add: set_scr_def)
  qed
qed simp

lemma scr_loop_ends:
  assumes "fetch hw n (sd_h s) = Some h1" and "fetch hw n h1 = Some h2" and "2 * n \<le> fuel"
  shows "fst (run_state (scr_loop hw fuel 0) s)"
proof -
  obtain k s1 where s1: "fuel - n \<le> k" "sd_h s1 = h1" "run_state (scr_loop hw fuel 0) s = run_state (scr_loop hw k 1) s1"
    using scr_loop_fetch [OF assms(1), of 0 fuel] assms(3) by auto
  obtain j s2 where "run_state (scr_loop hw k 1) s1 = run_state (scr_loop hw j 2) s2"
    using scr_loop_fetch [of hw n s1 h2 1 k] assms(2,3) s1(1,2) by (fastforce simp: numeral_2_eq_2)
  then show ?thesis using s1(3) by (simp add: scr_loop.simps [of hw j])
qed

text \<open>When \<^verbatim>\<open>sd_int\<close> succeeds, the interrupt it waited for was pending before it cleared it.\<close>

lemma int_loop_seen:
  "run_state (int_loop hw m n) s = (cnt, s1) \<Longrightarrow> 0 < cnt \<Longrightarrow>
    \<exists>h. s1 = s\<lparr>sd_h := snd (hw_rd hw INTERRUPT h)\<rparr> \<and> fst (hw_rd hw INTERRUPT h) AND m \<noteq> 0"
proof (induction n arbitrary: s)
  case 0
  then show ?case
    by (subst (asm) int_loop.simps) (auto simp: run_state_bind rd_def split: prod.splits if_splits intro!: exI [of _ "sd_h s"])
next
  case (Suc n)
  obtain i h where i: "hw_rd hw INTERRUPT (sd_h s) = (i, h)" by fastforce
  show ?case
  proof (cases "i AND m = 0")
    case True
    then have "run_state (int_loop hw m n) (s\<lparr>sd_h := hw_wait hw 1 h\<rparr>) = (cnt, s1)"
      using Suc.prems(1) i by (subst (asm) int_loop.simps) (simp add: run_state_bind rd_def wait_msec_def)
    from Suc.IH [OF this Suc.prems(2)] show ?thesis by simp
  next
    case False
    then show ?thesis
      using Suc.prems(1) i
      by (subst (asm) int_loop.simps) (auto simp: run_state_bind rd_def intro!: exI [of _ "sd_h s"])
  qed
qed

lemma flags_kept:
  assumes "i AND NOT r = (0 :: u32)" and "r AND e = 0" and "i AND (m OR e) \<noteq> 0"
  shows "r AND m \<noteq> 0"
proof
  assume "r AND m = 0"
  have "i = i AND r" using assms(1) by (auto simp: bit_eq_iff bit_simps)
  then have "i AND (m OR e) = i AND ((r AND m) OR (r AND e))" by (metis and.assoc bit.conj_disj_distrib)
  then show False using assms(2,3) \<open>r AND m = 0\<close> by simp
qed

lemma sd_int_seen:
  assumes hw: "\<And>h. fst (hw_rd hw INTERRUPT h) AND NOT (fst (hw_rd hw INTERRUPT (snd (hw_rd hw INTERRUPT h)))) = 0"
    and r: "run_state (sd_int hw msk) s = (0, s')"
  shows "\<exists>h. fst (hw_rd hw INTERRUPT h) AND msk \<noteq> 0 \<and> sd_h s' = hw_wr hw INTERRUPT msk (snd (hw_rd hw INTERRUPT h))"
proof -
  obtain cnt s1 where l: "run_state (int_loop hw (msk OR INT_ERROR_MASK) 1000000) s = (cnt, s1)" by fastforce
  obtain v h2 where v: "hw_rd hw INTERRUPT (sd_h s1) = (v, h2)" by fastforce
  have ok: "0 < cnt" "v AND INT_ERROR_MASK = 0" "sd_h s' = hw_wr hw INTERRUPT msk h2"
    using r l v by (auto simp: sd_int_def run_state_bind rd_def wr_def split: if_splits)
  obtain h where h: "s1 = s\<lparr>sd_h := snd (hw_rd hw INTERRUPT h)\<rparr>" "fst (hw_rd hw INTERRUPT h) AND (msk OR INT_ERROR_MASK) \<noteq> 0"
    using int_loop_seen [OF l ok(1)] by blast
  have "fst (hw_rd hw INTERRUPT h) AND NOT v = 0" using hw [of h] v h(1) by simp
  then have "v AND msk \<noteq> 0" using flags_kept ok(2) h(2) by blast
  then show ?thesis using v ok(3) by (intro exI [of _ "sd_h s1"]) simp
qed

section \<open>The initialisation\<close>

definition returns :: "('h, 'a option) sdm \<Rightarrow> bool" where
  "returns m \<longleftrightarrow> (\<forall>s. fst (run_state m s) \<noteq> None)"

lemma returns_return: "returns (State_Monad.return (Some x))"
  by (simp add: returns_def)

lemma returns_bind: "(\<And>v. returns (f v)) \<Longrightarrow> returns (m \<bind> f)"
  by (simp add: returns_def run_state_bind split: prod.split)

lemma returns_bind_run: "(\<And>s v s'. run_state m s = (v, s') \<Longrightarrow> fst (run_state (f v) s') \<noteq> None) \<Longrightarrow> returns (m \<bind> f)"
  by (simp add: returns_def run_state_bind split: prod.split)

lemma returns_run: "returns m \<Longrightarrow> fst (run_state m s) \<noteq> None"
  by (simp add: returns_def)

lemma returns_cmd: "returns rest \<Longrightarrow> returns (cmd_then hw code arg rest)"
  unfolding cmd_then_def by (intro returns_bind) (simp add: returns_return)

lemma returns_after_scr:
  assumes "sd_buffer hw n" and "2 * n \<le> fuel" and "returns rest"
  shows "returns (do {
      r \<leftarrow> sd_int hw INT_READ_RDY;
      if r \<noteq> 0 then State_Monad.return (Some SD_TIMEOUT)
      else do { done \<leftarrow> scr_loop hw fuel 0; if \<not> done then State_Monad.return None else rest } })"
proof (rule returns_bind_run)
  fix s v s'
  assume r: "run_state (sd_int hw INT_READ_RDY) s = (v, s')"
  show "fst (run_state (if v \<noteq> 0 then State_Monad.return (Some SD_TIMEOUT)
      else do { done \<leftarrow> scr_loop hw fuel 0; if \<not> done then State_Monad.return None else rest }) s') \<noteq> None"
  proof (cases "v = 0")
    case True
    obtain h where h: "fst (hw_rd hw INTERRUPT h) AND INT_READ_RDY \<noteq> 0" "sd_h s' = hw_wr hw INTERRUPT INT_READ_RDY (snd (hw_rd hw INTERRUPT h))"
      using sd_int_seen [of hw INT_READ_RDY s s'] r True assms(1) by (auto simp: sd_buffer_def)
    then obtain h1 h2 where "fetch hw n (sd_h s') = Some h1" "fetch hw n h1 = Some h2"
      using assms(1) unfolding sd_buffer_def by metis
    then have "fst (run_state (scr_loop hw fuel 0) s')" using assms(2) by (rule scr_loop_ends)
    then show ?thesis
      using True returns_run [OF assms(3)] by (cases "run_state (scr_loop hw fuel 0) s'") (simp add: run_state_bind)
  qed simp
qed

lemma sd_init_returns:
  assumes "sd_buffer hw n" and "2 * n \<le> fuel"
  shows "\<exists>r s'. run_state (sd_init hw fuel) s = (Some r, s')"
proof -
  have scr: "returns (init_scr hw fuel ccs)" for ccs
    unfolding init_scr_def Let_def
    by (intro returns_bind) (auto intro!: returns_bind returns_cmd returns_return returns_after_scr [OF assms])
  have "returns (init_ident hw fuel ccs)" for ccs
    unfolding init_ident_def by (intro returns_bind) (auto intro!: returns_bind returns_cmd returns_return scr)
  then have "returns (sd_init hw fuel)"
    unfolding sd_init_def by (intro returns_bind) (auto intro!: returns_bind returns_cmd returns_return split: sum.split)
  then show ?thesis using returns_run [of _ s] by (cases "run_state (sd_init hw fuel) s") fastforce
qed

section \<open>A controller\<close>

text \<open>A controller with a card that answers every command; its state is the last command.\<close>

definition emmc_resp :: "u32 \<Rightarrow> u32" where
  "emmc_resp code = (if code = 0x29020000 then 0xC0FF8000 else if code = CMD_SEND_REL_ADDR then 0x10000
     else if code = CMD_SEND_IF_COND then 0x1AA else if code = CMD_APP_CMD OR CMD_RSPNS_48 then SR_APP_CMD else 0)"

definition demo_emmc :: "u32 sdhw" where
  "demo_emmc = \<lparr>hw_rd = (\<lambda>r h. (case r of CONTROL1 \<Rightarrow> C1_CLK_STABLE | INTERRUPT \<Rightarrow> INT_CMD_DONE OR INT_READ_RDY
       | STATUS \<Rightarrow> SR_READ_AVAILABLE | RESP0 \<Rightarrow> emmc_resp h | DATA \<Rightarrow> 0x400 | _ \<Rightarrow> 0, h)),
     hw_wr = (\<lambda>r v h. if r = CMDTM then v else h), hw_wait = (\<lambda>_ h. h), hw_nops = (\<lambda>_ h. h)\<rparr>"

lemma demo_emmc_buffer: "sd_buffer demo_emmc 1"
  by (simp add: sd_buffer_def demo_emmc_def)

lemma demo_init:
  "fst (run_state (sd_init demo_emmc 2) \<lparr>sd_h = 0, sd_scr0 = 0, sd_scr1 = 0, sd_rca = 0, sd_err = 0, sd_hv = 0\<rparr>) = Some 0"
  by (simp add: demo_emmc_def sd_init_def rd_def wr_def wait_msec_def setv_def getv_def sd_clk_def
      poll.simps reset_loop.simps cmd_then_def sd_cmd.simps cmd_send_def sd_status_def status_loop.simps set_err_def Let_def
      sd_int_def int_loop.simps cmd_result_def init_ident_def init_scr_def op_cond_loop.simps scr_loop.simps emmc_resp_def set_scr_def
      wait_cycles_def)

end
