(* ===== verification/Boot.thy ===== *)
theory Boot
  imports Kvm Trap Devices Sd_Init
begin

text \<open>
  The start of the kernel, \<^verbatim>\<open>kernel_main\<close> of \<^verbatim>\<open>kernel/main.c\<close> up to the call of \<^verbatim>\<open>scheduler\<close>: it puts the
  initialisation functions of the other components together. The state \<open>machine\<close> holds the state of
  the kernel, of the devices and of the driver of the card, the global variable \<^verbatim>\<open>kernel_pagetable\<close>
  and the flag the other processors wait for.
\<close>

section \<open>State and operations\<close>

record ('h, 'g) machine =
  m_os :: trapst
  m_dev :: "'h devst"
  m_sd :: "'g sdst"
  kernel_pagetable :: u64
  started :: int

definition on_dev :: "('h, unit) devm \<Rightarrow> ('h, 'g) machine \<Rightarrow> ('h, 'g) machine" where
  "on_dev f m = m\<lparr>m_dev := snd (run_state f (m_dev m))\<rparr>"

definition on_os :: "(trapst \<Rightarrow> trapst) \<Rightarrow> ('h, 'g) machine \<Rightarrow> ('h, 'g) machine" where
  "on_os f m = m\<lparr>m_os := f (m_os m)\<rparr>"

text \<open>
  \<^verbatim>\<open>consoleinit\<close> initialises the serial port; the table of devices it fills in is \<open>devsw\<close> of \<open>Console\<close>.
\<close>

definition consoleinit :: "'h mmio \<Rightarrow> ('h, 'g) machine \<Rightarrow> ('h, 'g) machine" where
  "consoleinit hw = on_dev (pl011_uart_init hw)"

definition kvminit :: "u64 \<Rightarrow> u64 \<Rightarrow> ('h, 'g) machine \<Rightarrow> ('h, 'g) machine result" where
  "kvminit etext trampoline m =
     bindR (kvmmake etext trampoline (m_os m)) (\<lambda>(kpgtbl, s). Inr (m\<lparr>m_os := s, kernel_pagetable := kpgtbl\<rparr>))"

text \<open>
  The part of processor 0 after the kernel's page table is made. \<^verbatim>\<open>trapinit\<close> does nothing. The result of
  \<^verbatim>\<open>sd_init\<close> is not looked at; the value \<open>Hang\<close> means that its loop is still running when the fuel is used up.
\<close>

definition boot_devices :: "'b tenv_scheme \<Rightarrow> 'h mmio \<Rightarrow> 'g sdhw \<Rightarrow> nat \<Rightarrow> ('h, 'g) machine \<Rightarrow> ('h, 'g) machine result" where
  "boot_devices k hw sdhw fuel m =
     (let m1 = on_os (kvminithart (kernel_pagetable m)) m;
          m2 = on_os procinit m1;
          m3 = on_os (trapinithart k (kernel_pagetable m2)) m2;
          m4 = on_dev (gic_init hw) m3;
          m5 = on_dev (pl011_uart_ie hw) m4;
          m6 = on_os timerinit m5
      in case run_state (sd_init sdhw fuel) (m_sd m6) of
           (None, _) \<Rightarrow> Inl Hang
         | (Some _, sd) \<Rightarrow> Inr (m6\<lparr>m_sd := sd\<rparr>))"

definition kernel_main ::
  "'b tenv_scheme \<Rightarrow> u64 \<Rightarrow> 'h mmio \<Rightarrow> 'g sdhw \<Rightarrow> nat \<Rightarrow> nat \<Rightarrow> ('h, 'g) machine \<Rightarrow> ('h, 'g) machine result" where
  "kernel_main k etext hw sdhw fuel c m =
     (if c = 0
      then let m1 = consoleinit hw m in
        bindR (kinit (k_end k) (m_os m1)) (\<lambda>s1.
        bindR (kvminit etext (k_trampoline k) (m1\<lparr>m_os := s1\<rparr>)) (\<lambda>m2.
        bindR (boot_devices k hw sdhw fuel m2) (\<lambda>m3.
        bindR (userinit (k_trampoline k) (k_forkret k) (m_os m3)) (\<lambda>s4.
          Inr (m3\<lparr>m_os := s4, started := 1\<rparr>)))))
      else if started m = 0 then Inl Hang
      else Inr (on_os timerinit (on_dev (gic_init hw) (on_os (trapinithart k (kernel_pagetable m))
        (on_os (kvminithart (kernel_pagetable m)) m)))))"

section \<open>The steps\<close>

lemma on_simps [simp]:
  "m_os (on_dev f m) = m_os m" "m_sd (on_dev f m) = m_sd m" "kernel_pagetable (on_dev f m) = kernel_pagetable m"
  "m_os (on_os g m) = g (m_os m)" "m_sd (on_os g m) = m_sd m" "kernel_pagetable (on_os g m) = kernel_pagetable m"
  by (simp_all add: on_dev_def on_os_def)


lemma procinit_simps [simp]:
  "length (procs (procinit s)) = length (procs s)" "mem (procinit s) = mem s" "freelist (procinit s) = freelist s"
  "nextpid (procinit s) = nextpid s"
  by (simp_all add: procinit_def)

lemma boot_regs_simps [simp]:
  "mem (kvminithart kp s) = mem s" "freelist (kvminithart kp s) = freelist s" "procs (kvminithart kp s) = procs s"
  "nextpid (kvminithart kp s) = nextpid s"
  "mem (trapinithart k kp s) = mem s" "freelist (trapinithart k kp s) = freelist s" "procs (trapinithart k kp s) = procs s"
  "nextpid (trapinithart k kp s) = nextpid s"
  "mem (timerinit s) = mem s" "freelist (timerinit s) = freelist s" "procs (timerinit s) = procs s" "nextpid (timerinit s) = nextpid s"
  by (simp_all add: kvminithart_def enable_mmu_def trapinithart_def timerinit_def timer_restart_def)

lemma boot_regs:
  "ttbr0_el1 (timerinit s) = ttbr0_el1 s" "vbar_el1 (timerinit s) = vbar_el1 s" "irqs_on (timerinit s) = irqs_on s"
  "ttbr0_el1 (trapinithart k kp s) = kp" "vbar_el1 (trapinithart k kp s) = k_kernelvec k" "irqs_on (trapinithart k kp s)"
  by (simp_all add: trapinithart_def timerinit_def timer_restart_def)





section \<open>Properties\<close>

text \<open>What the kernel is after its start: \<open>m\<close> before, \<open>m'\<close> when processor 0 enters the scheduler.\<close>

definition booted :: "'b tenv_scheme \<Rightarrow> u64 \<Rightarrow> ('h, 'g) machine \<Rightarrow> ('h, 'g) machine \<Rightarrow> bool" where
  "booted k etext m m' \<longleftrightarrow>
     (let s = m_os m'; p = procs s ! 0 in
      started m' = 1 \<and> ttbr0_el1 s = kernel_pagetable m' \<and> vbar_el1 s = k_kernelvec k \<and> irqs_on s \<and>
      length (procs s) = NPROC \<and> initproc s = Some 0 \<and> p_state p = RUNNABLE \<and> p_pid p = nextpid (m_os m) \<and>
      ctx_sp (p_ctx p) = KSTACK 0 + PGSIZE \<and> ctx_x30 (p_ctx p) = k_forkret k \<and>
      (\<forall>i < NPROC. 0 < i \<longrightarrow> p_state (procs s ! i) = UNUSED \<and> p_kstack (procs s ! i) = KSTACK i) \<and>
      (\<forall>v < MAXVA. xlate (mem s) (p_pagetable p) v = user_xlate (k_trampoline k) (p_tf p) v) \<and>
      (\<exists>stks xs. length stks = NPROC \<and> distinct (p_tf p # stks) \<and> set (p_tf p # stks) \<inter> set xs = {} \<and>
        apart (k_end k) s xs (p_pagetable p) (kernel_pagetable m') \<and>
        (\<forall>v < MAXVA. xlate (mem s) (kernel_pagetable m') v = kernel_space etext (k_trampoline k) stks v)))"


section \<open>A run\<close>



text \<open>The other processors wait for processor 0 and then run on its page table, without a change of memory or processes.\<close>

lemma other_processors:
  assumes "0 < c"
  shows "started m = 0 \<Longrightarrow> kernel_main k etext hw sdhw fuel c m = Inl Hang"
    and "booted k etext m0 m \<Longrightarrow> \<exists>m'. kernel_main k etext hw sdhw fuel c m = Inr m' \<and> ttbr0_el1 (m_os m') = kernel_pagetable m \<and>
      mem (m_os m') = mem (m_os m) \<and> procs (m_os m') = procs (m_os m)"
  using assms by (simp_all add: kernel_main_def booted_def Let_def boot_regs)

end
