(* ===== verification/Printf.thy ===== *)
theory Printf
  imports Console
begin

text \<open>
  Formatted output, \<^verbatim>\<open>kernel/printf.c\<close>, and the same code for user programs, \<^verbatim>\<open>user/printf.c\<close>.
  \<open>printint\<close> fills a local array of 20 characters; a digit beyond it is the error \<open>OutOfBounds\<close>.
  The variable arguments are a list of 64-bit values and strings; taking an argument that is not
  there, or a string where a number is expected, is \<open>Uninit\<close>. The result is the list of values
  passed to \<^verbatim>\<open>consputc\<close>, in order.
\<close>

section \<open>Numbers\<close>

definition digits :: "byte list" where
  "digits = [48, 49, 50, 51, 52, 53, 54, 55, 56, 57, 97, 98, 99, 100, 101, 102]"

text \<open>The characters are printed from the last stored to the first, so the array is kept in that order.\<close>

function printint_loop :: "u64 \<Rightarrow> u64 \<Rightarrow> byte list \<Rightarrow> byte list result" where
  "printint_loop base x buf =
     (if 20 \<le> length buf then Inl OutOfBounds
      else let buf' = digits ! unat (x mod base) # buf in
        if x div base \<noteq> 0 then printint_loop base (x div base) buf' else Inr buf')"
  by pat_completeness auto
termination
  by (relation "measure (\<lambda>(base, x, buf). 20 - length buf)") auto

declare printint_loop.simps [simp del]

definition printint :: "u64 \<Rightarrow> u64 \<Rightarrow> bool \<Rightarrow> byte list result" where
  "printint xx base sign =
     (let neg = (sign \<and> sint xx < 0) in
      bindR (printint_loop base (if neg then - xx else xx) []) (\<lambda>buf.
        if \<not> neg then Inr buf else if 20 \<le> length buf then Inl OutOfBounds else Inr (45 # buf)))"

fun printptr_loop :: "nat \<Rightarrow> u64 \<Rightarrow> byte list" where
  "printptr_loop 0 x = []"
| "printptr_loop (Suc n) x = digits ! unat (drop_bit 60 x) # printptr_loop n (push_bit 4 x)"

definition printptr :: "u64 \<Rightarrow> byte list" where
  "printptr x = [48, 120] @ printptr_loop 16 x"

section \<open>Formats\<close>

datatype varg = VNum u64 | VStr "byte list option"

definition num_arg :: "varg list \<Rightarrow> (u64 \<times> varg list) result" where
  "num_arg as = (case as of VNum x # as' \<Rightarrow> Inr (x, as') | _ \<Rightarrow> Inl Uninit)"

definition str_arg :: "varg list \<Rightarrow> (byte list \<times> varg list) result" where
  "str_arg as = (case as of
       VStr None # as' \<Rightarrow> Inr ([40, 110, 117, 108, 108, 41], as')
     | VStr (Some cs) # as' \<Rightarrow> Inr (takeWhile (\<lambda>c. c \<noteq> 0) cs, as')
     | _ \<Rightarrow> Inl Uninit)"

text \<open>
  One conversion: what it prints, how many characters of the format after \<open>c0\<close> it takes, and the
  arguments left. An \<^verbatim>\<open>int\<close> argument is sign-extended, a \<^verbatim>\<open>uint32\<close> one zero-extended. The branch for
  \<^verbatim>\<open>%p\<close> that would call \<^verbatim>\<open>printptr\<close> comes after one that has already matched.
\<close>

definition conv :: "byte \<Rightarrow> byte \<Rightarrow> byte \<Rightarrow> varg list \<Rightarrow> (int list \<times> nat \<times> varg list) result" where
  "conv c0 c1 c2 as =
     (let num = (\<lambda>ext base sign k. bindR (num_arg as) (\<lambda>(x, as'). bindR (printint (ext x) base sign) (\<lambda>cs. Inr (map uint cs, k, as')))) in
      if c0 = 100 then num (\<lambda>x. scast (ucast x :: u32)) 10 True 0
      else if c0 = 98 then num (\<lambda>x. x) 2 True 0
      else if c0 = 108 \<and> c1 = 100 then num (\<lambda>x. x) 10 True 1
      else if c0 = 108 \<and> c1 = 108 \<and> c2 = 100 then num (\<lambda>x. x) 10 True 2
      else if c0 = 117 then num (\<lambda>x. ucast (ucast x :: u32)) 10 False 0
      else if c0 = 108 \<and> c1 = 117 then num (\<lambda>x. x) 10 False 1
      else if c0 = 108 \<and> c1 = 108 \<and> c2 = 117 then num (\<lambda>x. x) 10 False 2
      else if c0 = 120 \<or> c0 = 112 then num (\<lambda>x. ucast (ucast x :: u32)) 16 False 0
      else if c0 = 108 \<and> c1 = 120 then num (\<lambda>x. x) 16 False 1
      else if c0 = 108 \<and> c1 = 108 \<and> c2 = 120 then num (\<lambda>x. x) 16 False 2
      else if c0 = 112 then bindR (num_arg as) (\<lambda>(x, as'). Inr (map uint (printptr x), 0, as'))
      else if c0 = 99 then bindR (num_arg as) (\<lambda>(x, as'). Inr ([sint (ucast x :: u32)], 0, as'))
      else if c0 = 115 then bindR (str_arg as) (\<lambda>(cs, as'). Inr (map uint cs, 0, as'))
      else if c0 = 37 then Inr ([37], 0, as)
      else Inr ([37, uint c0], 0, as))"

function printf_loop :: "byte list \<Rightarrow> varg list \<Rightarrow> int list result" where
  "printf_loop fmt as =
     (case fmt of
        [] \<Rightarrow> Inr []
      | cx # cs \<Rightarrow>
          if cx = 0 then Inr []
          else if cx \<noteq> 37 then bindR (printf_loop cs as) (\<lambda>out. Inr (uint cx # out))
          else let c0 = chr_at cs 0;
                 c1 = (if c0 \<noteq> 0 then chr_at cs 1 else 0);
                 c2 = (if c1 \<noteq> 0 then chr_at cs 2 else 0)
            in if c0 = 0 then Inr []
               else bindR (conv c0 c1 c2 as) (\<lambda>(o1, k, as').
                 bindR (printf_loop (drop (Suc k) cs) as') (\<lambda>o2. Inr (o1 @ o2))))"
  by pat_completeness auto
termination
  by (relation "measure (\<lambda>(fmt, as). length fmt)") auto

declare printf_loop.simps [simp del]

definition kprintf :: "byte list \<Rightarrow> varg list \<Rightarrow> 'a con_scheme \<Rightarrow> (int \<times> 'a con_scheme) result" where
  "kprintf fmt as s = bindR (printf_loop fmt as) (\<lambda>out. Inr (0, fold consputc out s))"

text \<open>The user's \<^verbatim>\<open>printf\<close> differs in passing each value to \<^verbatim>\<open>write\<close> as a \<^verbatim>\<open>char\<close>: the bytes written.\<close>

definition uprintf :: "byte list \<Rightarrow> varg list \<Rightarrow> byte list result" where
  "uprintf fmt as = bindR (printf_loop fmt as) (\<lambda>out. Inr (map word_of_int out))"

text \<open>The bytes of a literal, without the 0 behind them.\<close>

definition lit :: "string \<Rightarrow> byte list" where
  "lit cs = map of_char cs"

section \<open>The digits of a number\<close>

text \<open>The reference: the positional representation, most significant digit first.\<close>

function to_digits :: "nat \<Rightarrow> nat \<Rightarrow> byte list" where
  "to_digits b n = (if n < b \<or> b < 2 then [digits ! n] else to_digits b (n div b) @ [digits ! (n mod b)])"
  by pat_completeness auto
termination
  by (relation "measure snd") (auto intro: div_less_dividend)

declare to_digits.simps [simp del]

definition digit_val :: "byte \<Rightarrow> nat" where
  "digit_val c = (if c < 58 then unat c - 48 else unat c - 87)"

fun parse_nat :: "nat \<Rightarrow> nat \<Rightarrow> byte list \<Rightarrow> nat" where
  "parse_nat b acc [] = acc"
| "parse_nat b acc (c # cs) = parse_nat b (b * acc + digit_val c) cs"

definition parse_int :: "nat \<Rightarrow> byte list \<Rightarrow> int" where
  "parse_int b cs = (case cs of c # cs' \<Rightarrow> if c = 45 then - int (parse_nat b 0 cs') else int (parse_nat b 0 cs) | [] \<Rightarrow> 0)"

lemma digits_table: "\<forall>d \<in> set [0..<16]. digit_val (digits ! d) = d \<and> digits ! d \<noteq> 45"
  by code_simp

lemma digit_val_digits: "d < 16 \<Longrightarrow> digit_val (digits ! d) = d"
  and digits_not_minus: "d < 16 \<Longrightarrow> digits ! d \<noteq> 45"
  using digits_table by auto

lemma parse_nat_snoc: "parse_nat b acc (cs @ [c]) = b * parse_nat b acc cs + digit_val c"
  by (induction cs arbitrary: acc) auto

lemma parse_to_digits: "2 \<le> b \<Longrightarrow> b \<le> 16 \<Longrightarrow> parse_nat b 0 (to_digits b n) = n"
proof (induction b n rule: to_digits.induct)
  case (1 b n)
  show ?case
  proof (cases "n < b")
    case True
    then show ?thesis using "1.prems" by (simp add: to_digits.simps [of b n] digit_val_digits)
  next
    case False
    then have "n mod b < 16" using "1.prems" by (meson less_le_trans mod_less_divisor less_le_trans zero_less_numeral)
    with False 1 show ?thesis
      by (simp add: to_digits.simps [of b n] parse_nat_snoc digit_val_digits)
  qed
qed

lemma to_digits_hd: "2 \<le> b \<Longrightarrow> b \<le> 16 \<Longrightarrow> to_digits b n \<noteq> [] \<and> hd (to_digits b n) \<noteq> 45"
proof (induction b n rule: to_digits.induct)
  case (1 b n)
  show ?case
  proof (cases "n < b")
    case True
    then show ?thesis using "1.prems" digits_not_minus [of n] by (simp add: to_digits.simps [of b n])
  next
    case False
    then show ?thesis using 1 by (simp add: to_digits.simps [of b n])
  qed
qed

lemma to_digits_length: "2 \<le> b \<Longrightarrow> 0 < k \<Longrightarrow> length (to_digits b n) \<le> k \<longleftrightarrow> n < b ^ k"
proof (induction b n arbitrary: k rule: to_digits.induct)
  case (1 b n)
  show ?case
  proof (cases "n < b")
    case True
    then have "n < b ^ k" using "1.prems" self_le_power [of b k] by simp
    then show ?thesis using True "1.prems" by (simp add: to_digits.simps [of b n])
  next
    case False
    show ?thesis
    proof (cases "k = 1")
      case True
      have "0 < length (to_digits b (n div b))" by (subst to_digits.simps) simp
      with True False show ?thesis using "1.prems" by (subst to_digits.simps) simp
    next
      case k: False
      then obtain j where j: "k = Suc j" "0 < j" using "1.prems"(2) by (cases k) auto
      have "length (to_digits b (n div b)) \<le> j \<longleftrightarrow> n div b < b ^ j"
        using "1.IH" [of j] False "1.prems"(1) j(2) by simp
      also have "\<dots> \<longleftrightarrow> n < b ^ k"
        using "1.prems"(1) j(1) by (simp add: div_less_iff_less_mult mult.commute)
      finally show ?thesis using False "1.prems"(1) j(1) by (subst to_digits.simps) simp
    qed
  qed
qed

lemma printint_loop_digits:
  "2 \<le> unat base \<Longrightarrow> printint_loop base x buf =
     (if length (to_digits (unat base) (unat x)) + length buf \<le> 20
      then Inr (to_digits (unat base) (unat x) @ buf) else Inl OutOfBounds)"
proof (induction base x buf rule: printint_loop.induct)
  case (1 base x buf)
  let ?b = "unat base"
  have dz: "x div base = 0 \<longleftrightarrow> unat x < ?b"
    using "1.prems" by (simp add: word_unat_eq_iff unat_div div_eq_0_iff)
  have ne: "0 < length (to_digits ?b n)" for n by (subst to_digits.simps) simp
  show ?case
  proof (cases "20 \<le> length buf")
    case True
    then have "\<not> length (to_digits ?b (unat x)) + length buf \<le> 20" using ne [of "unat x"] by linarith
    then show ?thesis using True by (subst printint_loop.simps) simp
  next
    case len: False
    show ?thesis
    proof (cases "unat x < ?b")
      case True
      then show ?thesis
        using len dz by (subst printint_loop.simps) (simp add: to_digits.simps [of ?b "unat x"] unat_mod)
    next
      case False
      have "printint_loop base x buf = printint_loop base (x div base) (digits ! unat (x mod base) # buf)"
        using len dz False by (subst printint_loop.simps) simp
      also have "\<dots> = (if length (to_digits ?b (unat x div ?b)) + length (digits ! unat (x mod base) # buf) \<le> 20
          then Inr (to_digits ?b (unat x div ?b) @ digits ! unat (x mod base) # buf) else Inl OutOfBounds)"
        using "1.IH" [OF len refl] dz False "1.prems" by (simp add: unat_div)
      also have "\<dots> = (if length (to_digits ?b (unat x)) + length buf \<le> 20
          then Inr (to_digits ?b (unat x) @ buf) else Inl OutOfBounds)"
        using False "1.prems" by (simp add: to_digits.simps [of ?b "unat x"] unat_mod)
      finally show ?thesis .
    qed
  qed
qed

section \<open>Properties\<close>

lemma abs_word: "sint x < 0 \<Longrightarrow> int (unat (- x)) = - sint x" for x :: u64
proof -
  assume n: "sint x < 0"
  have "uint (- x) = uint (word_of_int (- sint x) :: u64)" by simp
  also have "\<dots> = take_bit 64 (- sint x)" by (subst uint_word_of_int_eq) simp
  also have "\<dots> = - sint x"
    using n sint_greater_eq [of x] by (intro take_bit_int_eq_self) simp_all
  finally show ?thesis by simp
qed

lemma unat_nonneg: "\<not> sint x < 0 \<Longrightarrow> int (unat x) = sint x" for x :: u64
proof -
  assume n: "\<not> sint x < 0"
  have "uint x = uint (word_of_int (sint x) :: u64)" by simp
  also have "\<dots> = take_bit 64 (sint x)" by (subst uint_word_of_int_eq) simp
  also have "\<dots> = sint x"
    using n sint_less [of x] by (intro take_bit_int_eq_self) simp_all
  finally show ?thesis by simp
qed

lemma unat_less_int: "unat x < k \<longleftrightarrow> int (unat x) < int k" for x :: u64
  by (simp only: of_nat_less_iff)

lemma printint_value:
  assumes "2 \<le> unat base" and "unat base \<le> 16"
    and "x = (if sign \<and> sint xx < 0 then - xx else xx)"
    and "length (to_digits (unat base) (unat x)) + (if sign \<and> sint xx < 0 then 1 else 0) \<le> 20"
  shows "\<exists>cs. printint xx base sign = Inr cs \<and> length cs \<le> 20 \<and>
    parse_int (unat base) cs = (if sign then sint xx else uint xx)"
proof (cases "sign \<and> sint xx < 0")
  case True
  then have "printint xx base sign = Inr (45 # to_digits (unat base) (unat (- xx)))"
    using assms printint_loop_digits [OF assms(1), of "- xx" "[]"] by (simp add: printint_def)
  then show ?thesis
    using True assms parse_to_digits [OF assms(1,2)] abs_word [of xx] by (simp add: parse_int_def)
next
  case False
  have x: "x = xx" using False assms(3) by auto
  have "printint xx base sign = Inr (to_digits (unat base) (unat xx))"
    using False assms(4) x printint_loop_digits [OF assms(1), of xx "[]"] by (auto simp: printint_def)
  moreover have "parse_int (unat base) (to_digits (unat base) (unat xx)) = int (unat xx)"
    using to_digits_hd [OF assms(1,2), of "unat xx"] parse_to_digits [OF assms(1,2), of "unat xx"]
    by (auto simp: parse_int_def split: list.splits)
  moreover have "int (unat xx) = (if sign then sint xx else uint xx)"
    using False unat_nonneg [of xx] by (cases sign) simp_all
  ultimately show ?thesis using assms(4) x by auto
qed

lemma decimal_fits:
  "length (to_digits 10 (unat (if sign \<and> sint xx < 0 then - xx else xx))) + (if sign \<and> sint xx < 0 then 1 else 0) \<le> 20" for xx :: u64
proof (cases "sign \<and> sint xx < 0")
  case True
  then have "unat (- xx) < 10 ^ 19"
    unfolding unat_less_int using abs_word [of xx] sint_greater_eq [of xx] by simp
  then have "length (to_digits 10 (unat (- xx))) \<le> 19" using to_digits_length [of 10 19] by simp
  then show ?thesis using True by simp
next
  case False
  let ?x = "if sign \<and> sint xx < 0 then - xx else xx"
  have "unat ?x < 10 ^ 20" using unat_bounds(4) [of ?x] by simp
  then have "length (to_digits 10 (unat ?x)) \<le> 20" using to_digits_length [of 10 20] by simp
  then show ?thesis using False by auto
qed

text \<open>Numbers that fit the array: decimal ones, hexadecimal ones, and binary ones of at most 20 digits.\<close>

lemma printint_fits:
  "\<exists>cs. printint x 10 sign = Inr cs" "\<exists>cs. printint x 16 False = Inr cs" "sint x \<ge> 0 \<Longrightarrow> unat x < 2 ^ 20 \<Longrightarrow> \<exists>cs. printint x 2 True = Inr cs"
proof -
  show "\<exists>cs. printint x 10 sign = Inr cs" using printint_value [of 10 _ sign x, OF _ _ refl] decimal_fits [of sign x] by auto
  have "unat x < 16 ^ 20" using unat_bounds(4) [of x] by simp
  then have "length (to_digits 16 (unat x)) \<le> 20" using to_digits_length [of 16 20] by simp
  then show "\<exists>cs. printint x 16 False = Inr cs" using printint_value [of 16 _ False x, OF _ _ refl] by auto
  assume "sint x \<ge> 0" "unat x < 2 ^ 20"
  moreover have "length (to_digits 2 (unat x)) \<le> 20" using to_digits_length [of 2 20 "unat x"] calculation(2) by simp
  ultimately show "\<exists>cs. printint x 2 True = Inr cs" using printint_value [of 2 _ True x, OF _ _ refl] by auto
qed

text \<open>
  C39. Decimal output is right and fits: for every 64-bit value, signed or not, \<^verbatim>\<open>printint\<close> in
  base 10 stays within its array of 20 characters, and reading the characters back as a decimal
  number gives the value.
\<close>

theorem printint_decimal:
  "\<exists>cs. printint xx 10 sign = Inr cs \<and> length cs \<le> 20 \<and> parse_int 10 cs = (if sign then sint xx else uint xx)"
  using printint_value [of 10 _ sign xx, OF _ _ refl] decimal_fits [of sign xx] by simp

text \<open>
  C40. Binary output overflows the array: \<^verbatim>\<open>printint\<close> in base 2, which \<^verbatim>\<open>%b\<close> uses, writes beyond
  its 20 characters exactly for the values of \<open>2 ^ 20\<close> and above, and for those of \<open>- 2 ^ 19\<close>
  and below.
\<close>

theorem printint_binary_overflow:
  "printint xx 2 True = Inl OutOfBounds \<longleftrightarrow> 2 ^ 20 \<le> sint xx \<or> sint xx \<le> - (2 ^ 19)"
proof (cases "sint xx < 0")
  case True
  have "length (to_digits 2 (unat (- xx))) \<le> 19 \<longleftrightarrow> unat (- xx) < 2 ^ 19" using to_digits_length [of 2 19] by simp
  also have "\<dots> \<longleftrightarrow> - sint xx < 2 ^ 19" unfolding unat_less_int abs_word [OF True] by simp
  finally show ?thesis
    using True printint_loop_digits [of 2 "- xx" "[]"] by (auto simp: printint_def)
next
  case False
  have "length (to_digits 2 (unat xx)) \<le> 20 \<longleftrightarrow> unat xx < 2 ^ 20" using to_digits_length [of 2 20] by simp
  also have "\<dots> \<longleftrightarrow> sint xx < 2 ^ 20" unfolding unat_less_int unat_nonneg [OF False] by simp
  finally show ?thesis
    using False printint_loop_digits [of 2 xx "[]"] by (auto simp: printint_def)
qed

end
