(* ===== verification/Trap_Report.thy ===== *)
theory Trap_Report
  imports Trap Printf
begin

text \<open>
  The report of an exception the vectors have no handler for, \<^verbatim>\<open>show_invalid_entry_message\<close> of \<^verbatim>\<open>kernel/trap.c\<close>: the
  message goes through the model of \<^verbatim>\<open>printf\<close>, with the format of the source.
\<close>

section \<open>The report\<close>

definition entry_error_messages :: "string list" where
  "entry_error_messages =
     [''SYNC_INVALID_EL1t'', ''IRQ_INVALID_EL1t'', ''FIQ_INVALID_EL1t'', ''ERROR_INVALID_EL1T'',
      ''SYNC_INVALID_EL1h'', ''IRQ_INVALID_EL1h'', ''FIQ_INVALID_EL1h'', ''ERROR_INVALID_EL1h'',
      ''SYNC_INVALID_EL0_64'', ''IRQ_INVALID_EL0_64'', ''FIQ_INVALID_EL0_64'', ''ERROR_INVALID_EL0_64'',
      ''SYNC_INVALID_EL0_32'', ''IRQ_INVALID_EL0_32'', ''FIQ_INVALID_EL0_32'', ''ERROR_INVALID_EL0_32'']"

definition entry_format :: "byte list" where
  "entry_format = lit (''curprocPid:%d TRAPFRAMEAdress:%p type:%s  ESR[EC]: %b  address: %x, '' @
     ''syscall_num:%d C-TF:%p curproc->tf->x8:%p\<newline>'')"

definition show_invalid_entry_message ::
    "nat \<Rightarrow> u64 \<Rightarrow> int \<Rightarrow> u64 \<Rightarrow> u64 \<Rightarrow> u64 \<Rightarrow> 'a fdt_scheme \<Rightarrow> (int \<times> 'a fdt_scheme) result" where
  "show_invalid_entry_message c TF type esr address syscall_num s =
     (case myproc c s of None \<Rightarrow> Inl NullDeref
      | Some p \<Rightarrow> let q = procs s ! p in
          if type < 0 \<or> int (length entry_error_messages) \<le> type then Inl OutOfBounds
          else kprintf entry_format
            [VNum (scast (p_pid q)), VNum TF, VStr (Some (lit (entry_error_messages ! nat type))), VNum (drop_bit 26 esr AND 0x3F),
             VNum address, VNum syscall_num, VNum (p_tf q), VNum (load64 (mem s) (unat (p_tf q) + tf_x 8))] s)"

section \<open>It is always printed\<close>

text \<open>Formats are read piece by piece: text up to the next conversion, and conversions.\<close>

lemma printf_text:
  "37 \<notin> set cs \<Longrightarrow> 0 \<notin> set cs \<Longrightarrow> printf_loop (cs @ fmt) as = bindR (printf_loop fmt as) (\<lambda>out. Inr (map uint cs @ out))"
proof (induction cs)
  case Nil
  then show ?case by (cases "printf_loop fmt as") simp_all
next
  case (Cons c cs)
  then show ?case by (cases "printf_loop fmt as") (auto simp: printf_loop.simps [of "c # cs @ fmt"])
qed

definition prints :: "byte list \<Rightarrow> varg list \<Rightarrow> bool" where
  "prints fmt as \<longleftrightarrow> (\<exists>out. printf_loop fmt as = Inr out)"

lemma prints_text: "37 \<notin> set cs \<Longrightarrow> 0 \<notin> set cs \<Longrightarrow> prints fmt as \<Longrightarrow> prints (cs @ fmt) as"
  by (auto simp: prints_def printf_text)

lemma prints_conv:
  assumes "c0 \<in> {100, 112, 120, 98, 115}" and "conv c0 (chr_at (c0 # fmt) 1) (if chr_at (c0 # fmt) 1 \<noteq> 0 then chr_at (c0 # fmt) 2 else 0) as = Inr (o1, 0, as')"
    and "prints fmt as'"
  shows "prints (37 # c0 # fmt) as"
proof -
  have "c0 \<noteq> 0" using assms(1) by auto
  then show ?thesis using assms(2,3) by (auto simp: prints_def printf_loop.simps [of "37 # c0 # fmt"] chr_at_def [of _ 0] Let_def)
qed

lemma prints_num:
  "prints fmt as \<Longrightarrow> prints (37 # 100 # fmt) (VNum x # as)" (is "_ \<Longrightarrow> ?d")
  "prints fmt as \<Longrightarrow> prints (37 # 112 # fmt) (VNum x # as)" (is "_ \<Longrightarrow> ?p")
  "prints fmt as \<Longrightarrow> prints (37 # 120 # fmt) (VNum x # as)" (is "_ \<Longrightarrow> ?x")
  "prints fmt as \<Longrightarrow> sint x \<ge> 0 \<Longrightarrow> unat x < 2 ^ 20 \<Longrightarrow> prints (37 # 98 # fmt) (VNum x # as)"
  "prints fmt as \<Longrightarrow> prints (37 # 115 # fmt) (VStr (Some cs) # as)"
proof -
  obtain cs1 cs2 where i: "printint (scast (ucast x :: u32)) 10 True = Inr cs1" "printint (ucast (ucast x :: u32)) 16 False = Inr cs2"
    using printint_fits by metis
  assume p: "prints fmt as"
  show ?d ?p ?x using i p by (auto intro!: prints_conv simp: conv_def num_arg_def Let_def)
  show "prints (37 # 115 # fmt) (VStr (Some cs) # as)" using p by (auto intro!: prints_conv simp: conv_def str_arg_def Let_def)
  assume "sint x \<ge> 0" "unat x < 2 ^ 20"
  then obtain cs3 where "printint x 2 True = Inr cs3" using printint_fits by metis
  then show "prints (37 # 98 # fmt) (VNum x # as)" using p by (auto intro!: prints_conv simp: conv_def num_arg_def Let_def)
qed

lemma prints_Nil: "prints [] as"
  by (simp add: prints_def printf_loop.simps)

lemma entry_format_split: "entry_format =
  lit ''curprocPid:'' @ 37 # 100 # lit '' TRAPFRAMEAdress:'' @ 37 # 112 # lit '' type:'' @ 37 # 115 # lit ''  ESR[EC]: '' @ 37 # 98 #
  lit ''  address: '' @ 37 # 120 # lit '', syscall_num:'' @ 37 # 100 # lit '' C-TF:'' @ 37 # 112 # lit '' curproc->tf->x8:'' @ 37 # 112 # lit ''\<newline>'' @ []"
  by (simp add: entry_format_def lit_def)

text \<open>
  The report of every one of the sixteen kinds of exceptions is printed to its end, whatever the registers hold: no number
  overruns the array of \<^verbatim>\<open>printint\<close>, and the exception class, printed in base 2, has six digits at most.
\<close>

theorem entry_message_printed:
  assumes "myproc c s = Some p" and "0 \<le> type" and "type < 16"
  shows "\<exists>out. show_invalid_entry_message c TF type esr address num s = Inr (0, fold consputc out s)"
proof -
  let ?ec = "drop_bit 26 esr AND 0x3F :: u64"
  have m: "?ec = take_bit 6 (drop_bit 26 esr)" by (simp add: take_bit_eq_mask mask_eq_exp_minus_1)
  have lt: "unat ?ec < 64" unfolding m unsigned_take_bit_eq using take_bit_nat_less_exp [of 6 "unat (drop_bit 26 esr)"] by simp
  then have "uint ?ec < 64" unfolding unat_less_int by simp
  then have "signed_take_bit 63 (uint ?ec) = uint ?ec" by (intro signed_take_bit_int_eq_self) (simp_all add: order.trans [OF _ uint_ge_0])
  then have "sint ?ec = uint ?ec" by (subst sint_uint) simp
  then have ec: "unat ?ec < 2 ^ 20" "sint ?ec \<ge> 0" using lt uint_ge_0 [of ?ec] by (auto intro: less_trans)
  have "prints entry_format [VNum pid, VNum TF, VStr (Some m), VNum ?ec, VNum address, VNum num, VNum tf, VNum x8]" for pid m tf x8
    unfolding entry_format_split by (intro prints_text prints_num prints_Nil ec) (simp_all add: lit_def)
  then have k: "\<exists>out. kprintf entry_format [VNum pid, VNum TF, VStr (Some m), VNum ?ec, VNum address, VNum num, VNum tf, VNum x8] s =
      Inr (0, fold consputc out s)" for pid m tf x8
    unfolding kprintf_def prints_def by (metis bindR.simps(2))
  have "length entry_error_messages = 16" by (simp add: entry_error_messages_def)
  then show ?thesis using assms k by (simp add: show_invalid_entry_message_def Let_def)
qed

end
