(* ===== verification/Spinlock.thy ===== *)
theory Spinlock
  imports Prelude
begin

text \<open>
  Spinlocks, \<^verbatim>\<open>kernel/spinlock.c\<close>. The first part is the interleaving of many processors on many locks: the
  statements of \<^verbatim>\<open>acquire\<close> and \<^verbatim>\<open>release\<close> are the atomic steps of a processor, and the states
  reachable by any schedule of the processors satisfy mutual exclusion for each of the locks. The second part is
  the effect of a whole \<^verbatim>\<open>acquire\<close> and \<^verbatim>\<open>release\<close> on the locks and the interrupt mask of a processor.
\<close>

section \<open>Many locks, many processors\<close>

text \<open>
  Where a processor is with a lock: outside, then after each statement of \<^verbatim>\<open>acquire\<close> and of \<^verbatim>\<open>release\<close>.
\<close>

datatype lphase =
    Outside
  | Spinning \<comment> \<open>\<^verbatim>\<open>intr_off()\<close> done\<close>
  | Got \<comment> \<open>the test-and-set returned 0\<close>
  | Critical \<comment> \<open>\<^verbatim>\<open>lk->p = mycpu()\<close> done\<close>
  | Leaving \<comment> \<open>\<^verbatim>\<open>lk->p = 0\<close> done\<close>
  | Left \<comment> \<open>\<^verbatim>\<open>__sync_lock_release\<close> done\<close>

record 'l lockst =
  lk_locked :: "'l \<Rightarrow> bool"
  lk_p :: "'l \<Rightarrow> nat option"
  lk_pc :: "nat \<Rightarrow> 'l \<Rightarrow> lphase"
  lk_irq :: "nat \<Rightarrow> bool"

definition lock_init :: "'l lockst" where
  "lock_init = \<lparr>lk_locked = (\<lambda>_. False), lk_p = (\<lambda>_. None), lk_pc = (\<lambda>_ _. Outside), lk_irq = (\<lambda>_. True)\<rparr>"

definition goto :: "nat \<Rightarrow> 'l \<Rightarrow> lphase \<Rightarrow> 'l lockst \<Rightarrow> 'l lockst" where
  "goto c l ph s = s\<lparr>lk_pc := (lk_pc s)(c := (lk_pc s c)(l := ph))\<rparr>"

text \<open>The next statement of processor \<open>c\<close>, in its use of the lock \<open>l\<close>.\<close>

definition lock_step :: "nat \<Rightarrow> 'l \<Rightarrow> 'l lockst \<Rightarrow> 'l lockst" where
  "lock_step c l s =
     (case lk_pc s c l of
        Outside \<Rightarrow> goto c l Spinning (s\<lparr>lk_irq := (lk_irq s)(c := False)\<rparr>)
      | Spinning \<Rightarrow> if lk_locked s l then s\<lparr>lk_locked := (lk_locked s)(l := True)\<rparr>
          else goto c l Got (s\<lparr>lk_locked := (lk_locked s)(l := True)\<rparr>)
      | Got \<Rightarrow> goto c l Critical (s\<lparr>lk_p := (lk_p s)(l := Some c)\<rparr>)
      | Critical \<Rightarrow> goto c l Leaving (s\<lparr>lk_p := (lk_p s)(l := None)\<rparr>)
      | Leaving \<Rightarrow> goto c l Left (s\<lparr>lk_locked := (lk_locked s)(l := False)\<rparr>)
      | Left \<Rightarrow> goto c l Outside (s\<lparr>lk_irq := (lk_irq s)(c := True)\<rparr>))"

text \<open>
  A processor that is inside of \<^verbatim>\<open>acquire\<close> or \<^verbatim>\<open>release\<close> of a lock finishes the call before it turns to another
  lock; between the calls it may hold any number of locks and release them in any order.
\<close>

definition between :: "lphase \<Rightarrow> bool" where
  "between ph \<longleftrightarrow> ph = Outside \<or> ph = Critical"

inductive lock_moves :: "'l lockst \<Rightarrow> 'l lockst \<Rightarrow> bool" where
  move: "\<forall>k. k \<noteq> l \<longrightarrow> between (lk_pc s c k) \<Longrightarrow> lock_moves s (lock_step c l s)"

abbreviation lock_reach :: "'l lockst \<Rightarrow> bool" where
  "lock_reach \<equiv> reach (\<lambda>s. s = lock_init) lock_moves"

definition owns :: "'l lockst \<Rightarrow> nat \<Rightarrow> 'l \<Rightarrow> bool" where
  "owns s c l \<longleftrightarrow> lk_pc s c l \<in> {Got, Critical, Leaving}"

text \<open>The owner of each lock, if any, as an abstract value \<open>h\<close>.\<close>

definition lock_abs :: "'l lockst \<Rightarrow> ('l \<Rightarrow> nat option) \<Rightarrow> bool" where
  "lock_abs s h \<longleftrightarrow> (\<forall>c l. owns s c l \<longleftrightarrow> h l = Some c) \<and> (\<forall>l. lk_locked s l \<longleftrightarrow> h l \<noteq> None)"

definition lock_inv :: "'l lockst \<Rightarrow> bool" where
  "lock_inv s \<longleftrightarrow> (\<exists>h. lock_abs s h) \<and> (\<forall>c l. lk_pc s c l = Critical \<longrightarrow> lk_p s l = Some c) \<and>
     (\<forall>c l k. \<not> between (lk_pc s c l) \<longrightarrow> l \<noteq> k \<longrightarrow> between (lk_pc s c k)) \<and>
     (\<forall>c l. lk_pc s c l \<in> {Spinning, Got} \<longrightarrow> \<not> lk_irq s c)"

definition lock_abs_step :: "nat \<Rightarrow> 'l \<Rightarrow> 'l lockst \<Rightarrow> ('l \<Rightarrow> nat option) \<Rightarrow> 'l \<Rightarrow> nat option" where
  "lock_abs_step c l s h =
     (if lk_pc s c l = Spinning \<and> \<not> lk_locked s l then h(l := Some c) else if lk_pc s c l = Leaving then h(l := None) else h)"

lemma lock_inv_init: "lock_inv lock_init"
  by (auto simp: lock_inv_def lock_init_def lock_abs_def owns_def between_def)

lemma goto_simps [simp]:
  "lk_locked (goto c l ph s) = lk_locked s" "lk_p (goto c l ph s) = lk_p s" "lk_irq (goto c l ph s) = lk_irq s"
  "lk_pc (goto c l ph s) d k = (if d = c \<and> k = l then ph else lk_pc s d k)"
  by (simp_all add: goto_def)

lemma pc_step: "d \<noteq> c \<or> k \<noteq> l \<Longrightarrow> lk_pc (lock_step c l s) d k = lk_pc s d k"
  by (auto simp: lock_step_def split: lphase.splits)

lemma other_lock: "k \<noteq> l \<Longrightarrow> lk_locked (lock_step c l s) k = lk_locked s k \<and> lk_p (lock_step c l s) k = lk_p s k"
  by (auto simp: lock_step_def split: lphase.splits)

lemma owns_step: "d \<noteq> c \<or> k \<noteq> l \<Longrightarrow> owns (lock_step c l s) d k = owns s d k"
  by (simp add: owns_def pc_step)

lemma lock_abs_pres:
  assumes "lock_abs s h"
  shows "lock_abs (lock_step c l s) (lock_abs_step c l s h)"
proof -
  have o: "owns s d k \<longleftrightarrow> h k = Some d" for d k using assms by (simp add: lock_abs_def)
  have lk: "lk_locked s k \<longleftrightarrow> h k \<noteq> None" for k using assms by (simp add: lock_abs_def)
  have c: "owns (lock_step c l s) c l \<longleftrightarrow> lock_abs_step c l s h l = Some c"
    using o [of c l] by (cases "lk_pc s c l") (auto simp: lock_step_def lock_abs_step_def owns_def)
  have "owns (lock_step c l s) d k \<longleftrightarrow> lock_abs_step c l s h k = Some d" if "d \<noteq> c \<or> k \<noteq> l" for d k
    using o [of d k] o [of c l] lk [of l] that
    by (cases "lk_pc s c l") (auto simp: owns_step lock_abs_step_def owns_def [of s c l])
  moreover have "lk_locked (lock_step c l s) k \<longleftrightarrow> lock_abs_step c l s h k \<noteq> None" for k
    using lk [of k] other_lock [of k l c s] by (cases "k = l"; cases "lk_pc s c l") (auto simp: lock_step_def lock_abs_step_def)
  ultimately show ?thesis using c unfolding lock_abs_def by metis
qed

lemma lk_p_step:
  assumes "lock_abs s h" and "\<forall>d k. lk_pc s d k = Critical \<longrightarrow> lk_p s k = Some d" and "lk_pc (lock_step c l s) d k = Critical"
  shows "lk_p (lock_step c l s) k = Some d"
proof (cases "d = c \<and> k = l")
  case True
  then show ?thesis using assms(3) by (cases "lk_pc s c l") (auto simp: lock_step_def split: if_splits)
next
  case False
  then have d: "lk_pc s d k = Critical" using assms(3) pc_step [of d c k l s] by auto
  have "lk_p (lock_step c l s) k = lk_p s k"
  proof (cases "k = l")
    case True
    have "h l = Some d" using d True assms(1) unfolding lock_abs_def owns_def by blast
    then have "\<not> owns s c l" using True False assms(1) by (auto simp: lock_abs_def)
    then show ?thesis by (cases "lk_pc s c l") (auto simp: lock_step_def owns_def)
  qed (simp add: other_lock)
  then show ?thesis using assms(2) d by simp
qed

text \<open>Only the last statement of \<^verbatim>\<open>release\<close> enables the interrupts of a processor.\<close>

lemma irq_step: "lk_irq (lock_step c l s) d \<Longrightarrow> \<not> lk_irq s d \<Longrightarrow> d = c \<and> lk_pc s c l = Left"
  by (cases "lk_pc s c l") (auto simp: lock_step_def split: if_splits)

lemma irq_inv_step:
  assumes "\<forall>k. k \<noteq> l \<longrightarrow> between (lk_pc s c k)" and "\<forall>d k. lk_pc s d k \<in> {Spinning, Got} \<longrightarrow> \<not> lk_irq s d"
    and "lk_pc (lock_step c l s) d k \<in> {Spinning, Got}"
  shows "\<not> lk_irq (lock_step c l s) d"
proof (cases "d = c \<and> k = l")
  case True
  then show ?thesis
    using assms(2) [rule_format, of c l] assms(3) by (cases "lk_pc s c l") (auto simp: lock_step_def split: if_splits)
next
  case False
  then have "lk_pc s d k \<in> {Spinning, Got}" using assms(3) pc_step [of d c k l s] by auto
  then have "\<not> lk_irq s d" "d = c \<Longrightarrow> k = l" using assms(1,2) by (auto simp: between_def)
  then show ?thesis using irq_step [of c l s d] False by blast
qed

lemma lock_inv_step:
  assumes "lock_inv s" and "\<forall>k. k \<noteq> l \<longrightarrow> between (lk_pc s c k)"
  shows "lock_inv (lock_step c l s)"
proof -
  obtain h where h: "lock_abs s h" and p: "\<forall>d k. lk_pc s d k = Critical \<longrightarrow> lk_p s k = Some d"
    and q: "\<forall>d k. lk_pc s d k \<in> {Spinning, Got} \<longrightarrow> \<not> lk_irq s d"
    and b: "\<And>d k k'. \<not> between (lk_pc s d k) \<Longrightarrow> k \<noteq> k' \<Longrightarrow> between (lk_pc s d k')"
    using assms(1) by (auto simp: lock_inv_def)
  have "between (lk_pc (lock_step c l s) d k')" if "\<not> between (lk_pc (lock_step c l s) d k)" "k \<noteq> k'" for d k k'
    using that assms(2) b [of d k k'] pc_step [of d c k l s] pc_step [of d c k' l s] by (cases "d = c"; cases "k = l"; cases "k' = l") auto
  then show ?thesis
    unfolding lock_inv_def using lock_abs_pres [OF h] lk_p_step [OF h p] irq_inv_step [OF assms(2) q] by blast
qed

interpretation lock_machine: step_invariant "\<lambda>s. s = lock_init" lock_moves lock_inv
  by unfold_locales (auto intro: lock_inv_init lock_inv_step elim: lock_moves.cases)

section \<open>Whole operations\<close>

text \<open>
  The locks by name, and for each processor whether it takes interrupts. \<^verbatim>\<open>acquire\<close> of a lock that
  is held spins, which it does for ever when nothing else runs.
\<close>

record 'l locks =
  l_held :: "'l \<Rightarrow> nat option"
  l_irq :: "nat \<Rightarrow> bool"

definition acquire :: "nat \<Rightarrow> 'l \<Rightarrow> 'l locks \<Rightarrow> 'l locks result" where
  "acquire c l s =
     (let s1 = s\<lparr>l_irq := (l_irq s)(c := False)\<rparr> in
      if l_held s1 l \<noteq> None then Inl Hang else Inr (s1\<lparr>l_held := (l_held s1)(l := Some c)\<rparr>))"

definition release :: "nat \<Rightarrow> 'l \<Rightarrow> 'l locks \<Rightarrow> 'l locks" where
  "release c l s = s\<lparr>l_held := (l_held s)(l := None), l_irq := (l_irq s)(c := True)\<rparr>"

section \<open>Properties\<close>

text \<open>
  C30. Mutual exclusion, with any number of locks and processors that nest them: in every state that some interleaving of the statements of \<^verbatim>\<open>acquire\<close> and \<^verbatim>\<open>release\<close>
  reaches, at most one processor is between them with a lock, it is the one the lock records, and the lock word is
  set. A processor that is inside of \<^verbatim>\<open>acquire\<close> has interrupts disabled. (In the critical section it need not:
  the release of another lock enables them.)
\<close>

theorem lock_mutual_exclusion:
  assumes "lock_reach s"
  shows "(lk_pc s c l = Critical \<longrightarrow> lk_locked s l \<and> lk_p s l = Some c \<and> (\<forall>d. lk_pc s d l = Critical \<longrightarrow> d = c)) \<and>
    (lk_pc s c l \<in> {Spinning, Got} \<longrightarrow> \<not> lk_irq s c)"
proof -
  obtain h where h: "lock_abs s h" and r: "\<forall>c l. lk_pc s c l = Critical \<longrightarrow> lk_p s l = Some c"
    and q: "\<forall>c l. lk_pc s c l \<in> {Spinning, Got} \<longrightarrow> \<not> lk_irq s c"
    using lock_machine.reach_inv [OF assms(1)] by (auto simp: lock_inv_def)
  have "lk_locked s l" if "lk_pc s c l = Critical"
    using h that by (auto simp: lock_abs_def owns_def)
  moreover have "d = c" if "lk_pc s c l = Critical" "lk_pc s d l = Critical" for d using r that by (metis option.inject)
  ultimately show ?thesis using r q by blast
qed

text \<open>
  A schedule: processor 0 takes the lock \<open>True\<close> and, with it held, the lock \<open>False\<close>; processor 1 waits for the
  lock \<open>True\<close> all the while; then processor 0 releases \<open>False\<close>, and has interrupts enabled with \<open>True\<close> still held.
\<close>

definition demo_locks :: "(nat \<times> bool) list" where
  "demo_locks = [(0, True), (0, True), (0, True), (1, True), (1, True), (0, False), (0, False), (0, False),
     (0, False), (0, False), (0, False)]"

definition lock_run :: "(nat \<times> 'l) list \<Rightarrow> 'l lockst \<Rightarrow> 'l lockst" where
  "lock_run = fold (\<lambda>(c, l). lock_step c l)"

fun lock_run_ok :: "(nat \<times> bool) list \<Rightarrow> bool lockst \<Rightarrow> bool" where
  "lock_run_ok [] s = True"
| "lock_run_ok ((c, l) # es) s = (between (lk_pc s c (\<not> l)) \<and> lock_run_ok es (lock_step c l s))"

lemma lock_run_reach: "lock_reach s \<Longrightarrow> lock_run_ok es s \<Longrightarrow> lock_reach (lock_run es s)"
proof (induction es s rule: lock_run_ok.induct)
  case (2 c l es s)
  then have "\<forall>k. k \<noteq> l \<longrightarrow> between (lk_pc s c k)" by (cases l) auto
  then have "lock_reach (lock_step c l s)" using "2.prems"(1) by (blast intro: reach.step lock_moves.move)
  then show ?case using "2.IH" "2.prems"(2) by (simp add: lock_run_def)
qed (simp add: lock_run_def)

lemma demo_locks_reach: "lock_reach (lock_run (take 8 demo_locks) lock_init)" "lock_reach (lock_run (take 11 demo_locks) lock_init)"
  by (rule lock_run_reach, rule reach.start, rule refl, simp add: demo_locks_def lock_step_def lock_init_def between_def)+

lemma demo_locks_state:
  "lk_pc (lock_run (take 8 demo_locks) lock_init) 0 True = Critical" "lk_pc (lock_run (take 8 demo_locks) lock_init) 1 True = Spinning"
  "lk_pc (lock_run (take 11 demo_locks) lock_init) 0 True = Critical" "lk_irq (lock_run (take 11 demo_locks) lock_init) 0"
  by (simp_all add: lock_run_def demo_locks_def lock_step_def lock_init_def)

theorem lock_mutual_exclusion_witness:
  "let s = lock_run (take 8 demo_locks) lock_init
   in lk_locked s True \<and> lk_p s True = Some 0 \<and> (\<forall>d. lk_pc s d True = Critical \<longrightarrow> d = 0) \<and> \<not> lk_irq s 1"
proof -
  note x = lock_mutual_exclusion [OF demo_locks_reach(1)]
  from x [of 0 True] x [of 1 True] show ?thesis using demo_locks_state(1,2) by (simp add: Let_def)
qed

text \<open>
  What mutual exclusion does not give: a processor in a critical section may take interrupts, since \<^verbatim>\<open>release\<close> turns
  them on whatever other locks it holds.
\<close>

lemma critical_with_interrupts: "\<exists>s :: bool lockst. lock_reach s \<and> lk_pc s 0 True = Critical \<and> lk_irq s 0"
  using demo_locks_reach(2) demo_locks_state(3,4) by blast

text \<open>
  A free lock is always acquired, a held one never by the same processor again; and \<^verbatim>\<open>release\<close>
  turns interrupts on unconditionally, so leaving an inner critical section opens the outer one to
  interrupts.
\<close>

theorem nested_release_enables_interrupts:
  assumes "l \<noteq> l'" and "l_held s l = None" and "l_held s l' = None"
  shows "\<exists>s1 s2. acquire c l s = Inr s1 \<and> \<not> l_irq s1 c \<and> acquire c l s1 = Inl Hang \<and> acquire c l' s1 = Inr s2 \<and>
    l_held (release c l' s2) l = Some c \<and> l_irq (release c l' s2) c"
  using assms by (simp add: acquire_def release_def)

end
