(* ===== verification/Sched.thy ===== *)
theory Sched
  imports Proc Spinlock
begin

text \<open>
  The scheduler, \<^verbatim>\<open>scheduler\<close> and \<^verbatim>\<open>sched\<close> of \<^verbatim>\<open>kernel/proc.c\<close>, under interleaving. Every processor
  runs the loop of \<^verbatim>\<open>scheduler\<close>; it takes the lock of a slot, and when the slot is runnable switches
  to the process with the lock held; the process gives the processor back by \<^verbatim>\<open>sched\<close>, after
  \<^verbatim>\<open>yield\<close> or \<^verbatim>\<open>sleep\<close> has set its state. An event is one statement of a scheduler, a call of
  \<^verbatim>\<open>yield\<close> or \<^verbatim>\<open>sleep\<close> by the process that runs, or a \<^verbatim>\<open>wakeup\<close> or \<^verbatim>\<open>proc_kill\<close> that happens
  meanwhile.
\<close>

section \<open>State and steps\<close>

text \<open>Where the loop of a processor is; the number is the slot it looks at.\<close>

datatype spc =
    Scan nat \<comment> \<open>before \<^verbatim>\<open>acquire(&p->lock)\<close>\<close>
  | Locked nat \<comment> \<open>the lock is held\<close>
  | InProc nat \<comment> \<open>switched to the process\<close>
  | Back nat \<comment> \<open>the process has called \<^verbatim>\<open>sched\<close>\<close>
  | Unlock nat \<comment> \<open>before \<^verbatim>\<open>release(&p->lock)\<close>\<close>

record sched_st = pst +
  p_lock :: "nat \<Rightarrow> nat option"
  s_pc :: "nat \<Rightarrow> spc"

definition set_pc :: "nat \<Rightarrow> spc \<Rightarrow> 'a sched_st_scheme \<Rightarrow> 'a sched_st_scheme" where
  "set_pc c x s = s\<lparr>s_pc := (s_pc s)(c := x)\<rparr>"

text \<open>
  The next statement of the scheduler of processor \<open>c\<close>. A lock that is held is spun on; while the
  process runs, the scheduler does nothing. \<^verbatim>\<open>wfi\<close> after a round without a runnable slot only
  delays the next round.
\<close>

definition scheduler_step :: "nat \<Rightarrow> 'a sched_st_scheme \<Rightarrow> 'a sched_st_scheme" where
  "scheduler_step c s =
     (case s_pc s c of
        Scan p \<Rightarrow>
          if p_lock s p \<noteq> None then s
          else set_pc c (Locked p) (s\<lparr>p_lock := (p_lock s)(p := Some c)\<rparr>)
      | Locked p \<Rightarrow>
          if p_state (procs s ! p) = RUNNABLE
          then set_pc c (InProc p) ((upd_proc p (\<lambda>q. q\<lparr>p_state := RUNNING\<rparr>) s)\<lparr>cpu_proc := (cpu_proc s)(c := Some p)\<rparr>)
          else set_pc c (Unlock p) s
      | InProc p \<Rightarrow> s
      | Back p \<Rightarrow> set_pc c (Unlock p) (s\<lparr>cpu_proc := (cpu_proc s)(c := None)\<rparr>)
      | Unlock p \<Rightarrow> set_pc c (Scan (if Suc p < NPROC then Suc p else 0)) (s\<lparr>p_lock := (p_lock s)(p := None)\<rparr>))"

text \<open>\<^verbatim>\<open>sched\<close>: the process of processor \<open>c\<close> switches back to the scheduler.\<close>

definition sched :: "nat \<Rightarrow> 'a sched_st_scheme \<Rightarrow> 'a sched_st_scheme" where
  "sched c s = (case s_pc s c of InProc p \<Rightarrow> set_pc c (Back p) s | _ \<Rightarrow> s)"

datatype event = Step nat | Yield nat | Sleep nat chan | Wakeup chan | Kill u32

definition happen :: "event \<Rightarrow> 'a sched_st_scheme \<Rightarrow> 'a sched_st_scheme" where
  "happen e s =
     (case e of
        Step c \<Rightarrow> scheduler_step c s
      | Yield c \<Rightarrow> (case yield c s of Inr s1 \<Rightarrow> sched c s1 | Inl _ \<Rightarrow> s)
      | Sleep c ch \<Rightarrow> (case sleep_enter c ch s of Inr s1 \<Rightarrow> sched c s1 | Inl _ \<Rightarrow> s)
      | Wakeup ch \<Rightarrow> wakeup ch s
      | Kill pid \<Rightarrow> snd (proc_kill pid s))"

definition sched_start :: "'a sched_st_scheme \<Rightarrow> bool" where
  "sched_start s \<longleftrightarrow> (\<forall>c. s_pc s c = Scan 0) \<and> (\<forall>c. cpu_proc s c = None) \<and> (\<forall>p. p_lock s p = None)"

inductive sched_moves :: "'a sched_st_scheme \<Rightarrow> 'a sched_st_scheme \<Rightarrow> bool" where
  "sched_moves s (happen e s)"

abbreviation sched_reach :: "'a sched_st_scheme \<Rightarrow> bool" where
  "sched_reach \<equiv> reach sched_start sched_moves"

section \<open>The lock of a slot\<close>

fun holds :: "spc \<Rightarrow> nat option" where
  "holds (Scan p) = None"
| "holds (Locked p) = Some p"
| "holds (InProc p) = Some p"
| "holds (Back p) = Some p"
| "holds (Unlock p) = Some p"

fun runs :: "spc \<Rightarrow> nat option" where
  "runs (InProc p) = Some p"
| "runs (Back p) = Some p"
| "runs _ = None"

definition sched_inv :: "'a sched_st_scheme \<Rightarrow> bool" where
  "sched_inv s \<longleftrightarrow> (\<forall>c p. holds (s_pc s c) = Some p \<longleftrightarrow> p_lock s p = Some c) \<and> (\<forall>c. cpu_proc s c = runs (s_pc s c))"

lemma runs_holds: "runs x = Some p \<Longrightarrow> holds x = Some p"
  by (cases x) auto

lemma set_pc_simps [simp]:
  "s_pc (set_pc c x s) = (s_pc s)(c := x)" "p_lock (set_pc c x s) = p_lock s" "cpu_proc (set_pc c x s) = cpu_proc s"
  "procs (set_pc c x s) = procs s"
  by (simp_all add: set_pc_def)

lemma upd_proc_sched [simp]: "s_pc (upd_proc p f s) = s_pc s" "p_lock (upd_proc p f s) = p_lock s"
  by (simp_all add: upd_proc_def)

lemma sched_inv_cong:
  "s_pc s' = s_pc s \<Longrightarrow> p_lock s' = p_lock s \<Longrightarrow> cpu_proc s' = cpu_proc s \<Longrightarrow> sched_inv s' = sched_inv s"
  by (simp add: sched_inv_def)

text \<open>A step of one processor, seen from the invariant: its position, its lock, its process.\<close>

lemma sched_inv_move:
  assumes inv: "sched_inv s" and pc: "s_pc s' = (s_pc s)(c := x)" and cp: "\<forall>d. cpu_proc s' d = (if d = c then runs x else cpu_proc s d)"
    and lk: "(holds x = holds (s_pc s c) \<and> p_lock s' = p_lock s) \<or>
      (\<exists>p. holds (s_pc s c) = None \<and> holds x = Some p \<and> p_lock s p = None \<and> p_lock s' = (p_lock s)(p := Some c)) \<or>
      (\<exists>p. holds (s_pc s c) = Some p \<and> holds x = None \<and> p_lock s' = (p_lock s)(p := None))"
  shows "sched_inv s'"
proof -
  have l: "holds (s_pc s d) = Some p \<longleftrightarrow> p_lock s p = Some d" for d p using inv by (simp add: sched_inv_def)
  have "holds (s_pc s' d) = Some p \<longleftrightarrow> p_lock s' p = Some d" for d p
    using lk
  proof (elim disjE exE conjE)
    fix q assume "holds (s_pc s c) = None" "holds x = Some q" "p_lock s q = None" "p_lock s' = (p_lock s)(q := Some c)"
    then show ?thesis using l [of d p] l [of d q] l [of c p] pc by auto
  next
    fix q assume "holds (s_pc s c) = Some q" "holds x = None" "p_lock s' = (p_lock s)(q := None)"
    then show ?thesis using l [of d p] l [of d q] l [of c q] pc by auto
  qed (use l pc in auto)
  moreover have "cpu_proc s' d = runs (s_pc s' d)" for d using inv pc cp by (simp add: sched_inv_def)
  ultimately show ?thesis by (simp add: sched_inv_def)
qed

lemma sched_inv_scheduler_step:
  assumes "sched_inv s"
  shows "sched_inv (scheduler_step c s)"
proof -
  have cp: "cpu_proc s c = runs (s_pc s c)" using assms by (simp add: sched_inv_def)
  show ?thesis
  proof (cases "s_pc s c")
    case (Scan p)
    then show ?thesis
      using assms cp sched_inv_move [OF assms, of "scheduler_step c s" c "Locked p"]
      by (cases "p_lock s p") (auto simp: scheduler_step_def)
  next
    case (Locked p)
    then show ?thesis
      using cp sched_inv_move [OF assms, of "scheduler_step c s" c "InProc p"]
        sched_inv_move [OF assms, of "scheduler_step c s" c "Unlock p"]
      by (cases "p_state (procs s ! p) = RUNNABLE") (simp_all add: scheduler_step_def)
  next
    case (InProc p)
    then show ?thesis using assms by (simp add: scheduler_step_def)
  next
    case (Back p)
    then show ?thesis
      using cp sched_inv_move [OF assms, of "scheduler_step c s" c "Unlock p"] by (simp add: scheduler_step_def)
  next
    case (Unlock p)
    then show ?thesis
      using cp sched_inv_move [OF assms, of "scheduler_step c s" c "Scan (if Suc p < NPROC then Suc p else 0)"]
      by (auto simp: scheduler_step_def)
  qed
qed

lemma sched_inv_sched:
  assumes "sched_inv s"
  shows "sched_inv (sched c s)"
proof (cases "s_pc s c")
  case (InProc p)
  moreover have "cpu_proc s c = runs (s_pc s c)" using assms by (simp add: sched_inv_def)
  ultimately show ?thesis
    using sched_inv_move [OF assms, of "sched c s" c "Back p"] by (simp add: sched_def)
qed (use assms in \<open>simp_all add: sched_def\<close>)

lemma yield_sched: "yield c s = Inr s1 \<Longrightarrow> sched_inv s \<Longrightarrow> sched_inv s1"
  using sched_inv_cong [of s1 s] by (auto simp: yield_def split: option.splits)

lemma sleep_sched: "sleep_enter c ch s = Inr s1 \<Longrightarrow> sched_inv s \<Longrightarrow> sched_inv s1"
  using sched_inv_cong [of s1 s] by (auto simp: sleep_enter_def split: option.splits)

lemma sched_inv_happen: "sched_inv s \<Longrightarrow> sched_inv (happen e s)"
proof (cases e)
  case (Wakeup ch)
  assume "sched_inv s"
  then show ?thesis using sched_inv_cong [of "wakeup ch s" s] Wakeup by (simp add: happen_def wakeup_def)
next
  case (Kill pid)
  assume "sched_inv s"
  then show ?thesis
    using sched_inv_cong [of "snd (proc_kill pid s)" s] Kill by (simp add: happen_def proc_kill_eq)
qed (auto simp: happen_def intro: sched_inv_scheduler_step sched_inv_sched yield_sched sleep_sched split: sum.splits)

interpretation sched_machine: step_invariant sched_start sched_moves sched_inv
proof unfold_locales
  show "sched_inv s" if "sched_start s" for s :: "'a sched_st_scheme" using that by (simp add: sched_start_def sched_inv_def)
qed (auto intro: sched_inv_happen elim!: sched_moves.cases)

lemma sched_reach_step: "sched_reach s \<Longrightarrow> sched_reach (happen e s)"
  by (blast intro: reach.step sched_moves.intros)

section \<open>Properties\<close>

text \<open>
  C31. A process runs on one processor at a time: in every state reachable from the start by any
  interleaving of schedulers, yields, sleeps, wakeups and kills, no slot is the current process of
  two processors.
\<close>

theorem process_on_one_processor:
  assumes "sched_reach s" and "cpu_proc s c = Some p" and "cpu_proc s d = Some p"
  shows "c = d"
proof -
  have inv: "sched_inv s" by (rule sched_machine.reach_inv [OF assms(1)])
  then have "holds (s_pc s c) = Some p" "holds (s_pc s d) = Some p"
    using assms(2,3) runs_holds by (auto simp: sched_inv_def)
  then have "p_lock s p = Some c" "p_lock s p = Some d" using inv by (simp_all add: sched_inv_def)
  then show ?thesis by simp
qed

definition demo_sched :: "proc list \<Rightarrow> sched_st" where
  "demo_sched ps = \<lparr>mem = (\<lambda>_. 0), freelist = 0, procs = ps, nextpid = 2, cpu_proc = (\<lambda>_. None), initproc = None,
     p_lock = (\<lambda>_. None), s_pc = (\<lambda>_. Scan 0)\<rparr>"

theorem process_on_one_processor_witness:
  "let s = happen (Step 1) (happen (Step 1) (happen (Step 0) (demo_sched [idle_proc\<lparr>p_state := RUNNABLE\<rparr>])))
   in cpu_proc (happen (Step 0) s) 0 = Some 0 \<and> (\<forall>d. cpu_proc (happen (Step 0) s) d = Some 0 \<longrightarrow> 0 = d)"
proof -
  let ?init = "demo_sched [idle_proc\<lparr>p_state := RUNNABLE\<rparr>]"
  let ?s = "happen (Step 0) (happen (Step 1) (happen (Step 1) (happen (Step 0) ?init)))"
  have "sched_start ?init" by (simp add: sched_start_def demo_sched_def)
  then have r: "sched_reach ?s" by (intro sched_reach_step reach.start)
  have c: "cpu_proc ?s 0 = Some 0"
    by (simp add: happen_def scheduler_step_def demo_sched_def set_pc_def)
  show ?thesis unfolding Let_def using c process_on_one_processor [OF r c] by blast
qed

text \<open>
  A scheduler that reaches the slot of a process that is running elsewhere stays there, whatever
  else is runnable: as long as the process runs, no step of that scheduler changes anything.
\<close>

theorem scheduler_waits_for_running:
  assumes "sched_reach s" and "cpu_proc s c = Some p" and "s_pc s d = Scan p"
  shows "happen (Step d) s = s"
proof -
  have inv: "sched_inv s" by (rule sched_machine.reach_inv [OF assms(1)])
  then have "p_lock s p = Some c" using assms(2) runs_holds by (auto simp: sched_inv_def)
  then show ?thesis using assms(3) by (simp add: happen_def scheduler_step_def)
qed

theorem scheduler_waits_for_running_witness:
  "let s = happen (Step 0) (happen (Step 0) (demo_sched [idle_proc\<lparr>p_state := RUNNABLE\<rparr>, idle_proc\<lparr>p_state := RUNNABLE\<rparr>]))
   in happen (Step 1) s = s"
proof -
  let ?init = "demo_sched [idle_proc\<lparr>p_state := RUNNABLE\<rparr>, idle_proc\<lparr>p_state := RUNNABLE\<rparr>]"
  let ?s = "happen (Step 0) (happen (Step 0) ?init)"
  have "sched_start ?init" by (simp add: sched_start_def demo_sched_def)
  then have r: "sched_reach ?s" by (intro sched_reach_step reach.start)
  have "cpu_proc ?s 0 = Some 0" "s_pc ?s 1 = Scan 0"
    by (simp_all add: happen_def scheduler_step_def demo_sched_def set_pc_def)
  then show ?thesis unfolding Let_def by (rule scheduler_waits_for_running [OF r])
qed

end
