(* ===== verification/Fs_Alloc.thy ===== *)
theory Fs_Alloc
  imports Fs
begin

text \<open>
  The block allocator and the inode codec. \<open>blk_free\<close> is the abstract bitmap: which blocks the
  bitmap sectors of the card mark as free. \<^verbatim>\<open>balloc\<close> takes the first free block and changes nothing
  else, \<^verbatim>\<open>bfree\<close> undoes it; what \<^verbatim>\<open>iupdate\<close> writes is what \<^verbatim>\<open>iget\<close> reads, but for the addresses.
\<close>

section \<open>The bitmap\<close>

definition blk_free :: "(u32 \<Rightarrow> store) \<Rightarrow> u32 \<Rightarrow> nat \<Rightarrow> bool" where
  "blk_free dk ninodes b \<longleftrightarrow> bitmap_free (dk (BBLOCK (of_nat b) ninodes)) (b mod 4096)"

definition set_bit8 :: "store \<Rightarrow> nat \<Rightarrow> store" where
  "set_bit8 d bi = d(bi div 8 := d (bi div 8) OR push_bit (bi mod 8) 1)"

definition clear_bit8 :: "store \<Rightarrow> nat \<Rightarrow> store" where
  "clear_bit8 d bi = d(bi div 8 := d (bi div 8) AND NOT (push_bit (bi mod 8) 1))"

lemma byte_bit_0: "(x :: byte) AND push_bit n 1 = 0 \<longleftrightarrow> n < 8 \<longrightarrow> \<not> bit x n"
proof
  assume a: "x AND push_bit n 1 = 0"
  show "n < 8 \<longrightarrow> \<not> bit x n"
  proof
    assume "n < 8"
    moreover have "\<not> bit (x AND push_bit n 1) n" using a by simp
    ultimately show "\<not> bit x n" by (simp add: bit_simps)
  qed
next
  assume "n < 8 \<longrightarrow> \<not> bit x n"
  then show "x AND push_bit n 1 = 0" by (intro bit_word_eqI) (auto simp: bit_simps)
qed

lemma bitmap_free_bit: "bitmap_free d bi \<longleftrightarrow> \<not> bit (d (bi div 8)) (bi mod 8)"
  unfolding bitmap_free_def byte_bit_0 by simp

lemma bitmap_set: "bitmap_free (set_bit8 d bi) bj \<longleftrightarrow> bitmap_free d bj \<and> bj \<noteq> bi"
proof (cases "bj div 8 = bi div 8")
  case True
  have "bj mod 8 = bi mod 8 \<longleftrightarrow> bj = bi" using True by (metis div_mult_mod_eq)
  then show ?thesis using True by (auto simp: bitmap_free_bit set_bit8_def bit_simps)
next
  case False
  then show ?thesis by (auto simp: bitmap_free_bit set_bit8_def)
qed

lemma clear_set: "bitmap_free d bi \<Longrightarrow> clear_bit8 (set_bit8 d bi) bi = d"
proof -
  assume f: "bitmap_free d bi"
  have "(d (bi div 8) OR push_bit (bi mod 8) 1) AND NOT (push_bit (bi mod 8) 1) = d (bi div 8)"
    using f by (intro bit_word_eqI) (auto simp: bitmap_free_bit bit_simps)
  then show ?thesis by (auto simp: clear_bit8_def set_bit8_def)
qed

lemma unat_blk: "b < 2 ^ 32 \<Longrightarrow> unat ((of_nat b :: u32) div 4096) = b div 4096"
  by (simp add: unat_div unat_of_nat)

lemma unat_BBLOCK:
  assumes "b < 2 ^ 31" and "unat ninodes < 2 ^ 31"
  shows "unat (BBLOCK (of_nat b) ninodes) = b div 4096 + unat ninodes div 3 + 3"
proof -
  have nin: "(scast ninodes :: u64) = of_nat (unat ninodes)"
  proof -
    have "sint ninodes = int (unat ninodes)" using assms(2) sint_of_nat32 [of "unat ninodes"] by simp
    then show ?thesis by (metis of_int_of_nat_eq scast_eq)
  qed
  have b: "b div 4096 < 2 ^ 20" using assms(1) by (simp add: div_less_iff_less_mult)
  have "unat (ucast ((of_nat b :: u32) div 4096) :: u64) = b div 4096"
    using unat_blk [of b] assms(1) b by (simp add: unsigned_ucast_eq take_bit_nat_eq_self)
  moreover have "unat ((of_nat (unat ninodes) :: u64) div 3) = unat ninodes div 3"
    using assms(2) by (simp add: unat_div unsigned_ucast_eq take_bit_nat_eq_self)
  moreover have "unat ninodes div 3 < 2 ^ 31" using assms(2) by (meson div_le_dividend order_le_less_trans)
  ultimately have "unat ((ucast ((of_nat b :: u32) div 4096) :: u64) + of_nat (unat ninodes) div 3 + 3) =
      b div 4096 + unat ninodes div 3 + 3"
    using b by (simp add: unat_word_ariths)
  then show ?thesis
    using b \<open>unat ninodes div 3 < 2 ^ 31\<close> by (simp add: BBLOCK_def nin unsigned_ucast_eq take_bit_nat_eq_self)
qed

lemma BBLOCK_eq_iff:
  assumes "b < 2 ^ 31" and "c < 2 ^ 31" and "unat ninodes < 2 ^ 31"
  shows "BBLOCK (of_nat b) ninodes = BBLOCK (of_nat c) ninodes \<longleftrightarrow> b div 4096 = c div 4096"
  using unat_BBLOCK [OF assms(1,3)] unat_BBLOCK [OF assms(2,3)] by (auto simp: word_unat_eq_iff)

lemma BBLOCK_Suc:
  assumes "Suc b < 2 ^ 31" and "Suc b mod 4096 \<noteq> 0" and "unat ninodes < 2 ^ 31"
  shows "BBLOCK (of_nat (Suc b)) ninodes = BBLOCK (of_nat b) ninodes"
proof -
  have "Suc b div 4096 = b div 4096" using assms(2) by (simp add: div_Suc)
  then show ?thesis using assms BBLOCK_eq_iff [of "Suc b" b ninodes] by simp
qed

section \<open>balloc\<close>

lemma bread_again: "first_free s i \<Longrightarrow> bread dev n (brelse i (hold i d s)) = Inr (i, hold i (disk s n) s)"
  using bread_hold [of "drop_buf i d s" i dev n] by simp

lemma balloc_loop_step:
  assumes ff: "first_free s i" and "b < sz" and D: "b mod 4096 = 0 \<or> D = disk s (BBLOCK (of_nat b) ninodes)"
  shows "balloc_loop dev sz ninodes b i (hold i D s) =
    (let D' = disk s (BBLOCK (of_nat b) ninodes) in
     if bitmap_free D' (b mod 4096) then Inr (b, i, hold i D' s)
     else balloc_loop dev sz ninodes (Suc b) i (hold i D' s))"
  using assms(2) D bread_again [OF ff, of dev "BBLOCK (of_nat b) ninodes" D] hold_simps(1) [OF ff]
  by (subst balloc_loop.simps) (auto simp: Let_def)

lemma balloc_loop_found:
  assumes ff: "first_free s i" and nin: "unat ninodes < 2 ^ 31" and sz: "sz \<le> 2 ^ 31"
  shows "b \<le> b' \<Longrightarrow> b' < sz \<Longrightarrow> blk_free (disk s) ninodes b' \<Longrightarrow> \<forall>c. b \<le> c \<and> c < b' \<longrightarrow> \<not> blk_free (disk s) ninodes c \<Longrightarrow>
    b mod 4096 = 0 \<or> D = disk s (BBLOCK (of_nat b) ninodes) \<Longrightarrow>
    balloc_loop dev sz ninodes b i (hold i D s) = Inr (b', i, hold i (disk s (BBLOCK (of_nat b') ninodes)) s)"
proof (induction "b' - b" arbitrary: b D)
  case 0
  then have "b = b'" by simp
  with 0 show ?case using balloc_loop_step [OF ff, of b' sz D ninodes dev] by (simp add: blk_free_def Let_def)
next
  case (Suc k)
  then have lt: "b < b'" by simp
  let ?D = "disk s (BBLOCK (of_nat b) ninodes)"
  have "\<not> bitmap_free ?D (b mod 4096)" using Suc.prems(4) lt by (simp add: blk_free_def)
  then have "balloc_loop dev sz ninodes b i (hold i D s) = balloc_loop dev sz ninodes (Suc b) i (hold i ?D s)"
    using balloc_loop_step [OF ff, of b sz D ninodes dev] Suc.prems lt by (simp add: Let_def)
  also have "\<dots> = Inr (b', i, hold i (disk s (BBLOCK (of_nat b') ninodes)) s)"
  proof (rule Suc.hyps(1))
    show "Suc b mod 4096 = 0 \<or> ?D = disk s (BBLOCK (of_nat (Suc b)) ninodes)"
      using BBLOCK_Suc [of b ninodes] nin Suc.prems(2) lt sz by (cases "Suc b mod 4096 = 0") auto
  qed (use Suc lt in auto)
  finally show ?case .
qed

lemma balloc_loop_none:
  assumes ff: "first_free s i" and nin: "unat ninodes < 2 ^ 31" and sz: "sz \<le> 2 ^ 31"
  shows "b \<le> sz \<Longrightarrow> \<forall>c. b \<le> c \<and> c < sz \<longrightarrow> \<not> blk_free (disk s) ninodes c \<Longrightarrow>
    b mod 4096 = 0 \<or> D = disk s (BBLOCK (of_nat b) ninodes) \<or> b = sz \<Longrightarrow>
    \<exists>D'. balloc_loop dev sz ninodes b i (hold i D s) = Inr (sz, i, hold i D' s)"
proof (induction "sz - b" arbitrary: b D)
  case 0
  then show ?case by (subst balloc_loop.simps) auto
next
  case (Suc k)
  then have lt: "b < sz" by simp
  let ?D = "disk s (BBLOCK (of_nat b) ninodes)"
  have "\<not> bitmap_free ?D (b mod 4096)" using Suc.prems(2) lt by (simp add: blk_free_def)
  then have "balloc_loop dev sz ninodes b i (hold i D s) = balloc_loop dev sz ninodes (Suc b) i (hold i ?D s)"
    using balloc_loop_step [OF ff, of b sz D ninodes dev] Suc.prems lt by (auto simp: Let_def)
  moreover have "\<exists>D'. balloc_loop dev sz ninodes (Suc b) i (hold i ?D s) = Inr (sz, i, hold i D' s)"
  proof (rule Suc.hyps(1))
    show "Suc b mod 4096 = 0 \<or> ?D = disk s (BBLOCK (of_nat (Suc b)) ninodes) \<or> Suc b = sz"
      using BBLOCK_Suc [of b ninodes] nin lt sz by (cases "Suc b mod 4096 = 0 \<or> Suc b = sz") auto
  qed (use Suc lt in auto)
  ultimately show ?case by simp
qed

text \<open>A card with a sane superblock.\<close>

definition sb_ok :: "(u32 \<Rightarrow> store) \<Rightarrow> bool" where
  "sb_ok dk \<longleftrightarrow> unat (sb_size (dk 1)) < 2 ^ 31 \<and> unat (sb_ninodes (dk 1)) < 2 ^ 31"

lemma sint_nat: "unat (w :: u32) < 2 ^ 31 \<Longrightarrow> nat (sint w) = unat w"
  using sint_of_nat32 [of "unat w"] by simp

lemma balloc_eq:
  assumes ff: "first_free s i" and ok: "sb_ok (disk s)"
    and b: "b < unat (sb_size (disk s 1))" "blk_free (disk s) (sb_ninodes (disk s 1)) b"
    and least: "\<forall>c < b. \<not> blk_free (disk s) (sb_ninodes (disk s 1)) c"
  shows "balloc dev s = (let n = BBLOCK (of_nat b) (sb_ninodes (disk s 1)); d = set_bit8 (disk s n) (b mod 4096)
    in Inr (of_nat b, drop_buf i d (s\<lparr>disk := (disk s)(n := d)\<rparr>)))"
proof -
  let ?nin = "sb_ninodes (disk s 1)" and ?sz = "unat (sb_size (disk s 1))"
  have sz: "nat (sint (sb_size (disk s 1))) = ?sz" using ok sint_nat by (simp add: sb_ok_def)
  have l: "balloc_loop dev ?sz ?nin 0 i (hold i (disk s 1) s) = Inr (b, i, hold i (disk s (BBLOCK (of_nat b) ?nin)) s)"
    using balloc_loop_found [OF ff, of ?nin ?sz 0 b] b least ok by (auto simp: sb_ok_def)
  have "\<not> ?sz \<le> b" using b by simp
  then show ?thesis
    using bread_hold [OF ff, of dev 1] l ff
    by (simp add: balloc_def sz Let_def set_bit8_def)
qed

lemma bfree_eq:
  assumes ff: "first_free s i"
  shows "bfree dev b s = (let n = BBLOCK b (sb_ninodes (disk s 1)); d = clear_bit8 (disk s n) (unat b mod 4096)
    in Inr (drop_buf i d (s\<lparr>disk := (disk s)(n := d)\<rparr>)))"
  using bread_hold [OF ff, of dev 1] bread_again [OF ff, of dev _ "disk s 1"] hold_simps [OF ff] bwrite_hold [OF ff] ff
  by (simp add: bfree_def Let_def clear_bit8_def)

lemma held_drop [simp]: "held (drop_buf i d s) = held s"
proof -
  have "busy (bufs (drop_buf i d s) ! j) = busy (bufs s ! j)" if "j < length (bufs s)" for j
    using that by (simp add: drop_buf_def nth_update_iff busy_def)
  then show ?thesis by (auto simp: held_def drop_buf_def)
qed

lemma held_disk [simp]: "held (s\<lparr>disk := d\<rparr>) = held s"
  by (simp add: held_def)

lemma first_free_iff: "held s \<noteq> {..<length (bufs s)} \<longleftrightarrow> (\<exists>i. first_free s i)"
  using first_free_ex [of s] held_full_iff [of s] by blast

text \<open>A small card, with 64 sectors, 3 inodes and the first two blocks in use.\<close>

definition demo_card :: "u32 \<Rightarrow> store" where
  "demo_card = (\<lambda>_ _. 0)(1 := store32 (store32 (\<lambda>_. 0) 0 64) 8 3, 4 := (\<lambda>_. 0)(0 := 3))"

definition full_card :: "u32 \<Rightarrow> store" where
  "full_card = (\<lambda>_ _. 0)(1 := store32 (store32 (\<lambda>_. 0) 0 64) 8 3, 4 := (\<lambda>_. 255))"

lemma demo_card_sb: "sb_size (demo_card 1) = 64" "sb_ninodes (demo_card 1) = 3" "sb_ok demo_card"
  by (simp_all add: demo_card_def sb_size_def sb_ninodes_def sb_ok_def load_simps)

lemma full_card_sb: "sb_size (full_card 1) = 64" "sb_ninodes (full_card 1) = 3" "sb_ok full_card"
  by (simp_all add: full_card_def sb_size_def sb_ninodes_def sb_ok_def load_simps)

lemma BBLOCK_small: "b < 4096 \<Longrightarrow> BBLOCK (of_nat b) 3 = 4"
  using unat_BBLOCK [of b 3] by (simp add: word_unat_eq_iff)

lemma demo_blk: "blk_free demo_card 3 2" "\<forall>c < 2. \<not> blk_free demo_card 3 c"
proof -
  have "blk_free demo_card 3 b \<longleftrightarrow> \<not> bit (3 :: byte) b" if "b < 8" for b
    using that BBLOCK_small [of b] by (simp add: blk_free_def demo_card_def bitmap_free_bit)
  then show "blk_free demo_card 3 2" "\<forall>c < 2. \<not> blk_free demo_card 3 c"
    by (auto simp: less_2_cases_iff bit_numeral_rec)
qed

lemma full_blk: "\<forall>c < 64. \<not> blk_free full_card 3 c"
proof (intro allI impI)
  fix c :: nat assume "c < 64"
  moreover have "bit (255 :: byte) n" if "n < 8" for n
  proof -
    have "(255 :: byte) = - 1" by simp
    then show ?thesis using that by (simp only: bit_minus_1_iff) simp
  qed
  ultimately show "\<not> blk_free full_card 3 c"
    using BBLOCK_small [of c] by (simp add: blk_free_def full_card_def bitmap_free_bit)
qed

lemma demo_not_held: "held ((demo_bio 2)\<lparr>disk := d\<rparr>) \<noteq> {..<length (bufs ((demo_bio 2)\<lparr>disk := d\<rparr>))}"
  by (simp add: held_full_iff) (simp add: demo_bio_def busy_def)

section \<open>Properties of the block allocator\<close>

text \<open>
  C32. \<^verbatim>\<open>balloc\<close> returns the first block the bitmap marks as free, and marks exactly that block as
  used: the state of every other block is unchanged, no sector but the one that holds the block's
  bit is written, and no buffer is kept.
\<close>

theorem balloc_takes_first_free:
  assumes "held s \<noteq> {..<length (bufs s)}" and "sb_ok (disk s)"
    and "b < unat (sb_size (disk s 1))" and "blk_free (disk s) (sb_ninodes (disk s 1)) b"
    and "\<forall>c < b. \<not> blk_free (disk s) (sb_ninodes (disk s 1)) c"
  shows "\<exists>s'. balloc dev s = Inr (of_nat b, s') \<and> held s' = held s \<and>
    (\<forall>c < 2 ^ 31. blk_free (disk s') (sb_ninodes (disk s 1)) c \<longleftrightarrow> blk_free (disk s) (sb_ninodes (disk s 1)) c \<and> c \<noteq> b) \<and>
    (\<forall>n. n \<noteq> BBLOCK (of_nat b) (sb_ninodes (disk s 1)) \<longrightarrow> disk s' n = disk s n)"
proof -
  let ?nin = "sb_ninodes (disk s 1)"
  let ?n = "BBLOCK (of_nat b) ?nin"
  let ?d = "set_bit8 (disk s ?n) (b mod 4096)"
  obtain i where ff: "first_free s i" using assms(1) first_free_iff by blast
  let ?s' = "drop_buf i ?d (s\<lparr>disk := (disk s)(?n := ?d)\<rparr>)"
  have r: "balloc dev s = Inr (of_nat b, ?s')" using balloc_eq [OF ff assms(2-5)] by (simp add: Let_def)
  have nin: "unat ?nin < 2 ^ 31" "b < 2 ^ 31" using assms(2,3) by (auto simp: sb_ok_def)
  have "blk_free (disk ?s') ?nin c \<longleftrightarrow> blk_free (disk s) ?nin c \<and> c \<noteq> b" if c: "c < 2 ^ 31" for c
  proof (cases "BBLOCK (of_nat c) ?nin = ?n")
    case True
    then have "c div 4096 = b div 4096" using BBLOCK_eq_iff [OF c nin(2,1)] by simp
    then have "c mod 4096 = b mod 4096 \<longleftrightarrow> c = b" by (metis div_mult_mod_eq)
    with True show ?thesis by (simp add: blk_free_def bitmap_set)
  next
    case False
    then show ?thesis by (auto simp: blk_free_def)
  qed
  moreover have "held ?s' = held s" by (simp only: held_drop held_disk)
  ultimately show ?thesis using r by auto
qed

theorem balloc_takes_first_free_witness:
  "\<exists>s'. balloc 1 ((demo_bio 2)\<lparr>disk := demo_card\<rparr>) = Inr (of_nat 2, s') \<and> (\<not> blk_free (disk s') 3 2)"
proof -
  let ?s = "(demo_bio 2)\<lparr>disk := demo_card\<rparr>"
  have e: "disk ?s = demo_card" by simp
  have "\<exists>s'. balloc 1 ?s = Inr (of_nat 2, s') \<and> held s' = held ?s \<and>
    (\<forall>c < 2 ^ 31. blk_free (disk s') (sb_ninodes (disk ?s 1)) c \<longleftrightarrow> blk_free (disk ?s) (sb_ninodes (disk ?s 1)) c \<and> c \<noteq> 2) \<and>
    (\<forall>n. n \<noteq> BBLOCK (of_nat 2) (sb_ninodes (disk ?s 1)) \<longrightarrow> disk s' n = disk ?s n)"
    by (rule balloc_takes_first_free [OF demo_not_held]) (use demo_blk in \<open>simp_all add: demo_card_sb\<close>)
  then show ?thesis by (auto simp: demo_card_sb)
qed

text \<open>
  When the bitmap marks no block of the card as free, \<^verbatim>\<open>balloc\<close> panics.
\<close>

theorem balloc_out_of_blocks:
  assumes "held s \<noteq> {..<length (bufs s)}" and "sb_ok (disk s)"
    and "\<forall>c < unat (sb_size (disk s 1)). \<not> blk_free (disk s) (sb_ninodes (disk s 1)) c"
  shows "balloc dev s = Inl (Panic ''balloc: out of blocks'')"
proof -
  let ?nin = "sb_ninodes (disk s 1)" and ?sz = "unat (sb_size (disk s 1))"
  obtain i where ff: "first_free s i" using assms(1) first_free_iff by blast
  have sz: "nat (sint (sb_size (disk s 1))) = ?sz" using assms(2) sint_nat by (simp add: sb_ok_def)
  obtain D' where "balloc_loop dev ?sz ?nin 0 i (hold i (disk s 1) s) = Inr (?sz, i, hold i D' s)"
    using balloc_loop_none [OF ff, of ?nin ?sz 0 "disk s 1" dev] assms(2,3) by (auto simp: sb_ok_def)
  then show ?thesis
    using bread_hold [OF ff, of dev 1] hold_simps [OF ff] by (simp add: balloc_def sz Let_def)
qed

theorem balloc_out_of_blocks_witness:
  "balloc 1 ((demo_bio 2)\<lparr>disk := full_card\<rparr>) = Inl (Panic ''balloc: out of blocks'')"
  by (rule balloc_out_of_blocks [OF demo_not_held]) (use full_blk in \<open>simp_all add: full_card_sb\<close>)

text \<open>
  C33. \<^verbatim>\<open>bfree\<close> undoes \<^verbatim>\<open>balloc\<close>: freeing the block just allocated succeeds and leaves the card
  exactly as it was before.
\<close>

theorem bfree_undoes_balloc:
  assumes "held s \<noteq> {..<length (bufs s)}" and "sb_ok (disk s)"
    and "b < unat (sb_size (disk s 1))" and "blk_free (disk s) (sb_ninodes (disk s 1)) b"
    and "\<forall>c < b. \<not> blk_free (disk s) (sb_ninodes (disk s 1)) c"
  shows "\<exists>s1 s2. balloc dev s = Inr (of_nat b, s1) \<and> bfree dev (of_nat b) s1 = Inr s2 \<and> disk s2 = disk s \<and> held s2 = held s"
proof -
  let ?nin = "sb_ninodes (disk s 1)"
  let ?n = "BBLOCK (of_nat b) ?nin"
  let ?d = "set_bit8 (disk s ?n) (b mod 4096)"
  obtain i where ff: "first_free s i" using assms(1) first_free_iff by blast
  let ?s1 = "drop_buf i ?d (s\<lparr>disk := (disk s)(?n := ?d)\<rparr>)"
  have r: "balloc dev s = Inr (of_nat b, ?s1)" using balloc_eq [OF ff assms(2-5)] by (simp add: Let_def)
  have ff1: "first_free ?s1 i" using ff by simp
  have nin: "unat ?nin < 2 ^ 31" "b < 2 ^ 31" using assms(2,3) by (auto simp: sb_ok_def)
  then have "unat ?n \<noteq> 1" using unat_BBLOCK [OF nin(2,1)] by simp
  then have "?n \<noteq> 1" by (metis unat_1)
  then have d1: "disk ?s1 1 = disk s 1" by simp
  have u: "unat (of_nat b :: u32) = b" using nin(2) by (simp add: unat_of_nat)
  have c: "clear_bit8 ?d (b mod 4096) = disk s ?n" using assms(4) by (simp add: clear_set blk_free_def)
  let ?s2 = "drop_buf i (disk s ?n) (?s1\<lparr>disk := (disk ?s1)(?n := disk s ?n)\<rparr>)"
  have "bfree dev (of_nat b) ?s1 = Inr ?s2"
    using bfree_eq [OF ff1, of dev "of_nat b"] unfolding d1 by (simp add: Let_def u c)
  moreover have "held ?s2 = held s" by (simp only: held_drop held_disk)
  ultimately show ?thesis using r by auto
qed

theorem bfree_undoes_balloc_witness:
  "\<exists>s1 s2. balloc 1 ((demo_bio 2)\<lparr>disk := demo_card\<rparr>) = Inr (of_nat 2, s1) \<and> bfree 1 (of_nat 2) s1 = Inr s2 \<and>
     disk s2 = disk ((demo_bio 2)\<lparr>disk := demo_card\<rparr>) \<and> held s2 = held ((demo_bio 2)\<lparr>disk := demo_card\<rparr>)"
  by (rule bfree_undoes_balloc [OF demo_not_held]) (use demo_blk in \<open>simp_all add: demo_card_sb\<close>)

section \<open>Inodes\<close>

lemma read_write_dinode:
  "read_dinode (write_dinode ip o' d) o' x = x\<lparr>i_type := i_type ip, i_major := i_major ip, i_minor := i_minor ip,
     i_nlink := i_nlink ip, i_size := i_size ip, i_addrs := map (\<lambda>k. load32 d (o' + 12 + 4 * k)) [0..<NDIRECT + 1]\<rparr>"
proof -
  have "load32 (write_dinode ip o' d) (o' + 12 + 4 * k) = load32 d (o' + 12 + 4 * k)" for k
    by (simp add: write_dinode_def load_simps)
  then show ?thesis by (simp add: read_dinode_def) (simp add: write_dinode_def load_simps)
qed

lemma upd_inode_simps [simp]:
  "disk (upd_inode i f s) = disk s" "bufs (upd_inode i f s) = bufs s" "mem (upd_inode i f s) = mem s"
  "first_free (upd_inode i f s) j = first_free s j" "inodes (upd_inode i f s) = (inodes s)[i := f (inodes s ! i)]"
  "held (upd_inode i f s) = held s"
  by (simp_all add: upd_inode_def first_free_def held_def)

lemma inodes_hold [simp]: "inodes (hold i d s) = inodes s" "inodes (drop_buf i d s) = inodes s"
  by (simp_all add: hold_def drop_buf_def)

lemma upd_inode_hold: "upd_inode j f (hold i d s) = hold i d (upd_inode j f s)"
  by (simp add: upd_inode_def hold_def)

lemma iupdate_eq:
  assumes ff: "first_free s b"
  shows "iupdate i s = (let ip = inodes s ! i; n = IBLOCK (i_inum ip);
      d = write_dinode ip (dinode_off (i_inum ip)) (disk s n)
    in Inr (drop_buf b d (s\<lparr>disk := (disk s)(n := d)\<rparr>)))"
  using bread_hold [OF ff] ff by (simp add: iupdate_def Let_def)

definition imatch :: "u32 \<Rightarrow> u32 \<Rightarrow> inode \<Rightarrow> bool" where
  "imatch dev inum ip \<longleftrightarrow> 0 < sint (i_count ip) \<and> i_dev ip = dev \<and> i_inum ip = inum"

text \<open>The search, with the free entry \<open>nip\<close> that an earlier one may have left.\<close>

lemma iget_scan_hit: "first_index (imatch dev inum) i ips = Some j \<Longrightarrow> \<exists>n. iget_scan dev inum i nip ips = Hit j n"
  by (induction dev inum i nip ips rule: iget_scan.induct) (auto simp: imatch_def split: if_splits)

lemma iget_scan_miss: "first_index (imatch dev inum) i ips = None \<Longrightarrow>
    iget_scan dev inum i nip ips = Miss (if nip \<noteq> None then nip else first_index (\<lambda>ip. i_count ip = 0) i ips)"
  by (induction dev inum i nip ips rule: iget_scan.induct) (auto simp: imatch_def split: if_splits)

lemma iget_loop_miss:
  assumes ff: "first_free s b" and "first_index (imatch dev inum) 0 (inodes s) = None"
    and "(if nip \<noteq> None then nip else first_index (\<lambda>ip. i_count ip = 0) 0 (inodes s)) = Some j"
  shows "iget_loop dev inum nip s = (let d = disk s (IBLOCK inum);
      f = (\<lambda>ip. read_dinode d (dinode_off inum) (ip\<lparr>i_dev := dev, i_inum := inum, i_count := 1, i_busy := 1\<rparr>))
    in Inr (j, drop_buf b d (upd_inode j f s)))"
proof -
  let ?g = "\<lambda>ip. ip\<lparr>i_dev := dev, i_inum := inum, i_count := 1, i_busy := 1\<rparr>"
  let ?d = "disk s (IBLOCK inum)"
  have ff1: "first_free (upd_inode j ?g s) b" using ff by simp
  have comp: "upd_inode j (read_dinode ?d (dinode_off inum)) (upd_inode j ?g s) =
      upd_inode j (\<lambda>ip. read_dinode ?d (dinode_off inum) (?g ip)) s"
    by (cases "j < length (inodes s)") (simp_all add: upd_inode_def list_update_beyond)
  show ?thesis
    unfolding iget_loop_def iget_scan_miss [OF assms(2)] assms(3)
    using bread_hold [OF ff1, of dev "IBLOCK inum"] ff comp by (simp add: Let_def upd_inode_hold)
qed

lemma iget_miss:
  assumes "first_free s b" and "first_index (imatch dev inum) 0 (inodes s) = None"
    and "first_index (\<lambda>ip. i_count ip = 0) 0 (inodes s) = Some j"
  shows "iget dev inum s = (let d = disk s (IBLOCK inum);
      f = (\<lambda>ip. read_dinode d (dinode_off inum) (ip\<lparr>i_dev := dev, i_inum := inum, i_count := 1, i_busy := 1\<rparr>))
    in Inr (j, drop_buf b d (upd_inode j f s)))"
  unfolding iget_def using assms(3) by (intro iget_loop_miss [OF assms(1,2)]) simp

lemma iget_loop_hit:
  assumes "first_index (imatch dev inum) 0 (inodes s) = Some j"
  shows "iget_loop dev inum nip s = (if i_busy (inodes s ! j) \<noteq> 0 then Inl Sleeps
    else Inr (j, upd_inode j (\<lambda>ip. ip\<lparr>i_count := i_count ip + 1, i_busy := 1\<rparr>) s))"
  using iget_scan_hit [OF assms, of nip] by (auto simp: iget_loop_def)

text \<open>
  C34. Writing an inode back and reading it again. After \<^verbatim>\<open>iupdate\<close>, \<^verbatim>\<open>iget\<close> into a table that does
  not hold the inode gives the type, the device numbers, the link count and the size that were
  written, in the first free entry, locked and with one reference; the block addresses are those
  that were on the card before, for \<^verbatim>\<open>iupdate\<close> does not write them.
\<close>

theorem iupdate_then_iget:
  assumes "first_free s b" and "ip = inodes s ! i"
    and "first_index (imatch (i_dev ip) (i_inum ip)) 0 t = None" and "first_index (\<lambda>x. i_count x = 0) 0 t = Some j"
  shows "\<exists>s1 s2. iupdate i s = Inr s1 \<and> iget (i_dev ip) (i_inum ip) (s1\<lparr>inodes := t\<rparr>) = Inr (j, s2) \<and>
    inodes s2 ! j = \<lparr>i_dev = i_dev ip, i_major = i_major ip, i_minor = i_minor ip, i_inum = i_inum ip, i_count = 1,
      i_busy = 1, i_type = i_type ip, i_nlink = i_nlink ip, i_size = i_size ip,
      i_addrs = map (\<lambda>k. load32 (disk s (IBLOCK (i_inum ip))) (dinode_off (i_inum ip) + 12 + 4 * k)) [0..<NDIRECT + 1]\<rparr>"
proof -
  let ?n = "IBLOCK (i_inum ip)"
  let ?d = "write_dinode ip (dinode_off (i_inum ip)) (disk s ?n)"
  let ?s1 = "drop_buf b ?d (s\<lparr>disk := (disk s)(?n := ?d)\<rparr>)"
  have u: "iupdate i s = Inr ?s1" using iupdate_eq [OF assms(1), of i] assms(2) by (simp add: Let_def)
  have "first_free ?s1 b" using assms(1) by simp
  then have ff: "first_free (?s1\<lparr>inodes := t\<rparr>) b" by (simp add: first_free_def)
  have j: "j < length t" using assms(4) by (simp add: first_index_Some)
  have d: "disk (?s1\<lparr>inodes := t\<rparr>) ?n = ?d" by (simp add: drop_buf_def)
  show ?thesis
    using u j iget_miss [OF ff, of "i_dev ip" "i_inum ip" j] assms(3,4)
    by (simp add: Let_def read_write_dinode d)
qed

definition demo_fs :: fs where
  "demo_fs = \<lparr>mem = (\<lambda>_. 0), freelist = 0, procs = [], nextpid = 1, cpu_proc = (\<lambda>_. None), initproc = None,
     bufs = replicate 3 \<lparr>bflags = 0, bdata = (\<lambda>_. 0)\<rparr>, disk = demo_card,
     inodes = [\<lparr>i_dev = 1, i_major = 0, i_minor = 0, i_inum = 2, i_count = 1, i_busy = 1, i_type = T_FILE,
       i_nlink = 1, i_size = 7, i_addrs = replicate 32 0\<rparr>]\<rparr>"

theorem iupdate_then_iget_witness:
  "\<exists>s1 s2. iupdate 0 demo_fs = Inr s1 \<and>
     iget 1 2 (s1\<lparr>inodes := [(inodes demo_fs ! 0)\<lparr>i_inum := 1\<rparr>, (inodes demo_fs ! 0)\<lparr>i_count := 0\<rparr>]\<rparr>) = Inr (1, s2) \<and>
     i_size (inodes s2 ! 1) = 7"
proof -
  let ?t = "[(inodes demo_fs ! 0)\<lparr>i_inum := 1\<rparr>, (inodes demo_fs ! 0)\<lparr>i_count := 0\<rparr>]"
  have ip: "i_dev (inodes demo_fs ! 0) = 1" "i_inum (inodes demo_fs ! 0) = 2" "i_size (inodes demo_fs ! 0) = 7"
    by (simp_all add: demo_fs_def)
  have ff: "first_free demo_fs 0" by (simp add: first_free_def demo_fs_def busy_def)
  have m: "first_index (imatch (i_dev (inodes demo_fs ! 0)) (i_inum (inodes demo_fs ! 0))) 0 ?t = None"
    by (simp add: imatch_def demo_fs_def)
  have f: "first_index (\<lambda>x. i_count x = 0) 0 ?t = Some 1" by (simp add: demo_fs_def)
  show ?thesis using iupdate_then_iget [OF ff refl m f] unfolding ip by fastforce
qed

end
