(* ===== verification/Fs_Inode.thy ===== *)
theory Fs_Inode
  imports Fs_Alloc
begin

text \<open>
  The table of inodes and its invariant: an inode of the card has at most one live entry, whatever
  sequence of inode operations runs. Reference counts have 32 bits and nothing stops them from
  passing the largest \<^verbatim>\<open>int\<close>, so the invariant is for runs of fewer than \<open>2\<^sup>3\<^sup>1\<close> operations.
\<close>

section \<open>One entry per inode\<close>

text \<open>\<open>iuniq n t\<close>: no count is above \<open>n\<close>, and entries with references differ in what they are entries of.\<close>

definition iuniq :: "nat \<Rightarrow> inode list \<Rightarrow> bool" where
  "iuniq n t \<longleftrightarrow> (\<forall>i < length t. unat (i_count (t ! i)) \<le> n) \<and>
     (\<forall>i < length t. \<forall>j < length t. i_count (t ! i) \<noteq> 0 \<and> i_count (t ! j) \<noteq> 0 \<and>
        i_dev (t ! i) = i_dev (t ! j) \<and> i_inum (t ! i) = i_inum (t ! j) \<longrightarrow> i = j)"

lemma sint_unat32: "unat (c :: u32) < 2 ^ 31 \<Longrightarrow> sint c = int (unat c)"
  using sint_of_nat32 [of "unat c"] by simp

lemma iuniq_live:
  assumes "iuniq n t" and "n < 2 ^ 31" and "i < length t"
  shows "imatch dev inum (t ! i) \<longleftrightarrow> i_count (t ! i) \<noteq> 0 \<and> i_dev (t ! i) = dev \<and> i_inum (t ! i) = inum"
proof -
  have "unat (i_count (t ! i)) < 2 ^ 31" using assms by (auto simp: iuniq_def intro: le_less_trans)
  then show ?thesis by (auto simp: imatch_def sint_unat32 unat_gt_0 simp del: of_nat_unat)
qed

lemma iuniq_mono: "iuniq n t \<Longrightarrow> n \<le> m \<Longrightarrow> iuniq m t"
  unfolding iuniq_def by (meson le_trans)

text \<open>A change of an entry that neither renames it nor brings it to life, and adds at most one reference.\<close>

locale keeps_entry =
  fixes f :: "inode \<Rightarrow> inode"
  assumes same_ids: "i_dev (f ip) = i_dev ip" "i_inum (f ip) = i_inum ip"
    and live_before: "i_count (f ip) \<noteq> 0 \<Longrightarrow> i_count ip \<noteq> 0"
    and count_step: "unat (i_count (f ip)) \<le> Suc (unat (i_count ip))"
begin

lemma keeps_iuniq:
  assumes "iuniq n t"
  shows "iuniq (Suc n) (t[k := f (t ! k)])"
proof -
  have "unat (i_count (t[k := f (t ! k)] ! i)) \<le> Suc n" if "i < length t" for i
    using assms that count_step [of "t ! k"] by (cases "i = k") (auto simp: iuniq_def intro: le_trans le_SucI)
  moreover have "i_count (t[k := f (t ! k)] ! i) \<noteq> 0 \<Longrightarrow> i_count (t ! i) \<noteq> 0" if "i < length t" for i
    using that live_before [of "t ! k"] by (cases "i = k") auto
  moreover have "i_dev (t[k := f (t ! k)] ! i) = i_dev (t ! i)" "i_inum (t[k := f (t ! k)] ! i) = i_inum (t ! i)"
    if "i < length t" for i
    using that same_ids by (cases "i = k"; simp)+
  ultimately show ?thesis using assms by (simp add: iuniq_def)
qed

end

lemma unat_add_one: "unat (c + 1 :: u32) \<le> Suc (unat c)"
  by (simp add: unat_word_ariths)

lemma unat_sub_one: "c \<noteq> 0 \<Longrightarrow> unat (c - 1 :: u32) \<le> Suc (unat c)"
  by (simp add: unat_sub unat_gt_0 word_le_nat_alt Suc_le_eq)

interpretation put_entry: keeps_entry "\<lambda>ip. if i_count ip \<noteq> 0 then ip\<lparr>i_count := i_count ip - 1, i_busy := 0\<rparr> else ip"
  by unfold_locales (auto intro: unat_sub_one split: if_splits)

interpretation incref_entry: keeps_entry "\<lambda>ip. if i_count ip \<noteq> 0 then ip\<lparr>i_count := i_count ip + 1\<rparr> else ip"
  by unfold_locales (auto intro: unat_add_one split: if_splits)

interpretation hit_entry: keeps_entry "\<lambda>ip. if i_count ip \<noteq> 0 then ip\<lparr>i_count := i_count ip + 1, i_busy := 1\<rparr> else ip"
  by unfold_locales (auto intro: unat_add_one split: if_splits)

interpretation busy_entry: keeps_entry "\<lambda>ip. ip\<lparr>i_busy := b\<rparr>" for b
  by unfold_locales auto

lemma iuniq_new:
  assumes u: "iuniq n t" and "n < 2 ^ 31" and "\<forall>ip \<in> set t. \<not> imatch dev inum ip"
    and ip: "i_count ip = 1" "i_dev ip = dev" "i_inum ip = inum"
  shows "iuniq (Suc n) (t[j := ip])"
proof -
  have "i_dev (t ! i) \<noteq> dev \<or> i_inum (t ! i) \<noteq> inum" if "i < length t" "i_count (t ! i) \<noteq> 0" for i
    using assms(3) nth_mem [OF that(1)] that(2) iuniq_live [OF u assms(2) that(1)] by blast
  then show ?thesis
    using u ip unfolding iuniq_def by (auto simp: nth_update_iff le_SucI) (metis+)?
qed

lemma wakeup_inodes [simp]: "inodes (wakeup ch s) = inodes s"
  by (simp add: wakeup_def)

lemma iget_table:
  assumes "iget_loop dev inum nip s = Inr (j, s')" and "iuniq n (inodes s)" and "n < 2 ^ 31"
  shows "iuniq (Suc n) (inodes s')"
proof (cases "first_index (imatch dev inum) 0 (inodes s)")
  case (Some k)
  then have k: "k < length (inodes s)" "imatch dev inum (inodes s ! k)" by (auto simp: first_index_Some)
  then have c: "i_count (inodes s ! k) \<noteq> 0" using iuniq_live [OF assms(2,3) k(1)] by simp
  have "inodes s' = (inodes s)[k := (inodes s ! k)\<lparr>i_count := i_count (inodes s ! k) + 1, i_busy := 1\<rparr>]"
    using assms(1) unfolding iget_loop_hit [OF Some] by (auto split: if_splits)
  then show ?thesis using hit_entry.keeps_iuniq [OF assms(2), of k] c by simp
next
  case None
  then have m: "\<forall>ip \<in> set (inodes s). \<not> imatch dev inum ip" by (simp add: first_index_None)
  obtain k where k: "(if nip \<noteq> None then nip else first_index (\<lambda>ip. i_count ip = 0) 0 (inodes s)) = Some k"
    using assms(1) by (auto simp: iget_loop_def iget_scan_miss [OF None] split: option.splits if_splits)
  obtain b where ff: "first_free s b"
    using assms(1) k bread_hang [of "upd_inode k (\<lambda>ip. ip\<lparr>i_dev := dev, i_inum := inum, i_count := 1, i_busy := 1\<rparr>) s"]
      first_free_ex [of s]
    by (auto simp: iget_loop_def iget_scan_miss [OF None] Let_def)
  let ?ip = "read_dinode (disk s (IBLOCK inum)) (dinode_off inum)
      ((inodes s ! k)\<lparr>i_dev := dev, i_inum := inum, i_count := 1, i_busy := 1\<rparr>)"
  have "inodes s' = (inodes s)[k := ?ip]"
    using assms(1) iget_loop_miss [OF ff None k] by (auto simp: Let_def)
  moreover have "i_count ?ip = 1" "i_dev ?ip = dev" "i_inum ?ip = inum" by (simp_all add: read_dinode_def)
  ultimately show ?thesis using iuniq_new [OF assms(2,3) m] by simp
qed

text \<open>
  The operations on the table, by a caller that holds a reference to the entry it names. A call of
  \<^verbatim>\<open>iget\<close> may have slept, and goes on with any \<open>nip\<close>.
\<close>

inductive inode_step :: "'a fs_scheme \<Rightarrow> 'a fs_scheme \<Rightarrow> bool" where
  get: "iget_loop dev inum nip s = Inr (j, s') \<Longrightarrow> inode_step s s'"
| put: "i_count (inodes s ! i) \<noteq> 0 \<Longrightarrow> inode_step s (iput i s)"
| incref: "i_count (inodes s ! i) \<noteq> 0 \<Longrightarrow> inode_step s (iincref i s)"
| lock: "ilock i s = Inr s' \<Longrightarrow> inode_step s s'"
| unlock: "inode_step s (iunlock i s)"
| update: "iupdate i s = Inr s' \<Longrightarrow> inode_step s s'"

lemma iupdate_table: "iupdate i s = Inr s' \<Longrightarrow> inodes s' = inodes s"
proof -
  assume a: "iupdate i s = Inr s'"
  have "\<exists>b. first_free s b"
    using a bread_hang [of s] first_free_ex [of s] by (auto simp: iupdate_def Let_def)
  then obtain b where "first_free s b" ..
  then show ?thesis using a iupdate_eq [of s b i] by (auto simp: Let_def)
qed

lemma inode_step_iuniq: "inode_step s s' \<Longrightarrow> iuniq n (inodes s) \<Longrightarrow> n < 2 ^ 31 \<Longrightarrow> iuniq (Suc n) (inodes s')"
proof (induction rule: inode_step.induct)
  case (get dev inum nip s j s')
  then show ?case using iget_table by blast
next
  case (put s i)
  then show ?case using put_entry.keeps_iuniq [OF put(2), of i] by (simp add: iput_def)
next
  case (incref s i)
  then show ?case using incref_entry.keeps_iuniq [OF incref(2), of i] by (simp add: iincref_def)
next
  case (lock i s s')
  then show ?case using busy_entry.keeps_iuniq [OF lock(2), of i 1] by (auto simp: ilock_def split: if_splits)
next
  case (unlock s i)
  then show ?case using busy_entry.keeps_iuniq [OF unlock(1), of i 0] by (simp add: iunlock_def)
next
  case (update i s s')
  then show ?case using iupdate_table iuniq_mono [of n _ "Suc n"] by (metis le_SucI order_refl)
qed

text \<open>At the start of the kernel no entry of the table has a reference.\<close>

definition fresh_table :: "'a fs_scheme \<Rightarrow> bool" where
  "fresh_table s \<longleftrightarrow> (\<forall>ip \<in> set (inodes s). i_count ip = 0)"

abbreviation inode_run :: "nat \<times> 'a fs_scheme \<Rightarrow> bool" where
  "inode_run \<equiv> reach (\<lambda>(n, s). n = 0 \<and> fresh_table s) (counted inode_step)"

interpretation inode_machine: step_invariant "\<lambda>(n, s). n = 0 \<and> fresh_table s" "counted inode_step"
  "\<lambda>(n, s). n < 2 ^ 31 \<longrightarrow> iuniq n (inodes s)"
proof (unfold_locales, goal_cases)
  case (1 ns)
  then show ?case by (auto simp: fresh_table_def iuniq_def)
next
  case (2 ns ns')
  then show ?case by (auto simp: counted_iff dest!: inode_step_iuniq)
qed

lemma iuniq_hit:
  assumes "iuniq n (inodes s)" and "n < 2 ^ 31" and "i < length (inodes s)" and "imatch dev inum (inodes s ! i)"
  shows "first_index (imatch dev inum) 0 (inodes s) = Some i"
proof (cases "first_index (imatch dev inum) 0 (inodes s)")
  case None
  then show ?thesis using assms(3,4) by (auto simp: first_index_None)
next
  case (Some k)
  then have "k < length (inodes s)" "imatch dev inum (inodes s ! k)" by (auto simp: first_index_Some)
  then have "k = i" using assms(1,3,4) iuniq_live [OF assms(1,2)] by (auto simp: iuniq_def)
  then show ?thesis using Some by simp
qed

text \<open>
  C20. An inode of the card has one entry of the table at a time. In every state that fewer than \<open>2\<^sup>3\<^sup>1\<close>
  calls of \<^verbatim>\<open>iget\<close>, \<^verbatim>\<open>iput\<close>, \<^verbatim>\<open>iincref\<close>, \<^verbatim>\<open>ilock\<close>, \<^verbatim>\<open>iunlock\<close> and \<^verbatim>\<open>iupdate\<close> reach from the table
  the kernel starts with, two live entries with the same
  device and number are the same entry; so whoever looks up an inode that is in use, or goes on looking after a sleep,
  gets the entry that the others use, or waits for it.
\<close>

theorem inode_entry_unique:
  assumes "inode_run (n, s)" and "n < 2 ^ 31" and "i < length (inodes s)" and "imatch dev inum (inodes s ! i)"
  shows "(\<forall>j < length (inodes s). imatch dev inum (inodes s ! j) \<longrightarrow> j = i) \<and>
    iget_loop dev inum nip s = (if i_busy (inodes s ! i) \<noteq> 0 then Inl Sleeps
      else Inr (i, upd_inode i (\<lambda>ip. ip\<lparr>i_count := i_count ip + 1, i_busy := 1\<rparr>) s))"
proof -
  have u: "iuniq n (inodes s)" using inode_machine.reach_inv [OF assms(1)] assms(2) by simp
  note f = iuniq_hit [OF u assms(2)]
  have "j = i" if "j < length (inodes s)" "imatch dev inum (inodes s ! j)" for j
    using f [OF that] f [OF assms(3,4)] by simp
  then show ?thesis using iget_loop_hit [OF f [OF assms(3,4)]] by blast
qed

text \<open>
  The limit is the code's: with the largest \<^verbatim>\<open>int\<close> of references, one more makes the count negative, and a
  search no longer finds the entry.
\<close>

lemma iincref_overflow:
  assumes "i < length (inodes s)" and "i_count (inodes s ! i) = 0x7FFFFFFF"
  shows "\<not> imatch dev inum (inodes (iincref i s) ! i)"
  using assms by (simp add: imatch_def iincref_def)

text \<open>An inode that is looked up for the first time, released by its user, and looked up again.\<close>

definition demo_table :: fs where
  "demo_table = demo_fs\<lparr>inodes := replicate 2 ((inodes demo_fs ! 0)\<lparr>i_inum := 0, i_count := 0, i_busy := 0\<rparr>)\<rparr>"

theorem inode_entry_unique_witness:
  "\<exists>s1. iget 1 2 demo_table = Inr (0, s1) \<and> \<not> imatch 1 2 (inodes (iunlock 0 s1) ! 1) \<and>
    iget 1 2 (iunlock 0 s1) = Inr (0, upd_inode 0 (\<lambda>ip. ip\<lparr>i_count := i_count ip + 1, i_busy := 1\<rparr>) (iunlock 0 s1))"
proof -
  have ff: "first_free demo_table 0" by (simp add: first_free_def demo_table_def demo_fs_def busy_def)
  have f: "first_index (imatch 1 2) 0 (inodes demo_table) = None" "first_index (\<lambda>ip. i_count ip = 0) 0 (inodes demo_table) = Some 0"
    by (simp_all add: demo_table_def imatch_def numeral_2_eq_2)
  obtain s1 where s1: "iget 1 2 demo_table = Inr (0, s1)"
      "inodes s1 = (inodes demo_table)[0 := read_dinode (disk demo_table (IBLOCK 2)) (dinode_off 2)
         ((inodes demo_table ! 0)\<lparr>i_dev := 1, i_inum := 2, i_count := 1, i_busy := 1\<rparr>)]"
    using iget_miss [OF ff f] by (simp add: Let_def)
  let ?s = "iunlock 0 s1"
  have t: "length (inodes ?s) = 2" "i_busy (inodes ?s ! 0) = 0" "imatch 1 2 (inodes ?s ! 0)"
    using s1(2) by (simp_all add: demo_table_def iunlock_def imatch_def read_dinode_def)
  have "inode_run (0, demo_table)" by (intro reach.start) (simp add: fresh_table_def demo_table_def)
  then have "inode_run (1, s1)"
    using s1(1) unfolding iget_def One_nat_def by (blast intro: reach.step counted.tick inode_step.get)
  then have r: "inode_run (2, ?s)"
    unfolding numeral_2_eq_2 One_nat_def by (blast intro: reach.step counted.tick inode_step.unlock)
  have "\<forall>j < 2. imatch 1 2 (inodes ?s ! j) \<longrightarrow> j = 0" using inode_entry_unique [OF r, of 0 1 2] t by simp
  then have "\<not> imatch 1 2 (inodes ?s ! 1)" by (metis one_less_numeral_iff semiring_norm(76) zero_neq_one)
  moreover have "iget 1 2 ?s = Inr (0, upd_inode 0 (\<lambda>ip. ip\<lparr>i_count := i_count ip + 1, i_busy := 1\<rparr>) ?s)"
    using inode_entry_unique [OF r, of 0 1 2 None] t by (simp add: iget_def)
  ultimately show ?thesis using s1(1) by blast
qed

end
