(* ===== verification/Exec_Args.thy ===== *)
theory Exec_Args
  imports Exec
begin

text \<open>
  The arguments of a new program: what the loops of \<^verbatim>\<open>kexec\<close> leave on the user's stack. The page of the
  stack starts at the physical address \<open>S\<close> and at the virtual address \<open>B\<close>. The kernel moves one pointer
  through each of the two views of the page, and the two agree as long as no argument has a length that
  is a multiple of 16.
\<close>

section \<open>Strings\<close>

definition cstr :: "store \<Rightarrow> nat \<Rightarrow> byte list \<Rightarrow> bool" where
  "cstr m a str \<longleftrightarrow> a + length str < unat PHYSTOP \<and> 0 \<notin> set str \<and> (\<forall>i < length str. m (a + i) = str ! i) \<and> m (a + length str) = 0"


lemma strlen_from_cstr: "cstr m a str \<Longrightarrow> n \<le> length str \<Longrightarrow> strlen_from m a n = Inr (length str)"
proof (induction "length str - n" arbitrary: n)
  case 0
  then show ?case by (subst strlen_from.simps) (simp add: cstr_def)
next
  case (Suc d)
  then have n: "n < length str" by simp
  then have "str ! n \<in> set str" by simp
  then have "m (a + n) \<noteq> 0" using Suc.prems(1) n by (metis cstr_def)
  moreover have "\<not> unat PHYSTOP \<le> a + n" using Suc.prems(1) n by (simp add: cstr_def)
  moreover have "strlen_from m a (Suc n) = Inr (length str)" using Suc n by (intro Suc.hyps) auto
  ultimately show ?case by (subst strlen_from.simps) simp
qed

section \<open>Alignment\<close>

lemma unat_align16: "unat (align16 x) = unat x div 16 * 16"
proof -
  have m: "(NOT 0xF :: u64) = NOT (mask 4)" by (simp add: mask_eq_exp_minus_1)
  have "align16 x = push_bit 4 (drop_bit 4 x)"
    unfolding align16_def m by (rule bit_word_eqI) (auto simp: bit_simps)
  then have "align16 x = x div 16 * 16" by (simp add: push_bit_eq_mult drop_bit_eq_div)
  moreover have "unat x div 16 * 16 < 18446744073709551616"
    using unat_bounds(4) [of x] by (rule order.strict_trans1 [OF div_times_less_eq_dividend])
  ultimately show ?thesis by (simp add: unat_word_ariths unat_div)
qed

text \<open>The bytes an argument takes on the stack.\<close>

definition slot :: "nat \<Rightarrow> nat" where
  "slot len = 16 * (len div 16 + 1)"

lemma slot_bounds: "len < slot len" "slot len mod 16 = 0"
  using div_mult_mod_eq [of len 16] mod_less_divisor [of 16 len] by (simp_all add: slot_def)


section \<open>The strings\<close>

text \<open>The offsets in the page at which the strings come to lie, in the order in which they are pushed.\<close>

fun arg_offs :: "nat \<Rightarrow> byte list list \<Rightarrow> nat list" where
  "arg_offs x [] = []"
| "arg_offs x (str # strs) = (x - slot (length str)) # arg_offs (x - slot (length str)) strs"

definition room :: "byte list list \<Rightarrow> nat" where
  "room strs = (\<Sum>str \<leftarrow> strs. slot (length str))"

lemma length_arg_offs [simp]: "length (arg_offs x strs) = length strs"
  by (induction strs arbitrary: x) auto






section \<open>The array of pointers\<close>

lemma push_words_other: "i < a \<or> a + 8 * length ws \<le> i \<Longrightarrow> push_words ws a m i = m i"
  by (induction ws arbitrary: a m) (auto simp: store64_other)

lemma push_words_load: "i < length ws \<Longrightarrow> load64 (push_words ws a m) (a + 8 * i) = ws ! i"
proof (induction ws arbitrary: a m i)
  case (Cons w ws)
  show ?case
  proof (cases i)
    case 0
    have "load64 (push_words ws (a + 8) (store64 m a w)) a = load64 (store64 m a w) a"
      by (rule load64_cong) (simp add: push_words_other)
    then show ?thesis using 0 by simp
  next
    case (Suc j)
    then show ?thesis using Cons.IH [of j "a + 8" "store64 m a w"] Cons.prems by (simp add: algebra_simps)
  qed
qed simp

lemma arg_offs_snoc: "arg_offs x (strs @ [t]) = arg_offs x strs @ [x - room strs - slot (length t)]"
  by (induction strs arbitrary: x) (auto simp: room_def)

lemma room_append [simp]: "room (as @ bs) = room as + room bs"
  by (simp add: room_def)

lemma room_rev [simp]: "room (rev strs) = room strs"
  by (induction strs) (simp_all add: room_def)

lemma room_mod: "room strs mod 16 = 0"
proof -
  have "16 dvd room strs"
    by (induction strs) (auto simp: room_def intro!: dvd_add slot_bounds(2) [unfolded mod_eq_0_iff_dvd])
  then show ?thesis by simp
qed

text \<open>Where the array starts: below the strings, rounded down.\<close>

definition argv_off :: "nat \<Rightarrow> byte list list \<Rightarrow> nat" where
  "argv_off x strs = (x - room strs - 8 * length strs) div 16 * 16"

lemma argv_off_bounds:
  assumes "room strs + 8 * length strs \<le> x" and "x mod 16 = 0"
  shows "argv_off x strs + 8 * Suc (length strs) = (if odd (length strs) then x - room strs else x - room strs + 8)"
    and "argv_off x strs mod 16 = 0"
proof -
  obtain k where k: "x - room strs = 16 * k" using assms(2) room_mod [of strs] by (metis dvdE dvd_diff_nat mod_eq_0_iff_dvd)
  have le: "8 * length strs \<le> 16 * k" using assms(1) k by linarith
  show "argv_off x strs + 8 * Suc (length strs) = (if odd (length strs) then x - room strs else x - room strs + 8)"
  proof (cases "odd (length strs)")
    case True
    then obtain q where q: "length strs = Suc (2 * q)" by (auto elim: oddE)
    then have "q < k" using le by linarith
    then obtain d where "k = Suc (q + d)" by (auto simp: less_iff_Suc_add)
    then show ?thesis using True q k by (simp add: argv_off_def)
  next
    case False
    then obtain q where q: "length strs = 2 * q" by (auto elim: evenE)
    then have "q \<le> k" using le by linarith
    then obtain d where "k = q + d" by (auto simp: le_iff_add)
    then show ?thesis using False q k by (simp add: argv_off_def)
  qed
qed (simp add: argv_off_def)


lemma unat_align16_sub:
  assumes "unat w = S + x" and "S mod 16 = 0" and "n \<le> x" and "n < 2 ^ 64"
  shows "unat (align16 (w - of_nat n)) = S + (x - n) div 16 * 16"
proof -
  have "unat (w - of_nat n) = S + (x - n)" using assms(1,3,4) by (simp add: unat_sub word_le_nat_alt unat_of_nat)
  moreover obtain k where "S = 16 * k" using assms(2) by (auto simp: mod_eq_0_iff_dvd)
  ultimately show ?thesis by (simp add: unat_align16)
qed

text \<open>
  The page after the strings and the pointers have been pushed: \<open>x\<close> is the offset of the array.
\<close>

definition argv_at :: "store \<Rightarrow> nat \<Rightarrow> nat \<Rightarrow> nat \<Rightarrow> nat list \<Rightarrow> byte list list \<Rightarrow> bool" where
  "argv_at m S B x offs strs \<longleftrightarrow> length offs = length strs \<and>
     (\<forall>i < length strs. load64 m (S + x + 8 * i) = of_nat (B + offs ! i) \<and> offs ! i + length (strs ! i) < 4096 \<and>
       (0 < i \<or> odd (length strs) \<longrightarrow> cstr m (S + offs ! i) (strs ! i))) \<and>
     load64 m (S + x + 8 * length strs) = 0"


text \<open>With an even number of arguments, the null pointer at the end of the array is written over the first string.\<close>

lemma even_args_lose_first:
  assumes "argv_at m S B (argv_off 4096 strs) (rev (arg_offs 4096 (rev strs))) strs" and "even (length strs)" and "strs \<noteq> []"
    and fit: "room strs + 8 * length strs \<le> 4096"
  shows "load64 m (S + rev (arg_offs 4096 (rev strs)) ! 0) = 0"
proof -
  obtain t ts where strs: "strs = t # ts" using assms(3) by (cases strs) auto
  then have "rev (arg_offs 4096 (rev strs)) ! 0 = 4096 - room strs"
    using arg_offs_snoc [of 4096 "rev ts" t] room_append [of "[t]" ts] by (simp add: room_def [of "[t]"])
  moreover have "argv_off 4096 strs + 8 * length strs = 4096 - room strs" using argv_off_bounds(1) [OF fit] assms(2) by simp
  ultimately show ?thesis using assms(1) by (simp add: argv_at_def add.assoc)
qed

text \<open>
  An argument whose length is a multiple of 16, also an empty one, is misplaced. The two pointers part: the string ends with
  the page, its terminating 0 is written beyond the page, the pointer to it and the address of the array that is
  passed to the program are both 16 bytes too low.
\<close>

lemma exec_misplaces_argument:
  assumes str: "cstr m (unat a) str" "length str mod 16 = 0" "unat a + length str < unat sp \<or> unat sp + 4096 < unat a" "length str + 32 \<le> 4096"
    and sp: "unat sp mod 4096 = 0" "unat sp + 4096 \<le> unat PHYSTOP" and sz: "unat sz mod 4096 = 0" "unat sz + 4096 < 2 ^ 64"
  shows "\<exists>dsp asz m'. user_stack [a] (sp + PGSIZE) (sz + PGSIZE) m = Inr (dsp, asz, m') \<and>
    unat dsp = unat sp + (4096 - length str - 16) \<and> unat asz = unat sz + (4096 - length str - 32) \<and>
    load64 m' (unat dsp) = of_nat (unat sz + (4096 - length str - 16)) \<and>
    (\<forall>i < length str. m' (unat sp + (4096 - length str) + i) = str ! i) \<and> m' (unat sp + 4096) = 0"
proof -
  let ?S = "unat sp" and ?B = "unat sz" and ?n = "length str"
  have m16: "?S mod 16 = 0" "?B mod 16 = 0" using sp(1) sz(1) mod_mod_cancel [of 16 4096] by auto
  have u: "unat (sp + PGSIZE) = ?S + 4096" "unat (sz + PGSIZE) = ?B + 4096" using sp(2) sz(2) by (simp_all add: unat_word_ariths)
  obtain k where "?n = 16 * k" using str(2) by (auto simp: mod_eq_0_iff_dvd)
  then have "4096 - ?n = 16 * (254 - k) + 32" using str(4) by simp
  then obtain q where q: "4096 - ?n = 16 * q + 32" by blast
  then have "4096 - Suc ?n = 16 * (q + 1) + 15" "4096 - ?n - 8 = 16 * (q + 1) + 8" "4096 - ?n - 16 - 8 = 16 * q + 8" by simp_all
  with q have d: "(4096 - ?n) div 16 * 16 = 4096 - ?n" "(4096 - Suc ?n) div 16 * 16 = 4096 - ?n - 16"
    "(4096 - ?n - 8) div 16 * 16 = 4096 - ?n - 16" "(4096 - ?n - 16 - 8) div 16 * 16 = 4096 - ?n - 32"
    by simp_all
  let ?d1 = "align16 (sp + PGSIZE - of_nat ?n)" and ?a1 = "align16 (sz + PGSIZE - of_nat ?n - 1)"
  have d1: "unat ?d1 = ?S + (4096 - ?n)"
    using unat_align16_sub [OF u(1) m16(1), of ?n] str(4) d(1) by simp
  have "sz + PGSIZE - of_nat ?n - 1 = sz + PGSIZE - of_nat (Suc ?n)" by simp
  then have a1: "unat ?a1 = ?B + (4096 - ?n - 16)"
    using unat_align16_sub [OF u(2) m16(2), of "Suc ?n"] str(4) d(2) by (simp only:) simp
  have d2: "unat (align16 (?d1 - 8)) = ?S + (4096 - ?n - 16)" "unat (align16 (?a1 - 8)) = ?B + (4096 - ?n - 32)"
    using unat_align16_sub [OF d1 m16(1), of 8] unat_align16_sub [OF a1 m16(2), of 8] str(4) d(3,4) by simp_all
  define m1 where "m1 = (copy_mem ?n (unat a) (unat ?d1) m)(unat ?d1 + ?n := 0)"
  define m' where "m' = push_words [?a1, 0] (unat (align16 (?d1 - 8))) m1"
  have "strlen_from m (unat a) 0 = Inr ?n" using str(1) by (simp add: strlen_from_cstr)
  then have r: "user_stack [a] (sp + PGSIZE) (sz + PGSIZE) m = Inr (align16 (?d1 - 8), align16 (?a1 - 8), m')"
    by (simp add: user_stack_def Let_def m1_def m'_def)
  have p: "load64 m' (unat (align16 (?d1 - 8))) = of_nat (?B + (4096 - ?n - 16))"
    using push_words_load [of 0 "[?a1, 0]" "unat (align16 (?d1 - 8))" m1] arg_cong [OF a1, of "of_nat :: nat \<Rightarrow> u64"] by (simp add: m'_def)
  have o: "m' i = m1 i" if "?S + (4096 - ?n) \<le> i" for i
    using that str(4) unfolding m'_def d2(1) by (intro push_words_other disjI2) simp
  have ap: "unat a + ?n \<le> unat ?d1 \<or> unat ?d1 + ?n \<le> unat a" using str(3,4) d1 by auto
  have "m' (unat ?d1 + i) = str ! i" if "i < ?n" for i
  proof -
    have "m' (unat ?d1 + i) = m1 (unat ?d1 + i)" by (rule o) (simp add: d1)
    also have "\<dots> = m (unat a + i)" using that copy_mem_at [OF ap, of m "unat ?d1 + i"] by (simp only: m1_def fun_upd_apply) simp
    finally show ?thesis using str(1) that by (simp add: cstr_def)
  qed
  then have "\<forall>i < ?n. m' (?S + (4096 - ?n) + i) = str ! i" unfolding d1 by blast
  moreover have "m' (?S + 4096) = 0" using o [of "?S + 4096"] str(4) d1 by (simp add: m1_def)
  ultimately show ?thesis using r p d2 by blast
qed

section \<open>Properties\<close>




end
