(* ===== verification/Elf.thy ===== *)
theory Elf
  imports Exec
begin

text \<open>
  The loader of a program that is linked into the kernel, \<^verbatim>\<open>get_entry\<close> of \<^verbatim>\<open>kernel/elf.c\<close>. No function calls it:
  \<^verbatim>\<open>kexec\<close> has taken its place. The symbol of the program is the argument \<open>start\<close>; messages are left out.
\<close>

section \<open>The loader\<close>

definition elf_phentsize :: "store \<Rightarrow> u16" where "elf_phentsize d = load16 d 54"

text \<open>\<^verbatim>\<open>pa[ph->vaddr + s] = ucd[s]\<close> for \<open>n\<close> values of \<open>s\<close>: both are arrays of 64-bit words.\<close>

fun copy_words :: "nat \<Rightarrow> nat \<Rightarrow> u64 \<Rightarrow> u64 \<Rightarrow> u64 \<Rightarrow> store \<Rightarrow> store" where
  "copy_words 0 s pa vaddr ucd m = m"
| "copy_words (Suc n) s pa vaddr ucd m =
     copy_words n (Suc s) pa vaddr ucd (store64 m (unat (pa + 8 * (vaddr + of_nat s))) (load64 m (unat (ucd + 8 * of_nat s))))"

text \<open>The headers are read from memory in every round. A file of \<open>2 ^ 31\<close> bytes or more is larger than the memory.\<close>

function entry_segments :: "u64 \<Rightarrow> u64 \<Rightarrow> nat \<Rightarrow> store \<Rightarrow> store result" where
  "entry_segments start pa i m =
     (let d = (\<lambda>j. m (unat start + j)) in
      if unat (elf_phnum d) \<le> i then Inr m
      else let o' = unat (elf_phoff d) + 56 * i;
             ucd = start + of_nat i * ucast (elf_phentsize d) + ph_off d o'
        in if 2 ^ 31 \<le> unat (ph_filesz d o') then Inl OutOfBounds
           else entry_segments start pa (Suc i) (copy_words (unat (ph_filesz d o')) 0 pa (ph_vaddr d o') ucd m))"
  by pat_completeness auto
termination
proof (relation "measure (\<lambda>(start, pa, i, m). 65536 - i)")
  fix start :: u64 and i :: nat and m d
  assume "d = (\<lambda>j. m (unat start + j))" "\<not> unat (elf_phnum d) \<le> i"
  then have "i < 65536" using unat_bounds(2) [of "elf_phnum d"] by simp
  then show "((start, pa, Suc i, m'), (start, pa, i, m)) \<in> measure (\<lambda>(start, pa, i, m). 65536 - i)" for pa :: u64 and m' :: store by simp
qed simp

declare entry_segments.simps [simp del]

definition get_entry :: "u64 \<Rightarrow> 'a pst_scheme \<Rightarrow> (u64 \<times> 'a pst_scheme) result" where
  "get_entry start s =
     (let d = (\<lambda>m j. m (unat start + j)) in
      if elf_magic (d (mem s)) \<noteq> ELF_MAGIC then Inl (Panic ''not a elf format'')
      else case kalloc s of (pa, s1) \<Rightarrow>
        if pa = 0 then Inl NullDeref
        else bindR (entry_segments start pa 0 (mem s1)) (\<lambda>m.
          case initproc s1 of None \<Rightarrow> Inl NullDeref
          | Some p \<Rightarrow>
             bindR (mappages (p_pagetable (procs s1 ! p)) (elf_entry (d m)) pa PGSIZE PTE_AP_RW (s1\<lparr>mem := m\<rparr>)) (\<lambda>(_, s2).
               let tf = unat (p_tf (procs s2 ! p));
                 m1 = store64 (mem s2) (tf + tf_elr_el1) (elf_entry (d (mem s2)));
                 m2 = store64 m1 (tf + tf_sp_el0) PGSIZE
               in Inr (- 1, s2\<lparr>mem := m2\<rparr>))))"

section \<open>It copies too much\<close>

text \<open>
  The loop counts the bytes of the segment but copies a word of eight bytes in every round: a segment of \<open>n\<close> bytes at virtual
  address 0 fills \<open>8 * n\<close> bytes, so that more than 512 bytes run past the page.
\<close>

lemma word_addr: "unat a + 8 * k < 2 ^ 64 \<Longrightarrow> unat (a + 8 * of_nat k :: u64) = unat a + 8 * k"
proof -
  assume lt: "unat a + 8 * k < 2 ^ 64"
  have "(8 * of_nat k :: u64) = of_nat (8 * k)" by simp
  moreover have "unat (of_nat (8 * k) :: u64) = 8 * k" using lt unfolding unat_of_nat by simp
  ultimately show ?thesis using lt unfolding unat_word_ariths(1) by simp
qed

lemma copy_words_other:
  "unat pa + 8 * (k + n) < 2 ^ 64 \<Longrightarrow> b < unat pa + 8 * k \<or> unat pa + 8 * (k + n) \<le> b \<Longrightarrow> copy_words n k pa 0 ucd m b = m b"
proof (induction n arbitrary: k m)
  case (Suc n)
  have "unat (pa + 8 * of_nat k) = unat pa + 8 * k" using Suc.prems(1) by (intro word_addr) simp
  then show ?case using Suc.prems Suc.IH [of "Suc k"] by (auto simp: store64_other)
qed simp

lemma copy_words_at:
  "unat pa + 8 * (k + n) < 2 ^ 64 \<Longrightarrow> unat ucd + 8 * (k + n) < 2 ^ 64 \<Longrightarrow>
     unat ucd + 8 * (k + n) \<le> unat pa \<or> unat pa + 8 * (k + n) \<le> unat ucd \<Longrightarrow> k \<le> j \<Longrightarrow> j < k + n \<Longrightarrow>
     load64 (copy_words n k pa 0 ucd m) (unat pa + 8 * j) = load64 m (unat ucd + 8 * j)"
proof (induction n arbitrary: k m)
  case (Suc n)
  have a: "unat (pa + 8 * of_nat k) = unat pa + 8 * k" "unat (ucd + 8 * of_nat k) = unat ucd + 8 * k"
    using Suc.prems(1,2) by (intro word_addr; simp)+
  let ?m = "store64 m (unat pa + 8 * k) (load64 m (unat ucd + 8 * k))"
  have step: "copy_words (Suc n) k pa 0 ucd m = copy_words n (Suc k) pa 0 ucd ?m" using a by simp
  show ?case
  proof (cases "j = k")
    case True
    have "load64 (copy_words n (Suc k) pa 0 ucd ?m) (unat pa + 8 * k) = load64 ?m (unat pa + 8 * k)"
      using Suc.prems(1) by (intro load64_cong copy_words_other) simp_all
    then show ?thesis unfolding step using True by simp
  next
    case False
    then have "load64 (copy_words n (Suc k) pa 0 ucd ?m) (unat pa + 8 * j) = load64 ?m (unat ucd + 8 * j)"
      using Suc.prems by (intro Suc.IH) auto
    moreover have "load64 ?m (unat ucd + 8 * j) = load64 m (unat ucd + 8 * j)"
      using Suc.prems(3-5) by (intro load_store_disjoint) auto
    ultimately show ?thesis unfolding step by simp
  qed
qed simp

text \<open>So the loader writes beyond its page: what follows the page is replaced by what follows the segment in the file.\<close>

lemma get_entry_overruns:
  assumes "unat pa + 8 * n < 2 ^ 64" and "unat ucd + 8 * n \<le> unat pa" and "512 < n"
  shows "load64 (copy_words n 0 pa 0 ucd m) (unat pa + 4096) = load64 m (unat ucd + 4096)"
  using copy_words_at [of pa 0 n ucd 512 m] assms by simp

end
