(* ===== verification/Ulib.thy ===== *)
theory Ulib
  imports Syscall Printf
begin

text \<open>
  The library of the user programs: \<^verbatim>\<open>user/ulib.c\<close> and the output functions of \<^verbatim>\<open>user/printf.c\<close>. A program
  is a function of the world \<open>'w\<close> outside the process. It reaches the world only through system
  calls, so the kernel is an argument of every program: it takes a call and gives the value of the call, what the
  buffer of the caller holds afterwards, and the new world. What the kernel really does is \<open>Syscall\<close>.
\<close>

abbreviation (input) O_RDONLY :: u32 where "O_RDONLY \<equiv> 0"

section \<open>Programs\<close>

text \<open>
  How a piece of a program ends: with a value; in a call that does not come back (\<^verbatim>\<open>xv6_exit\<close>, an
  \<^verbatim>\<open>exec\<close> that succeeds); in a loop that does nothing for ever; beyond an array; or with the bound of the model on the number
  of rounds of a loop used up.
\<close>

datatype 'a flow = Go 'a | Gone | Spins | Undef | Fuel

type_synonym ('w, 'a) prog = "'w \<Rightarrow> 'a flow \<times> 'w"

definition bindP :: "('w, 'a) prog \<Rightarrow> ('a \<Rightarrow> ('w, 'b) prog) \<Rightarrow> ('w, 'b) prog" where
  "bindP m f w = (case m w of
       (Go a, w') \<Rightarrow> f a w' | (Gone, w') \<Rightarrow> (Gone, w') | (Spins, w') \<Rightarrow> (Spins, w')
     | (Undef, w') \<Rightarrow> (Undef, w') | (Fuel, w') \<Rightarrow> (Fuel, w'))"

abbreviation thenP :: "('w, 'a) prog \<Rightarrow> ('w, 'b) prog \<Rightarrow> ('w, 'b) prog" where
  "thenP m n \<equiv> bindP m (\<lambda>_. n)"

definition retP :: "'a \<Rightarrow> ('w, 'a) prog" where
  "retP a w = (Go a, w)"

definition endP :: "'a flow \<Rightarrow> ('w, 'a) prog" where
  "endP e w = (e, w)"

lemma bindP_cases [simp]:
  "m w = (Go a, w') \<Longrightarrow> bindP m f w = f a w'" "m w = (Gone, w') \<Longrightarrow> bindP m f w = (Gone, w')"
  "m w = (Spins, w') \<Longrightarrow> bindP m f w = (Spins, w')" "m w = (Undef, w') \<Longrightarrow> bindP m f w = (Undef, w')"
  "m w = (Fuel, w') \<Longrightarrow> bindP m f w = (Fuel, w')"
  by (simp_all add: bindP_def)

lemma bindP_ret [simp]: "bindP (retP a) f = f a"
  by (simp add: bindP_def retP_def fun_eq_iff)

lemma bindP_assoc: "bindP (bindP m f) g = bindP m (\<lambda>a. bindP (f a) g)"
  by (auto simp: bindP_def fun_eq_iff split: prod.split flow.split)

lemma bindP_Go: "bindP m f w = (Go b, w') \<longleftrightarrow> (\<exists>a w1. m w = (Go a, w1) \<and> f a w1 = (Go b, w'))"
  by (auto simp: bindP_def split: prod.split flow.split)

lemma bindP_cong [fundef_cong]:
  "m = m' \<Longrightarrow> w = w' \<Longrightarrow> (\<And>a w1. m' w' = (Go a, w1) \<Longrightarrow> f a w1 = f' a w1) \<Longrightarrow> bindP m f w = bindP m' f' w'"
  by (auto simp: bindP_def split: prod.split flow.split)

section \<open>Calls\<close>

text \<open>A call of a stub, with what its pointers refer to.\<close>

datatype req =
    SysFork | SysExit | SysWait | SysConsPutc int | SysPipe | SysWrite int "byte list" | SysRead int int store | SysClose int
  | SysBlock | SysKill int | SysConsPuts "byte list" | SysExec "byte list" "byte list list"
  | SysOpen "byte list" u32 | SysMknode "byte list" int int int | SysUnlink "byte list"

type_synonym 'w kern = "req \<Rightarrow> ('w, int \<times> store) prog"

text \<open>The number each stub passes in \<open>x8\<close>.\<close>

fun path_num :: "req \<Rightarrow> int" where
  "path_num (SysOpen _ _) = 14"
| "path_num (SysMknode _ _ _ _) = 15"
| "path_num (SysUnlink _) = 16"
| "path_num _ = 0"

fun stub_num :: "req \<Rightarrow> int" where
  "stub_num SysFork = 1"
| "stub_num SysWait = 3"
| "stub_num SysExit = 2"
| "stub_num (SysConsPutc _) = 4"
| "stub_num SysPipe = 5"
| "stub_num (SysWrite _ _) = 6"
| "stub_num (SysRead _ _ _) = 7"
| "stub_num (SysClose _) = 8"
| "stub_num SysBlock = 9"
| "stub_num (SysKill _) = 10"
| "stub_num (SysConsPuts _) = 12"
| "stub_num (SysExec _ _) = 13"
| "stub_num r = path_num r"

text \<open>
  The numbers are those of the kernel: every stub reaches the function of the kernel it is named
  after, but for \<^verbatim>\<open>block\<close>, whose number the kernel does not know. (\<^verbatim>\<open>xv6_exit\<close> does not come back and is
  handled before the others, by \<open>syscall\<close>.)
\<close>

lemma stubs_dispatch:
  "dispatch k c (stub_num SysFork) s = sys_fork k c s" "dispatch k c (stub_num SysWait) s = sys_wait k c s"
  "dispatch k c (stub_num (SysConsPutc ch)) s = sys_cons_putc c s" "dispatch k c (stub_num SysPipe) s = sys_pipe c s"
  "dispatch k c (stub_num (SysWrite fd bs)) s = sys_write k c s" "dispatch k c (stub_num (SysRead fd n buf)) s = sys_read c s"
  "dispatch k c (stub_num (SysClose fd)) s = sys_close k c s" "dispatch k c (stub_num (SysKill pid)) s = sys_kill c s"
  "dispatch k c (stub_num (SysConsPuts bs)) s = sys_cons_puts c s" "dispatch k c (stub_num (SysExec path as)) s = sys_exec k c s"
  "dispatch k c (stub_num (SysOpen path m)) s = sys_open c s" "dispatch k c (stub_num (SysMknode path t mj mn)) s = sys_mknod c s"
  "dispatch k c (stub_num (SysUnlink path)) s = sys_unlink c s" "dispatch k c (stub_num SysBlock) s = Inl (Panic ''syscall'')"
  by (simp_all add: dispatch_def)

definition call :: "'w kern \<Rightarrow> req \<Rightarrow> ('w, int) prog" where
  "call K r = bindP (K r) (\<lambda>(x, buf). retP x)"

section \<open>Output\<close>

text \<open>\<^verbatim>\<open>puts\<close> counts the bytes before the 0 and passes them on.\<close>

definition puts :: "'w kern \<Rightarrow> byte list \<Rightarrow> ('w, int) prog" where
  "puts K str = call K (SysConsPuts (takeWhile (\<lambda>c. c \<noteq> 0) str))"

text \<open>Every character of the formatted output is a \<^verbatim>\<open>write\<close> of one byte.\<close>

definition uputc :: "'w kern \<Rightarrow> int \<Rightarrow> byte \<Rightarrow> ('w, int) prog" where
  "uputc K fd c = call K (SysWrite fd [c])"

fun uputcs :: "'w kern \<Rightarrow> int \<Rightarrow> byte list \<Rightarrow> ('w, int) prog" where
  "uputcs K fd [] = retP 0"
| "uputcs K fd (c # cs) = thenP (uputc K fd c) (uputcs K fd cs)"

definition u_printf :: "'w kern \<Rightarrow> int \<Rightarrow> byte list \<Rightarrow> varg list \<Rightarrow> ('w, int) prog" where
  "u_printf K fd fmt as = (case uprintf fmt as of Inl _ \<Rightarrow> endP Undef | Inr cs \<Rightarrow> uputcs K fd cs)"

text \<open>The parts of the user's \<^verbatim>\<open>printf\<close> that print numbers.\<close>

definition u_printint :: "'w kern \<Rightarrow> int \<Rightarrow> u64 \<Rightarrow> u64 \<Rightarrow> bool \<Rightarrow> ('w, int) prog" where
  "u_printint K fd xx base sign = (case printint xx base sign of Inl _ \<Rightarrow> endP Undef | Inr cs \<Rightarrow> uputcs K fd cs)"

definition u_printptr :: "'w kern \<Rightarrow> int \<Rightarrow> u64 \<Rightarrow> ('w, int) prog" where
  "u_printptr K fd x = uputcs K fd (printptr x)"

lemma u_printf_num:
  "u_printf K fd (lit ''%d'') [VNum x] = u_printint K fd (scast (ucast x :: u32)) 10 True"
  "u_printf K fd (lit ''%lu'') [VNum x] = u_printint K fd x 10 False"
  "u_printf K fd (lit ''%p'') [VNum x] = u_printint K fd (ucast (ucast x :: u32)) 16 False"
  by (cases "printint (scast (ucast x :: u32)) 10 True"; cases "printint x 10 False"; cases "printint (ucast (ucast x :: u32)) 16 False";
      simp add: u_printf_def uprintf_def u_printint_def lit_def printf_loop.simps chr_at_def conv_def num_arg_def comp_def)+

section \<open>Lines\<close>

text \<open>The character \<^verbatim>\<open>c\<close> is not initialised; a call of \<^verbatim>\<open>read\<close> that gives 0 leaves it as it is.\<close>

function gets_loop :: "'w kern \<Rightarrow> int \<Rightarrow> nat \<Rightarrow> byte \<Rightarrow> store \<Rightarrow> ('w, nat \<times> store) prog" where
  "gets_loop K mx i c buf w =
     (if int i + 1 < mx
      then bindP (K (SysRead 0 1 (\<lambda>_. c))) (\<lambda>(cc, b) w1.
        if cc < 0 then (Go (i, buf), w1)
        else if b 0 = 10 \<or> b 0 = 13 then (Go (i, buf), w1)
        else gets_loop K mx (Suc i) (b 0) (buf(i := b 0)) w1) w
      else (Go (i, buf), w))"
  by pat_completeness auto
termination
  by (relation "measure (\<lambda>(K, mx, i, c, buf, w). nat (mx - int i))") auto

declare gets_loop.simps [simp del]

definition gets :: "'w kern \<Rightarrow> byte \<Rightarrow> store \<Rightarrow> int \<Rightarrow> ('w, store) prog" where
  "gets K c buf mx = bindP (gets_loop K mx 0 c buf) (\<lambda>(i, buf'). retP (buf'(i := 0)))"

lemma gets_loop_bounds:
  "gets_loop K mx i c buf w = (Go (j, buf'), w') \<Longrightarrow>
     i \<le> j \<and> (j = i \<or> int j + 1 \<le> mx) \<and> (\<forall>k. k < i \<or> j \<le> k \<longrightarrow> buf' k = buf k) \<and> (\<forall>k. i \<le> k \<longrightarrow> k < j \<longrightarrow> buf' k \<noteq> 10 \<and> buf' k \<noteq> 13)"
proof (induction K mx i c buf w rule: gets_loop.induct)
  case (1 K mx i c buf w)
  show ?case
  proof (cases "int i + 1 < mx")
    case True
    obtain cc b w1 where r: "K (SysRead 0 1 (\<lambda>_. c)) w = (Go (cc, b), w1)"
      using "1.prems" True by (subst (asm) gets_loop.simps) (auto simp: bindP_Go)
    show ?thesis
    proof (cases "cc < 0 \<or> b 0 = 10 \<or> b 0 = 13")
      case True
      then have "j = i" "buf' = buf" using "1.prems" r by (subst (asm) gets_loop.simps; auto split: if_splits)+
      then show ?thesis by simp
    next
      case False
      then have g: "gets_loop K mx (Suc i) (b 0) (buf(i := b 0)) w1 = (Go (j, buf'), w')"
        using "1.prems" r True by (subst (asm) gets_loop.simps) auto
      have ih: "Suc i \<le> j" "j = Suc i \<or> int j + 1 \<le> mx" "\<forall>k. k < Suc i \<or> j \<le> k \<longrightarrow> buf' k = (buf(i := b 0)) k"
        "\<forall>k. Suc i \<le> k \<longrightarrow> k < j \<longrightarrow> buf' k \<noteq> 10 \<and> buf' k \<noteq> 13"
        using "1.IH" [OF True r refl _ _ g] False by blast+
      have "buf' k \<noteq> 10 \<and> buf' k \<noteq> 13" if "i \<le> k" "k < j" for k
        using that ih(3,4) False by (cases "k = i") auto
      then show ?thesis using ih True by auto
    qed
  next
    case False
    then show ?thesis using "1.prems" by (subst (asm) gets_loop.simps) auto
  qed
qed

text \<open>
  \<^verbatim>\<open>gets\<close> with a buffer of \<open>mx\<close> bytes, \<open>mx\<close> positive, leaves a string of at most \<open>mx - 1\<close> bytes
  with no end of line in it, terminated by a 0, and writes to no byte beyond the buffer, whatever
  the calls of \<^verbatim>\<open>read\<close> give.
\<close>

lemma gets_bounded:
  assumes "0 < mx" and "gets K c buf mx w = (Go buf', w')"
  obtains n where "int n < mx" and "buf' n = 0" and "\<And>k. k < n \<Longrightarrow> buf' k \<noteq> 10 \<and> buf' k \<noteq> 13" and "\<And>k. n < k \<Longrightarrow> buf' k = buf k"
proof -
  obtain j b where g: "gets_loop K mx 0 c buf w = (Go (j, b), w')" "buf' = b(j := 0)"
    using assms(2) by (auto simp: gets_def bindP_Go retP_def)
  from gets_loop_bounds [OF g(1)] show thesis using assms(1) g(2) by (intro that [of j]) auto
qed

text \<open>
  A kernel whose \<^verbatim>\<open>read\<close> of one byte from descriptor 0 gives the next key of the input; \<open>keys w\<close> is the input that
  is left in the world \<open>w\<close>.
\<close>

definition serves :: "'w kern \<Rightarrow> ('w \<Rightarrow> byte list) \<Rightarrow> bool" where
  "serves K keys \<longleftrightarrow> (\<forall>c w. keys w \<noteq> [] \<longrightarrow> (\<exists>x b w'. K (SysRead 0 1 (\<lambda>_. c)) w = (Go (x, b), w') \<and>
     0 \<le> x \<and> b 0 = hd (keys w) \<and> keys w' = tl (keys w)))"

definition line :: "byte list \<Rightarrow> byte list" where
  "line cs = takeWhile (\<lambda>c. c \<noteq> 10 \<and> c \<noteq> 13) cs"

lemma gets_loop_line:
  assumes "serves K keys" and "keys w = cs" and "int i < mx" and "length (line cs) < length cs \<or> mx - 1 \<le> int i + int (length (line cs))"
  shows "\<exists>buf' w'. gets_loop K mx i c buf w = (Go (i + min (length (line cs)) (nat (mx - 1) - i), buf'), w') \<and>
    (\<forall>k. buf' k = (if i \<le> k \<and> k < i + min (length (line cs)) (nat (mx - 1) - i) then line cs ! (k - i) else buf k)) \<and>
    keys w' = drop (if int i + int (length (line cs)) < mx - 1 then Suc (length (line cs)) else nat (mx - 1) - i) cs"
  using assms(2-)
proof (induction cs arbitrary: i c buf w)
  case Nil
  then have "\<not> int i + 1 < mx" by (simp add: line_def)
  then show ?case using Nil by (subst gets_loop.simps) (auto simp: line_def)
next
  case (Cons x cs)
  show ?case
  proof (cases "int i + 1 < mx")
    case False
    then have "nat (mx - 1) - i = 0" "\<not> int i + int (length (line (x # cs))) < mx - 1" using Cons.prems(2) by auto
    then show ?thesis using False Cons.prems(1) by (subst gets_loop.simps) auto
  next
    case True
    obtain y b w1 where r: "K (SysRead 0 1 (\<lambda>_. c)) w = (Go (y, b), w1)" "0 \<le> y" "b 0 = x" "keys w1 = cs"
      using assms(1) Cons.prems(1) unfolding serves_def by (metis list.distinct(1) list.sel(1,3))
    show ?thesis
    proof (cases "x = 10 \<or> x = 13")
      case nl: True
      then have "line (x # cs) = []" by (auto simp: line_def)
      then show ?thesis using True nl r by (subst gets_loop.simps) auto
    next
      case False
      have l: "line (x # cs) = x # line cs" using False by (simp add: line_def)
      let ?n = "min (length (line cs)) (nat (mx - 1) - Suc i)"
      have n: "min (length (line (x # cs))) (nat (mx - 1) - i) = Suc ?n" using True l by auto
      have "gets_loop K mx i c buf w = gets_loop K mx (Suc i) x (buf(i := x)) w1"
        using True False r by (subst gets_loop.simps) auto
      moreover have pre: "int (Suc i) < mx" "length (line cs) < length cs \<or> mx - 1 \<le> int (Suc i) + int (length (line cs))"
        using Cons.prems(3) True l by auto
      from Cons.IH [OF r(4) pre, of x "buf(i := x)"]
      obtain buf' w' where s': "gets_loop K mx (Suc i) x (buf(i := x)) w1 = (Go (Suc i + ?n, buf'), w')"
          "\<forall>k. buf' k = (if Suc i \<le> k \<and> k < Suc i + ?n then line cs ! (k - Suc i) else (buf(i := x)) k)"
          "keys w' = drop (if int (Suc i) + int (length (line cs)) < mx - 1 then Suc (length (line cs)) else nat (mx - 1) - Suc i) cs"
        by blast
      moreover have "buf' k = (if i \<le> k \<and> k < i + Suc ?n then line (x # cs) ! (k - i) else buf k)" for k
        using s'(2) [rule_format, of k] l by (cases "k = i") (auto simp: nth_Cons' Suc_diff_le)
      moreover have "nat (mx - 1) - i = Suc (nat (mx - 1) - Suc i)" using True by auto
      ultimately show ?thesis unfolding n using l by (intro exI [of _ buf'] exI [of _ w']) auto
    qed
  qed
qed

text \<open>
  C26. \<^verbatim>\<open>gets\<close> reads one line. On a kernel that hands out the keys of the input one by one, with an input that has an
  end of line or is long enough for the buffer, \<^verbatim>\<open>gets\<close> with a buffer of \<open>mx\<close> bytes, \<open>mx\<close> positive, returns with the first line
  in the buffer, cut off after \<open>mx - 1\<close> bytes, a 0 behind it and every other byte as it was; the
  input is left at the next line, or in the middle of the line that was cut off.
\<close>

theorem gets_reads_line:
  assumes "serves K keys" and "0 < mx"
    and "length (line (keys w)) < length (keys w) \<or> mx - 1 \<le> int (length (line (keys w)))"
  shows "\<exists>buf' w'. gets K c buf mx w = (Go buf', w') \<and>
    (let n = min (length (line (keys w))) (nat (mx - 1)) in
      (\<forall>k < n. buf' k = line (keys w) ! k) \<and> buf' n = 0 \<and> (\<forall>k > n. buf' k = buf k) \<and>
      keys w' = drop (if int (length (line (keys w))) < mx - 1 then Suc n else n) (keys w))"
proof -
  let ?l = "length (line (keys w))" let ?n = "min ?l (nat (mx - 1))"
  obtain b w' where g: "gets_loop K mx 0 c buf w = (Go (?n, b), w')"
      "\<forall>k. b k = (if k < ?n then line (keys w) ! k else buf k)"
      "keys w' = drop (if int ?l < mx - 1 then Suc ?l else nat (mx - 1)) (keys w)"
    using gets_loop_line [OF assms(1) refl, of 0 mx w c buf] assms(2,3) by auto
  have "gets K c buf mx w = (Go (b(?n := 0)), w')" using g(1) by (simp add: gets_def retP_def)
  moreover have "(if int ?l < mx - 1 then Suc ?l else nat (mx - 1)) = (if int ?l < mx - 1 then Suc ?n else ?n)" by auto
  ultimately show ?thesis using g(2,3) by (intro exI [of _ "b(?n := 0)"] exI [of _ w']) (auto simp: Let_def)
qed

text \<open>A kernel with the input as the world.\<close>

definition demo_keys :: "byte list kern" where
  "demo_keys r w = (case r of SysRead fd n b \<Rightarrow> (Go (1, \<lambda>_. hd w), tl w) | _ \<Rightarrow> (Go (0, \<lambda>_. 0), w))"

theorem gets_reads_line_witness:
  "(\<exists>buf' w'. gets demo_keys 0 (\<lambda>_. 7) 128 (lit ''ls\<newline>cat\<newline>'') = (Go buf', w') \<and>
     buf' 0 = 108 \<and> buf' 1 = 115 \<and> buf' 2 = 0 \<and> buf' 3 = 7 \<and> w' = lit ''cat\<newline>'') \<and>
   (\<exists>buf' w'. gets demo_keys 0 (\<lambda>_. 7) 2 (lit ''ls\<newline>cat\<newline>'') = (Go buf', w') \<and>
     buf' 0 = 108 \<and> buf' 1 = 0 \<and> buf' 2 = 7 \<and> w' = lit ''s\<newline>cat\<newline>'')"
proof -
  have k: "serves demo_keys (\<lambda>w. w)" by (simp add: serves_def demo_keys_def)
  have l: "line (lit ''ls\<newline>cat\<newline>'') = lit ''ls''" "length (lit ''ls'') = 2" "length (lit ''ls\<newline>cat\<newline>'') = 7"
    by (simp_all add: line_def lit_def)
  have "lit ''ls'' ! 0 = 108" "lit ''ls'' ! 1 = 115" by (simp_all add: lit_def)
  moreover have "drop 3 (lit ''ls\<newline>cat\<newline>'') = lit ''cat\<newline>''" "drop 1 (lit ''ls\<newline>cat\<newline>'') = lit ''s\<newline>cat\<newline>''"
    by (simp_all add: lit_def numeral_3_eq_3)
  ultimately show ?thesis
    using gets_reads_line [OF k, of 128 "lit ''ls\<newline>cat\<newline>''" 0 "\<lambda>_. 7"] gets_reads_line [OF k, of 2 "lit ''ls\<newline>cat\<newline>''" 0 "\<lambda>_. 7"]
    by (auto simp: l Let_def)
qed

end
