(* ===== verification/Progs.thy ===== *)
theory Progs
  imports Ulib
begin

text \<open>
  The user programs, \<^verbatim>\<open>user/init.c\<close>, \<^verbatim>\<open>sh.c\<close>, \<^verbatim>\<open>cat.c\<close>, \<^verbatim>\<open>echo.c\<close>, \<^verbatim>\<open>user1.c\<close> and \<^verbatim>\<open>user2.c\<close>. Loops without
  a bound take a number of rounds; \<open>Fuel\<close> means that the program is still running when they are used up.
\<close>

section \<open>init\<close>

definition init_child :: "'w kern \<Rightarrow> ('w, int) prog" where
  "init_child K = thenP (puts K (lit ''pidis0\<newline>'')) (thenP (call K (SysExec (lit ''sh'') [lit ''sh''])) (call K SysExit))"

fun init_loop :: "nat \<Rightarrow> 'w kern \<Rightarrow> int \<Rightarrow> ('w, int) prog" where
  "init_loop 0 K stdout1 = endP Fuel"
| "init_loop (Suc n) K stdout1 =
     thenP (u_printf K stdout1 (lit ''running sh...\<newline>'') [])
     (bindP (call K SysFork) (\<lambda>pid.
      thenP (if pid = 0 then init_child K else retP 0)
     (thenP (puts K (lit ''pid larger 0\<newline>''))
     (thenP (if 0 < pid then call K SysWait else retP 0)
     (init_loop n K stdout1)))))"

definition init_main :: "nat \<Rightarrow> 'w kern \<Rightarrow> ('w, int) prog" where
  "init_main n K =
     bindP (call K (SysOpen (lit ''console'') O_RDONLY)) (\<lambda>stdin.
     thenP (if stdin < 0 then thenP (call K (SysMknode (lit ''console'') 3 1 1)) (call K (SysOpen (lit ''console'') O_RDONLY)) else retP stdin)
     (bindP (call K (SysOpen (lit ''console'') O_WRONLY)) (\<lambda>stdout1. init_loop n K stdout1)))"

section \<open>sh\<close>

text \<open>\<open>c\<close> is what \<^verbatim>\<open>gets\<close> finds in its variable. The child of a failed \<^verbatim>\<open>exec\<close> never ends.\<close>

fun sh_loop :: "nat \<Rightarrow> 'w kern \<Rightarrow> byte \<Rightarrow> store \<Rightarrow> ('w, int) prog" where
  "sh_loop 0 K c buf = endP Fuel"
| "sh_loop (Suc n) K c buf =
     thenP (call K (SysWrite 1 (lit ''$ '')))
     (bindP (gets K c buf 128) (\<lambda>buf1.
      if buf1 0 = 0 then sh_loop n K c buf1
      else thenP (call K (SysWrite 1 (map buf1 [0..<14])))
       (bindP (call K SysFork) (\<lambda>pid.
        thenP (if pid = 0
               then let cmd = takeWhile (\<lambda>b. b \<noteq> 0) (map buf1 [0..<128]) in thenP (call K (SysExec cmd [cmd])) (endP Spins)
               else retP (0 :: int))
       (thenP (if 0 < pid then call K SysWait else retP 0)
       (sh_loop n K c buf1))))))"

definition sh_main :: "nat \<Rightarrow> 'w kern \<Rightarrow> byte \<Rightarrow> store \<Rightarrow> ('w, int) prog" where
  "sh_main n K c buf = thenP (call K (SysWrite 1 (lit ''sh run now\<newline>''))) (sh_loop n K c buf)"

section \<open>cat\<close>

fun cat_loop :: "nat \<Rightarrow> 'w kern \<Rightarrow> int \<Rightarrow> store \<Rightarrow> ('w, store) prog" where
  "cat_loop 0 K fd buf = endP Fuel"
| "cat_loop (Suc n) K fd buf =
     bindP (K (SysRead fd 512 buf)) (\<lambda>(cc, buf1).
       if cc \<le> 0 then retP buf1
       else if 513 \<le> cc then endP Undef
       else let buf2 = buf1(nat cc := 0) in
         thenP (puts K (map buf2 [0..<513])) (cat_loop n K fd buf2))"

fun cat_files :: "nat \<Rightarrow> 'w kern \<Rightarrow> byte list list \<Rightarrow> store \<Rightarrow> ('w, store) prog" where
  "cat_files n K [] buf = retP buf"
| "cat_files n K (a # as) buf =
     bindP (call K (SysOpen a 0)) (\<lambda>fd.
     thenP (if fd < 0 then thenP (puts K (lit ''open file failed\<newline>'')) (call K SysExit) else retP 0)
     (bindP (cat_loop n K fd buf) (\<lambda>buf1.
      thenP (call K (SysClose fd)) (cat_files n K as buf1))))"

definition cat_main :: "nat \<Rightarrow> 'w kern \<Rightarrow> byte list list \<Rightarrow> ('w, int) prog" where
  "cat_main n K argv =
     thenP (if length argv < 2 then thenP (puts K (lit ''Usage: cat files...\<newline>'')) (call K SysExit) else retP 0)
     (thenP (cat_files n K (drop 1 argv) (\<lambda>_. 0)) (thenP (call K SysExit) (retP 0)))"

section \<open>echo and the test programs\<close>

fun echo_args :: "'w kern \<Rightarrow> byte list list \<Rightarrow> ('w, int) prog" where
  "echo_args K [] = retP 0"
| "echo_args K (a # as) = thenP (puts K a) (thenP (puts K (lit '' '')) (echo_args K as))"

definition echo_main :: "'w kern \<Rightarrow> byte list list \<Rightarrow> ('w, int) prog" where
  "echo_main K argv =
     thenP (puts K (lit ''echo running now\<newline>'')) (thenP (echo_args K (drop 1 argv)) (thenP (puts K (lit ''\<newline>'')) (endP Spins)))"

definition user2_main :: "'w kern \<Rightarrow> ('w, int) prog" where
  "user2_main K = thenP (puts K (lit ''user2 runing now\<newline>'')) (endP Spins)"

definition user1_write :: "'w kern \<Rightarrow> int \<Rightarrow> int \<Rightarrow> byte \<Rightarrow> ('w, int) prog" where
  "user1_write K stdout fd b =
     bindP (call K (SysWrite fd (replicate 10 b))) (\<lambda>n.
       if n \<noteq> 10 then u_printf K stdout (lit ''error:write new file failed\<newline>'') [] else retP 0)"

fun user1_loop :: "nat \<Rightarrow> 'w kern \<Rightarrow> int \<Rightarrow> int \<Rightarrow> ('w, int) prog" where
  "user1_loop 0 K stdout fd = retP 0"
| "user1_loop (Suc n) K stdout fd = thenP (user1_write K stdout fd 97) (thenP (user1_write K stdout fd 98) (user1_loop n K stdout fd))"

text \<open>The array has 200 bytes; a read that gives more has run past it.\<close>

definition user1_main :: "'w kern \<Rightarrow> ('w, int) prog" where
  "user1_main K =
     bindP (call K (SysMknode (lit ''console'') 3 1 1)) (\<lambda>r.
     thenP (if r < 0 then puts K (lit ''mknode failed\<newline>'') else retP 0)
     (bindP (call K (SysOpen (lit ''console'') O_WRONLY)) (\<lambda>stdout.
      thenP (u_printf K stdout (lit ''user1 running\<newline>'') [])
     (bindP (call K (SysOpen (lit ''doesnotexist'') (or O_CREATE O_RDWR))) (\<lambda>fd.
      thenP (if 0 \<le> fd then u_printf K stdout (lit ''creat doesnotexist success\<newline>'') []
             else u_printf K stdout (lit ''create doesnotexist failed\<newline>'') [])
     (thenP (user1_loop 100 K stdout fd)
     (thenP (call K (SysClose fd))
     (bindP (call K (SysOpen (lit ''doesnotexist'') O_RDONLY)) (\<lambda>fd.
      thenP (if fd < 0 then u_printf K stdout (lit ''error:open doesnotexist failed\<newline>'') [] else retP 0)
     (bindP (K (SysRead fd 10000 (\<lambda>_. 0))) (\<lambda>(i, buf).
      if 200 < i then endP Undef else thenP (call K (SysClose fd)) (endP Spins))))))))))))"

section \<open>The calls a program makes\<close>

text \<open>The kernel with a record of the calls.\<close>

definition traced :: "'w kern \<Rightarrow> (req list \<times> 'w) kern" where
  "traced K r = (\<lambda>(tr, w). case K r w of (a, w') \<Rightarrow> (a, (tr @ [r], w')))"

lemma traced_call [simp]: "K r w = (Go (x, b), w') \<Longrightarrow> call (traced K) r (tr, w) = (Go x, (tr @ [r], w'))"
  by (simp add: call_def traced_def bindP_def retP_def)

lemma traced_gone [simp]: "K r w = (Gone, w') \<Longrightarrow> call (traced K) r (tr, w) = (Gone, (tr @ [r], w'))"
  by (simp add: call_def traced_def bindP_def)

text \<open>A kernel whose calls of a kind come back.\<close>

definition answers :: "'w kern \<Rightarrow> (req \<Rightarrow> bool) \<Rightarrow> bool" where
  "answers K R \<longleftrightarrow> (\<forall>r w. R r \<longrightarrow> (\<exists>x b w'. K r w = (Go (x, b), w')))"

lemma answersE:
  assumes "answers K R" and "R r" obtains x w' where "\<And>tr. call (traced K) r (tr, w) = (Go x, (tr @ [r], w'))"
  using assms traced_call unfolding answers_def by metis

fun is_output :: "req \<Rightarrow> bool" where
  "is_output (SysWrite _ _) = True"
| "is_output (SysConsPuts _) = True"
| "is_output _ = False"

lemma puts_str: "0 \<notin> set cs \<Longrightarrow> puts K cs = call K (SysConsPuts cs)"
proof -
  assume "0 \<notin> set cs"
  then have "takeWhile (\<lambda>c. c \<noteq> 0) cs = cs" by (metis (mono_tags) takeWhile_eq_all_conv)
  then show ?thesis by (simp only: puts_def)
qed

lemma uputcs_trace:
  assumes "answers K R" and "\<And>c. R (SysWrite fd [c])"
  shows "\<exists>w'. \<forall>tr. uputcs (traced K) fd cs (tr, w) = (Go 0, (tr @ map (\<lambda>c. SysWrite fd [c]) cs, w'))"
proof (induction cs arbitrary: w)
  case (Cons c cs)
  obtain x w1 where c: "\<And>tr. call (traced K) (SysWrite fd [c]) (tr, w) = (Go x, (tr @ [SysWrite fd [c]], w1))"
    using answersE [OF assms] by blast
  obtain w' where "\<forall>tr. uputcs (traced K) fd cs (tr, w1) = (Go 0, (tr @ map (\<lambda>c. SysWrite fd [c]) cs, w'))" using Cons by blast
  then show ?case by (intro exI [of _ w']) (simp add: uputc_def c)
qed (simp add: retP_def)

lemma uprintf_plain: "37 \<notin> set cs \<Longrightarrow> 0 \<notin> set cs \<Longrightarrow> uprintf cs as = Inr cs"
proof -
  assume "37 \<notin> set cs" "0 \<notin> set cs"
  then have "printf_loop cs as = Inr (map uint cs)" by (induction cs) (auto simp: printf_loop.simps)
  then show ?thesis by (simp add: uprintf_def comp_def)
qed

section \<open>init supervises the shell\<close>

definition init_round :: "int \<Rightarrow> req list" where
  "init_round out = map (\<lambda>c. SysWrite out [c]) (lit ''running sh...\<newline>'') @ [SysFork, SysConsPuts (lit ''pid larger 0\<newline>''), SysWait]"

lemma running_sh: "uprintf (lit ''running sh...\<newline>'') [] = Inr (lit ''running sh...\<newline>'')"
  by (rule uprintf_plain) (simp_all add: lit_def)

lemma init_puts:
  "puts K (lit ''pid larger 0\<newline>'') = call K (SysConsPuts (lit ''pid larger 0\<newline>''))"
  "puts K (lit ''pidis0\<newline>'') = call K (SysConsPuts (lit ''pidis0\<newline>''))"
  by (rule puts_str, simp add: lit_def)+

lemma init_loop_round:
  assumes a: "answers K (\<lambda>r. is_output r \<or> r = SysWait)" and f: "\<And>w. \<exists>pid b w'. 0 < pid \<and> K SysFork w = (Go (pid, b), w')"
  shows "\<exists>w'. init_loop (Suc n) (traced K) out (tr, w) = init_loop n (traced K) out (tr @ init_round out, w')"
proof -
  obtain w1 where w1: "\<forall>tr. uputcs (traced K) out (lit ''running sh...\<newline>'') (tr, w) =
      (Go 0, (tr @ map (\<lambda>c. SysWrite out [c]) (lit ''running sh...\<newline>''), w1))"
    using uputcs_trace [OF a, of out "lit ''running sh...\<newline>''" w] by auto
  obtain pid b w2 where w2: "0 < pid" "K SysFork w1 = (Go (pid, b), w2)" using f by blast
  obtain x w3 where w3: "\<And>tr. puts (traced K) (lit ''pid larger 0\<newline>'') (tr, w2) = (Go x, (tr @ [SysConsPuts (lit ''pid larger 0\<newline>'')], w3))"
    using answersE [OF a, of "SysConsPuts (lit ''pid larger 0\<newline>'')" w2] by (auto simp: init_puts)
  obtain y w4 where w4: "\<And>tr. call (traced K) SysWait (tr, w3) = (Go y, (tr @ [SysWait], w4))"
    using answersE [OF a, of SysWait w3] by auto
  show ?thesis
    using w1 w2 w3 w4 by (intro exI [of _ w4]) (simp add: u_printf_def running_sh retP_def init_round_def)
qed

text \<open>
  As long as \<^verbatim>\<open>fork\<close> gives it children and its output and \<^verbatim>\<open>wait\<close> come back, \<^verbatim>\<open>init\<close> makes, in
  every round, the calls that announce the shell, fork a child and wait for a child to exit.
\<close>

lemma init_supervises:
  assumes "answers K (\<lambda>r. is_output r \<or> r = SysWait)" and "\<And>w. \<exists>pid b w'. 0 < pid \<and> K SysFork w = (Go (pid, b), w')"
  shows "\<exists>w'. init_loop n (traced K) out ([], w) = (Fuel, (concat (replicate n (init_round out)), w'))"
proof -
  have "\<exists>w'. init_loop n (traced K) out (tr, w) = (Fuel, (tr @ concat (replicate n (init_round out)), w'))" for tr
  proof (induction n arbitrary: tr w)
    case (Suc n)
    show ?case using init_loop_round [OF assms, of n out tr w] Suc.IH [of "tr @ init_round out"] by auto
  qed (simp add: endP_def)
  then show ?thesis by (metis append_Nil)
qed

text \<open>The child becomes the shell, or exits when there is no shell.\<close>

lemma init_child_trace:
  assumes "K (SysConsPuts (lit ''pidis0\<newline>'')) w = (Go (x, b), w1)" and "K SysExit w2 = (Gone, w3)"
  shows "K (SysExec (lit ''sh'') [lit ''sh'']) w1 = (Gone, w2) \<Longrightarrow>
      init_child (traced K) ([], w) = (Gone, ([SysConsPuts (lit ''pidis0\<newline>''), SysExec (lit ''sh'') [lit ''sh'']], w2))"
    and "K (SysExec (lit ''sh'') [lit ''sh'']) w1 = (Go (y, b'), w2) \<Longrightarrow>
      init_child (traced K) ([], w) = (Gone, ([SysConsPuts (lit ''pidis0\<newline>''), SysExec (lit ''sh'') [lit ''sh''], SysExit], w3))"
  using assms by (simp_all add: init_child_def init_puts)

section \<open>The shell and its buffer\<close>

text \<open>
  After a line has been read, the shell writes the first 14 bytes of its buffer whatever the length of the
  line: with a shorter line, what the buffer held before is written too.
\<close>

lemma sh_writes_stale_bytes:
  assumes "gets K c buf 128 w = (Go buf1, w1)"
  obtains n where "n < 128" and "buf1 n = 0" and "\<And>k. n < k \<Longrightarrow> k < 14 \<Longrightarrow> map buf1 [0..<14] ! k = buf k"
proof -
  obtain n where "int n < 128" "buf1 n = 0" "\<And>k. n < k \<Longrightarrow> buf1 k = buf k" by (rule gets_bounded [OF _ assms]) simp_all
  then show thesis by (intro that [of n]) auto
qed

section \<open>echo\<close>

text \<open>\<^verbatim>\<open>echo\<close> prints its arguments with a blank behind each, and never ends.\<close>

lemma echo_args_trace:
  assumes "answers K is_output"
  shows "\<exists>w'. \<forall>tr. echo_args (traced K) as (tr, w) =
    (Go 0, (tr @ concat (map (\<lambda>a. [SysConsPuts (takeWhile (\<lambda>c. c \<noteq> 0) a), SysConsPuts (lit '' '')]) as), w'))"
proof (induction as arbitrary: w)
  case (Cons a as)
  have blank: "puts (traced K) (lit '' '') = call (traced K) (SysConsPuts (lit '' ''))" by (rule puts_str) (simp add: lit_def)
  obtain x w1 where w1: "\<And>tr. puts (traced K) a (tr, w) = (Go x, (tr @ [SysConsPuts (takeWhile (\<lambda>c. c \<noteq> 0) a)], w1))"
    using answersE [OF assms, of "SysConsPuts (takeWhile (\<lambda>c. c \<noteq> 0) a)" w] by (auto simp: puts_def)
  obtain y w2 where w2: "\<And>tr. puts (traced K) (lit '' '') (tr, w1) = (Go y, (tr @ [SysConsPuts (lit '' '')], w2))"
    using answersE [OF assms, of "SysConsPuts (lit '' '')" w1] blank by auto
  show ?case using Cons [of w2] by (auto simp: w1 w2)
qed (simp add: retP_def)

lemma echo_trace:
  assumes "answers K is_output"
  shows "\<exists>w'. echo_main (traced K) (name # as) ([], w) = (Spins, ([SysConsPuts (lit ''echo running now\<newline>'')] @
    concat (map (\<lambda>a. [SysConsPuts (takeWhile (\<lambda>c. c \<noteq> 0) a), SysConsPuts (lit '' '')]) as) @ [SysConsPuts (lit ''\<newline>'')], w'))"
proof -
  have p: "puts K' (lit ''echo running now\<newline>'') = call K' (SysConsPuts (lit ''echo running now\<newline>''))"
    "puts K' (lit ''\<newline>'') = call K' (SysConsPuts (lit ''\<newline>''))" for K' :: "(req list \<times> 'a) kern"
    by (rule puts_str, simp add: lit_def)+
  obtain x w1 where w1: "\<And>tr. call (traced K) (SysConsPuts (lit ''echo running now\<newline>'')) (tr, w) = (Go x, (tr @ [SysConsPuts (lit ''echo running now\<newline>'')], w1))"
    using answersE [OF assms, of "SysConsPuts (lit ''echo running now\<newline>'')" w] by auto
  obtain w2 where w2: "\<And>tr. echo_args (traced K) as (tr, w1) =
    (Go 0, (tr @ concat (map (\<lambda>a. [SysConsPuts (takeWhile (\<lambda>c. c \<noteq> 0) a), SysConsPuts (lit '' '')]) as), w2))"
    using echo_args_trace [OF assms] by metis
  obtain y w3 where w3: "\<And>tr. call (traced K) (SysConsPuts (lit ''\<newline>'')) (tr, w2) = (Go y, (tr @ [SysConsPuts (lit ''\<newline>'')], w3))"
    using answersE [OF assms, of "SysConsPuts (lit ''\<newline>'')" w2] by auto
  show ?thesis by (intro exI [of _ w3]) (simp add: echo_main_def p w1 w2 w3 endP_def)
qed

section \<open>cat on an interface\<close>

text \<open>
  What \<^verbatim>\<open>cat\<close> relies on: a descriptor \<open>fd\<close> from which calls of \<^verbatim>\<open>read\<close> take the next 512 bytes of what is left of a file, or all of it,
  and a console that prints strings of up to \<open>lim\<close> bytes and is overrun by longer ones.
\<close>

lemma takeWhile_str:
  assumes "\<forall>i < length bs. b i = bs ! i" and "b (length bs) = 0" and "0 \<notin> set bs" and "length bs < n"
  shows "takeWhile (\<lambda>c. c \<noteq> 0) (map b [0..<n]) = bs"
proof -
  have "[0..<n] = [0..<length bs] @ length bs # [Suc (length bs)..<n]"
    using assms(4) upt_add_eq_append [of 0 "length bs" "n - length bs"] by (simp add: upt_conv_Cons)
  moreover have "map b [0..<length bs] = bs" using assms(1) by (intro nth_equalityI) simp_all
  ultimately have "map b [0..<n] = bs @ 0 # map b [Suc (length bs)..<n]" using assms(2) by simp
  moreover have "\<forall>x \<in> set bs. x \<noteq> 0" using assms(3) by auto
  ultimately show ?thesis by (simp add: takeWhile_append)
qed

locale file_kernel =
  fixes K :: "'w kern" and fd :: int and lim :: nat and ok :: "'w \<Rightarrow> bool" and rest :: "'w \<Rightarrow> byte list" and out :: "'w \<Rightarrow> byte list"
  assumes read: "ok w \<Longrightarrow> \<exists>b w'. K (SysRead fd 512 buf) w = (Go (int (min 512 (length (rest w))), b), w') \<and> ok w' \<and>
      rest w' = drop 512 (rest w) \<and> out w' = out w \<and> (\<forall>i < min 512 (length (rest w)). b i = rest w ! i)"
    and print: "ok w \<Longrightarrow> length bs \<le> lim \<Longrightarrow> length bs \<le> 512 \<Longrightarrow> 0 \<notin> set bs \<Longrightarrow>
      \<exists>b w'. K (SysConsPuts bs) w = (Go (0, b), w') \<and> ok w' \<and> rest w' = rest w \<and> out w' = out w @ bs"
    and overrun: "ok w \<Longrightarrow> lim < length bs \<Longrightarrow> length bs \<le> 512 \<Longrightarrow> 0 \<notin> set bs \<Longrightarrow> \<exists>w'. K (SysConsPuts bs) w = (Undef, w')"
begin

lemma cat_round:
  assumes "ok w" and "rest w \<noteq> []" and "0 \<notin> set (rest w)"
  obtains buf' w1 where "cat_loop (Suc n) K fd buf w = thenP (call K (SysConsPuts (take 512 (rest w)))) (cat_loop n K fd buf') w1"
    and "ok w1" and "rest w1 = drop 512 (rest w)" and "out w1 = out w"
proof -
  let ?l = "min 512 (length (rest w))"
  obtain b w1 where r: "K (SysRead fd 512 buf) w = (Go (int ?l, b), w1)" "ok w1" "rest w1 = drop 512 (rest w)" "out w1 = out w"
    "\<forall>i < ?l. b i = rest w ! i"
    using read [OF assms(1)] by blast
  let ?b = "b(?l := 0)"
  have "takeWhile (\<lambda>c. c \<noteq> 0) (map ?b [0..<513]) = take 512 (rest w)"
    using r(5) assms(3) by (intro takeWhile_str) (auto simp: min.commute dest: in_set_takeD)
  then have "cat_loop (Suc n) K fd buf w = thenP (call K (SysConsPuts (take 512 (rest w)))) (cat_loop n K fd ?b) w1"
    using r(1) assms(2) by (simp add: puts_def min_def)
  then show thesis using r that by blast
qed

lemma cat_end: "ok w \<Longrightarrow> rest w = [] \<Longrightarrow> \<exists>b w'. cat_loop (Suc n) K fd buf w = (Go b, w') \<and> out w' = out w"
  using read [of w buf] by (auto simp: retP_def)

text \<open>With enough rounds, \<^verbatim>\<open>cat\<close> prints what is left of the file.\<close>

lemma cat_prints:
  "ok w \<Longrightarrow> 0 \<notin> set (rest w) \<Longrightarrow> length (rest w) \<le> lim \<or> 512 \<le> lim \<Longrightarrow> length (rest w) < 512 * n \<Longrightarrow>
     \<exists>b w'. cat_loop (Suc n) K fd buf w = (Go b, w') \<and> out w' = out w @ rest w"
proof (induction n arbitrary: w buf)
  case (Suc n)
  show ?case
  proof (cases "rest w = []")
    case True
    then show ?thesis using cat_end [OF Suc.prems(1)] by auto
  next
    case False
    obtain buf1 w1 where c: "cat_loop (Suc (Suc n)) K fd buf w = thenP (call K (SysConsPuts (take 512 (rest w)))) (cat_loop (Suc n) K fd buf1) w1"
      and w1: "ok w1" "rest w1 = drop 512 (rest w)" "out w1 = out w"
      using cat_round [OF Suc.prems(1) False Suc.prems(2)] by blast
    have nz: "0 \<notin> set (take 512 (rest w))" "0 \<notin> set (drop 512 (rest w))" using Suc.prems(2) by (auto dest: in_set_takeD in_set_dropD)
    have len: "length (take 512 (rest w)) \<le> lim" "length (take 512 (rest w)) \<le> 512" using Suc.prems(3) by auto
    obtain b w2 where p: "K (SysConsPuts (take 512 (rest w))) w1 = (Go (0, b), w2)" "ok w2" "rest w2 = rest w1" "out w2 = out w1 @ take 512 (rest w)"
      using print [OF w1(1) len nz(1)] by blast
    have "\<exists>b w'. cat_loop (Suc n) K fd buf1 w2 = (Go b, w') \<and> out w' = out w2 @ rest w2"
    proof (cases n)
      case 0
      then have "rest w2 = []" using Suc.prems(4) p(3) w1(2) by simp
      then show ?thesis using cat_end [OF p(2)] by auto
    next
      case (Suc m)
      have "length (rest w2) \<le> lim \<or> 512 \<le> lim" "length (rest w2) < 512 * n" "0 \<notin> set (rest w2)"
        using Suc.prems(3,4) p(3) w1(2) nz(2) Suc by auto
      then show ?thesis by (intro Suc.IH p(2))
    qed
    moreover have "call K (SysConsPuts (take 512 (rest w))) w1 = (Go 0, w2)" using p(1) by (simp add: call_def retP_def)
    ultimately show ?thesis unfolding c using p w1 by auto
  qed
qed simp

lemma cat_overruns:
  assumes "ok w" and "0 \<notin> set (rest w)" and "lim < length (rest w)" and "lim < 512"
  shows "fst (cat_loop (Suc n) K fd buf w) = Undef"
proof -
  have ne: "rest w \<noteq> []" using assms(3) by auto
  obtain buf1 w1 where c: "cat_loop (Suc n) K fd buf w = thenP (call K (SysConsPuts (take 512 (rest w)))) (cat_loop n K fd buf1) w1" "ok w1"
    by (rule cat_round [OF assms(1) ne assms(2)])
  have "lim < length (take 512 (rest w))" "length (take 512 (rest w)) \<le> 512" "0 \<notin> set (take 512 (rest w))"
    using assms(2-4) by (auto dest: in_set_takeD)
  then obtain w2 where "K (SysConsPuts (take 512 (rest w))) w1 = (Undef, w2)" using overrun [OF c(2)] by blast
  then have "call K (SysConsPuts (take 512 (rest w))) w1 = (Undef, w2)" by (simp add: call_def)
  then show ?thesis unfolding c(1) by simp
qed

end

end
