(* ===== verification/Fork.thy ===== *)
theory Fork
  imports Proc_Life
begin

text \<open>
  What \<^verbatim>\<open>fork\<close> gives the child: \<open>copyproc\<close> of \<open>Proc_Life\<close> copies every mapped page of the parent
  below its size to a page of its own and maps it at the same address with the same flags, copies
  the trap frame, and shares the open files. The pages, tables and trap frame of the parent are not
  touched.
\<close>

section \<open>Pages that are neither free nor tables\<close>

definition data_page :: "u64 \<Rightarrow> 'a pmem_scheme \<Rightarrow> u64 list \<Rightarrow> u64 \<Rightarrow> u64 \<Rightarrow> u64 \<Rightarrow> bool" where
  "data_page kend k xs npt pt d \<longleftrightarrow>
     page_ok kend d \<and> d \<notin> set xs \<and> d \<notin> tables (mem k) npt \<and> d \<notin> tables (mem k) pt"

definition page_at :: "store \<Rightarrow> u64 \<Rightarrow> nat \<Rightarrow> byte" where
  "page_at m a x = m (unat a + x)"

lemma same_bytes_page: "same_bytes m m' d \<Longrightarrow> x < 4096 \<Longrightarrow> page_at m' d x = page_at m d x"
  by (simp add: same_bytes_def page_at_def)

lemma same_bytes_trans: "same_bytes m m' b \<Longrightarrow> same_bytes m' m'' b \<Longrightarrow> same_bytes m m'' b"
  by (simp add: same_bytes_def)

text \<open>Writing a page that is neither free nor a table changes no translation.\<close>

lemma vm_inv_write:
  assumes inv: "vm_inv kend k pt xs" and n: "page_ok kend n" "n \<notin> set xs" "n \<notin> tables (mem k) pt"
    and same: "\<And>i. i < unat n \<or> unat n + 4096 \<le> i \<Longrightarrow> m i = mem k i"
  shows "vm_inv kend (k\<lparr>mem := m\<rparr>) pt xs \<and> tables m pt = tables (mem k) pt \<and> (\<forall>v. xlate m pt v = xlate (mem k) pt v)"
proof -
  have o: "same_bytes (mem k) m b" if "page_ok kend b" "b \<noteq> n" for b
    using page_ok_apart [OF n(1) that(1)] that(2) by (auto simp: same_bytes_def intro!: same)
  have ki: "kmem_inv kend k xs" and cl: "pages_clear (mem k) xs" and pi: "pt_inv kend (mem k) pt xs"
    using inv by (auto simp: vm_inv_def)
  have tb: "page_ok kend b \<and> b \<noteq> n" if "b \<in> tables (mem k) pt" for b
    using that n(3) pi by (auto simp: tables_def dest: pt_inv_node)
  then have st: "\<forall>b \<in> tables (mem k) pt. same_bytes (mem k) m b" using o by blast
  note nd = node_same [OF st]
  have "pages_clear m xs"
    unfolding pages_clear_def
  proof (intro ballI allI impI)
    fix a i assume a: "a \<in> set xs" and i: "i < (512 :: nat)"
    then have "page_ok kend a" "a \<noteq> n" using ki n(2) by (auto simp: kmem_inv_def)
    then show "is_clear (pte_at m a i)" using cl a i pte_at_same [OF o i] by (simp add: pages_clear_def)
  qed
  moreover have "kmem_inv kend (k\<lparr>mem := m\<rparr>) xs" using kmem_inv_frame [OF ki n(1,2), of "k\<lparr>mem := m\<rparr>"] same by simp
  moreover have "pt_inv kend m pt xs" using pi nd by (simp add: pt_inv_def)
  ultimately have "vm_inv kend (k\<lparr>mem := m\<rparr>) pt xs" by (simp add: vm_inv_def)
  then show ?thesis using nd xlate_same [OF st] by (auto simp: tables_def)
qed

lemma apart_write:
  assumes "apart kend k xs npt pt" and "data_page kend k xs npt pt n"
    and "\<And>i. i < unat n \<or> unat n + 4096 \<le> i \<Longrightarrow> m i = mem k i"
  shows "apart kend (k\<lparr>mem := m\<rparr>) xs npt pt \<and> tables m npt = tables (mem k) npt \<and> tables m pt = tables (mem k) pt \<and>
    (\<forall>v. xlate m npt v = xlate (mem k) npt v) \<and> (\<forall>v. xlate m pt v = xlate (mem k) pt v)"
  using assms vm_inv_write [of kend k npt xs n m] vm_inv_write [of kend k pt xs n m]
  by (simp add: apart_def data_page_def)

section \<open>One page\<close>

lemma copy_page_unmapped:
  assumes "vm_inv kend k pt xs" and "v < MAXVA" and "xlate (mem k) pt v = None"
  shows "copy_page pt npt v k = Inr k"
proof -
  have w: "walk pt v False k = Inr (case node (mem k) pt [px 2 v, px 1 v] of None \<Rightarrow> (0, k) | Some t \<Rightarrow> (t + 8 * PX 0 v, k))"
    using walk_eq [OF assms(1,2), of False] walk_levels_no_alloc [OF assms(1), of v] by simp
  show ?thesis
  proof (cases "node (mem k) pt [px 2 v, px 1 v]")
    case None
    then show ?thesis using w by (simp add: copy_page_def del: node.simps)
  next
    case (Some t)
    have "path_ok [px 2 v, px 1 v]" by (simp add: path_ok_def px_less)
    then have "page_ok kend t" using assms(1) Some by (auto simp: vm_inv_def dest: pt_inv_node)
    then have u: "unat (t + 8 * PX 0 v) = unat t + 8 * px 0 v" by (rule unat_pte_addr)
    have "is_clear (pte_at (mem k) t (px 0 v))" using assms(3) xlate_leaf [OF Some] by (simp split: if_splits)
    then have "load64 (mem k) (unat (t + 8 * PX 0 v)) AND PTE_V = 0" unfolding u by (simp add: is_clear_def pte_at_def)
    then show ?thesis using w Some by (simp add: copy_page_def del: node.simps)
  qed
qed

lemma copy_page_mapped_walk:
  assumes "vm_inv kend k pt xs" and "v < MAXVA" and "xlate (mem k) pt v = Some e"
  obtains pte where "walk pt v False k = Inr (pte, k)" "pte \<noteq> 0" "load64 (mem k) (unat pte) = e" "e AND PTE_V \<noteq> 0"
proof -
  obtain t where t: "node (mem k) pt [px 2 v, px 1 v] = Some t"
    using assms(3) by (auto simp: xlate_def simp del: node.simps split: option.splits)
  have "path_ok [px 2 v, px 1 v]" by (simp add: path_ok_def px_less)
  then have tok: "page_ok kend t" using assms(1) t by (auto simp: vm_inv_def dest: pt_inv_node)
  have u: "unat (t + 8 * PX 0 v) = unat t + 8 * px 0 v" by (rule unat_pte_addr [OF tok])
  have "unat t \<noteq> 0" using tok by (simp add: page_ok_def unat_eq_0)
  then have "unat (t + 8 * PX 0 v) \<noteq> 0" using u by simp
  then have nz: "t + 8 * PX 0 v \<noteq> 0" by (metis unat_0)
  have w: "walk pt v False k = Inr (t + 8 * PX 0 v, k)"
    using walk_eq [OF assms(1,2), of False] walk_levels_no_alloc [OF assms(1), of v] t by (simp del: node.simps)
  have "pte_at (mem k) t (px 0 v) = e" "\<not> is_clear e" using assms(3) xlate_leaf [OF t] by (auto split: if_splits)
  then show thesis using that [OF w nz] u by (simp add: pte_at_def is_clear_def)
qed

text \<open>
  The effect of a step of the loop of \<^verbatim>\<open>copyproc\<close>: the free pages \<open>xs\<close> become \<open>xs'\<close>, data pages
  stay as they are, the tables of the parent too, and those of the child grow by free pages only.
\<close>

definition fork_frame :: "u64 \<Rightarrow> u64 \<Rightarrow> u64 \<Rightarrow> 'a pmem_scheme \<Rightarrow> u64 list \<Rightarrow> 'a pmem_scheme \<Rightarrow> u64 list \<Rightarrow> bool" where
  "fork_frame kend npt pt k xs k' xs' \<longleftrightarrow>
     apart kend k' xs' npt pt \<and> set xs' \<subseteq> set xs \<and> tables (mem k') pt = tables (mem k) pt \<and>
     tables (mem k') npt \<subseteq> tables (mem k) npt \<union> set xs \<and> (\<forall>w. xlate (mem k') pt w = xlate (mem k) pt w) \<and>
     (\<forall>b. data_page kend k xs npt pt b \<longrightarrow> same_bytes (mem k) (mem k') b) \<and> pmem.more k' = pmem.more k"

lemma fork_frame_refl: "apart kend k xs npt pt \<Longrightarrow> fork_frame kend npt pt k xs k xs"
  by (auto simp: fork_frame_def same_bytes_def)

lemma fork_frame_data: "fork_frame kend npt pt k xs k' xs' \<Longrightarrow> data_page kend k xs npt pt d \<Longrightarrow> data_page kend k' xs' npt pt d"
  by (auto simp: fork_frame_def data_page_def)

lemma fork_frame_trans:
  assumes "fork_frame kend npt pt k xs k1 xs1" and "fork_frame kend npt pt k1 xs1 k2 xs2"
  shows "fork_frame kend npt pt k xs k2 xs2"
proof -
  have "same_bytes (mem k) (mem k2) b" if "data_page kend k xs npt pt b" for b
    using that assms fork_frame_data [OF assms(1) that] by (auto simp: fork_frame_def intro: same_bytes_trans)
  then show ?thesis using assms by (auto simp: fork_frame_def)
qed

lemma in_range_1: "in_range v 1 w \<longleftrightarrow> same_page v w"
  by (auto simp: in_range_def same_page_def)

text \<open>Filling the free page \<open>n\<close>, once it is taken off the list.\<close>

lemma fork_frame_fill:
  assumes ap: "apart kend k (n # xs) npt pt" and k1: "kalloc k = (n, k1)"
    and same: "\<And>i. i < unat n \<or> unat n + 4096 \<le> i \<Longrightarrow> m i = mem k i"
  shows "fork_frame kend npt pt k (n # xs) (k1\<lparr>mem := m\<rparr>) xs" and "data_page kend (k1\<lparr>mem := m\<rparr>) xs npt pt n"
    and "xlate m npt w = xlate (mem k) npt w"
proof -
  have vi: "vm_inv kend k npt (n # xs)" "vm_inv kend k pt (n # xs)" using ap by (simp_all add: apart_def)
  have m1: "mem k1 = mem k" using vm_inv_kalloc [OF vi(1)] k1 by auto
  have a1: "apart kend k1 xs npt pt" using apart_kalloc [OF ap k1] by simp
  have nn: "page_ok kend n" "n \<notin> set xs" using vi(1) by (auto simp: vm_inv_def kmem_inv_def)
  have nt: "n \<notin> tables (mem k) npt" "n \<notin> tables (mem k) pt" using vi by (auto simp: tables_def vm_inv_def dest: pt_inv_node)
  have "data_page kend k1 xs npt pt n" using nn nt m1 by (simp add: data_page_def)
  note a2 = apart_write [OF a1 this, of m, unfolded m1, OF same]
  have "same_bytes (mem k) m b" if "data_page kend k (n # xs) npt pt b" for b
    using that page_ok_apart [OF nn(1), of b] by (auto simp: same_bytes_def data_page_def intro!: same)
  moreover have "pmem.more k1 = pmem.more k" using kalloc_more [of k] k1 by simp
  ultimately show "fork_frame kend npt pt k (n # xs) (k1\<lparr>mem := m\<rparr>) xs" using a2 by (auto simp: fork_frame_def)
  show "data_page kend (k1\<lparr>mem := m\<rparr>) xs npt pt n" using nn nt a2 by (simp add: data_page_def)
  show "xlate m npt w = xlate (mem k) npt w" using a2 by simp
qed

text \<open>Mapping one page in the table of the child.\<close>

lemma page_top: "v < MAXVA \<Longrightarrow> unat v mod 4096 = 0 \<Longrightarrow> unat v + unat PGSIZE \<le> unat MAXVA"
proof -
  assume "v < MAXVA" and "unat v mod 4096 = 0"
  then obtain q where q: "unat v = 4096 * q" by (auto simp: mod_eq_0_iff_dvd)
  have "unat v < 274877906944" using \<open>v < MAXVA\<close> by (simp add: word_less_nat_alt)
  then show ?thesis using q by simp
qed

lemma fork_frame_map:
  assumes ap: "apart kend k xs npt pt" and v: "v < MAXVA" "unat v mod 4096 = 0" and un: "xlate (mem k) npt v = None" and len: "2 \<le> length xs"
  obtains k' xs' where "mappages npt v n PGSIZE perm k = Inr (0, k')" "fork_frame kend npt pt k xs k' xs'" "length xs \<le> length xs' + 2"
    "\<forall>w < MAXVA. xlate (mem k') npt w = (if same_page v w then Some (leaf_entry n perm) else xlate (mem k) npt w)"
proof -
  have vi: "vm_inv kend k npt xs" "vm_inv kend k pt xs" "tables (mem k) npt \<inter> tables (mem k) pt = {}" using ap by (simp_all add: apart_def)
  have un2: "\<forall>w < MAXVA. in_range v (unat PGSIZE div 4096) w \<longrightarrow> xlate (mem k) npt w = None"
    using un xlate_same_page [OF _ v(1)] in_range_1 [of v] by (auto simp del: node.simps)
  obtain k' xs' where k': "mappages npt v n PGSIZE perm k = Inr (0, k')" "vm_inv kend k' npt xs'" "length xs \<le> length xs' + 2"
    "\<forall>w < MAXVA. xlate (mem k') npt w = map_spec v n 1 perm (xlate (mem k) npt) w"
    using mappages_maps [where kend = kend and xs = xs and k = k and va = v and sz = PGSIZE and pa = n and perm = perm, OF vi(1) _ _ _ page_top [OF v] _ un2]
      v(2) len by (auto simp: word_mod_0_iff)
  have a: "apart kend k' xs' npt pt" "\<forall>w. xlate (mem k') pt w = xlate (mem k) pt w" using apart_mappages [OF ap k'(1,2)] by auto
  have fr: "pt_frame kend npt k xs k' xs'" using mappages_frame [OF vi(1) k'(1)] k'(2) vm_inv_unique by metis
  have "set xs' \<subseteq> set xs" using fr by (auto simp: pt_frame_def suffix_def)
  then have "fork_frame kend npt pt k xs k' xs'"
    using a fr pt_frame_other [OF fr k'(2) vi(2,3)] mappages_more [OF k'(1)] by (auto simp: fork_frame_def pt_frame_def data_page_def)
  moreover have "map_spec v n 1 perm f w = (if same_page v w then Some (leaf_entry n perm) else f w)" for f w
    unfolding map_spec_def in_range_1 by (simp add: same_page_def)
  ultimately show thesis using that k' by auto
qed

lemma copy_page_mapped:
  assumes ap: "apart kend k (n # xs) npt pt" and v: "v < MAXVA" "unat v mod 4096 = 0"
    and e: "xlate (mem k) pt v = Some e" and un: "xlate (mem k) npt v = None"
    and d: "data_page kend k (n # xs) npt pt (PTE2PA e)" and len: "2 \<le> length xs"
  obtains k' xs' where "copy_page pt npt v k = Inr k'" "fork_frame kend npt pt k (n # xs) k' xs'" "length xs \<le> length xs' + 2"
    "\<forall>w < MAXVA. xlate (mem k') npt w = (if same_page v w then Some (leaf_entry n (PTE_FLAGS e)) else xlate (mem k) npt w)"
    "\<forall>x < 4096. page_at (mem k') n x = page_at (mem k) (PTE2PA e) x" "data_page kend k' xs' npt pt n" "n \<notin> set xs'"
proof -
  have vi: "vm_inv kend k npt (n # xs)" "vm_inv kend k pt (n # xs)" using ap by (simp_all add: apart_def)
  obtain pte where w: "walk pt v False k = Inr (pte, k)" "pte \<noteq> 0" "load64 (mem k) (unat pte) = e" "e AND PTE_V \<noteq> 0"
    using copy_page_mapped_walk [OF vi(2) v(1) e] .
  obtain k1 where k1: "kalloc k = (n, k1)" "mem k1 = mem k" using vm_inv_kalloc [OF vi(1)] by blast
  have nn: "page_ok kend n" "n \<noteq> 0" "n \<notin> set xs" using vi(1) by (auto simp: vm_inv_def kmem_inv_def page_ok_def)
  let ?m = "copy_mem 4096 (unat (PTE2PA e)) (unat n) (mem k)" and ?k2 = "k1\<lparr>mem := copy_mem 4096 (unat (PTE2PA e)) (unat n) (mem k)\<rparr>"
  have dis: "unat (PTE2PA e) + 4096 \<le> unat n \<or> unat n + 4096 \<le> unat (PTE2PA e)"
    using page_ok_apart [of kend "PTE2PA e" n] d nn by (auto simp: data_page_def)
  note f2 = fork_frame_fill [OF ap k1(1), of ?m, OF copy_mem_other]
  have "apart kend ?k2 xs npt pt" "xlate (mem ?k2) npt v = None" using f2(1,3) un by (simp_all add: fork_frame_def)
  then obtain k3 xs3 where k3: "mappages npt v n PGSIZE (PTE_FLAGS e) ?k2 = Inr (0, k3)" "fork_frame kend npt pt ?k2 xs k3 xs3"
    "length xs \<le> length xs3 + 2"
    "\<forall>w < MAXVA. xlate (mem k3) npt w = (if same_page v w then Some (leaf_entry n (PTE_FLAGS e)) else xlate (mem ?k2) npt w)"
    using fork_frame_map [OF _ v _ len] by metis
  have "copy_page pt npt v k = Inr k3" using w k1 nn(2) k3(1) by (simp add: copy_page_def)
  moreover have sb: "same_bytes ?m (mem k3) n" using k3(2) f2(2) by (simp add: fork_frame_def)
  have "page_at (mem k3) n x = page_at (mem k) (PTE2PA e) x" if "x < 4096" for x
    using same_bytes_page [OF sb that] copy_mem_at [OF dis] that by (simp add: page_at_def)
  moreover have "data_page kend k3 xs3 npt pt n" by (rule fork_frame_data [OF k3(2) f2(2)])
  moreover have "n \<notin> set xs3" using k3(2) nn(3) by (auto simp: fork_frame_def)
  ultimately show thesis using that fork_frame_trans [OF f2(1) k3(2)] k3(3,4) f2(3) by simp
qed

section \<open>All pages\<close>

lemma copy_pages_step:
  "i < bound \<Longrightarrow> copy_page pt npt (of_nat i) k = Inr k1 \<Longrightarrow> i + 4096 < 2 ^ 31 \<Longrightarrow>
    copy_pages pt npt bound i k = copy_pages pt npt bound (i + 4096) k1"
  by (subst copy_pages.simps) simp

text \<open>
  \<open>f\<close> gives for every address the page that the child gets. The number of mapped pages is at most
  the number of pages, so three free pages for each are enough.
\<close>

definition forked_at ::
  "u64 \<Rightarrow> u64 \<Rightarrow> u64 \<Rightarrow> (nat \<Rightarrow> u64) \<Rightarrow> nat \<Rightarrow> nat \<Rightarrow> 'a pmem_scheme \<Rightarrow> u64 list \<Rightarrow> 'a pmem_scheme \<Rightarrow> u64 list \<Rightarrow> nat \<Rightarrow> bool" where
  "forked_at kend npt pt f lo hi k xs k' xs' j \<longleftrightarrow>
     (case xlate (mem k) pt (of_nat (4096 * j)) of
        None \<Rightarrow> xlate (mem k') npt (of_nat (4096 * j)) = None
      | Some e \<Rightarrow> xlate (mem k') npt (of_nat (4096 * j)) = Some (leaf_entry (f j) (PTE_FLAGS e)) \<and>
          f j \<in> set xs \<and> data_page kend k' xs' npt pt (f j) \<and>
          (\<forall>x < 4096. page_at (mem k') (f j) x = page_at (mem k) (PTE2PA e) x) \<and>
          (\<forall>l. lo \<le> l \<and> l < hi \<and> l \<noteq> j \<and> xlate (mem k) pt (of_nat (4096 * l)) \<noteq> None \<longrightarrow> f l \<noteq> f j))"

definition forked ::
  "u64 \<Rightarrow> u64 \<Rightarrow> u64 \<Rightarrow> (nat \<Rightarrow> u64) \<Rightarrow> nat \<Rightarrow> nat \<Rightarrow> 'a pmem_scheme \<Rightarrow> u64 list \<Rightarrow> 'a pmem_scheme \<Rightarrow> u64 list \<Rightarrow> bool" where
  "forked kend npt pt f lo hi k xs k' xs' \<longleftrightarrow>
     (\<forall>j. lo \<le> j \<and> j < hi \<longrightarrow> forked_at kend npt pt f lo hi k xs k' xs' j)"

lemma unat_page: "j < 2 ^ 19 \<Longrightarrow> unat (of_nat (4096 * j) :: u64) = 4096 * j"
  by (simp only: unat_of_nat) simp

lemma same_page_nat: "j < 2 ^ 19 \<Longrightarrow> l < 2 ^ 19 \<Longrightarrow> same_page (of_nat (4096 * j)) (of_nat (4096 * l)) \<longleftrightarrow> j = l"
  by (simp only: same_page_def unat_page) simp

lemma page_less_MAXVA: "j < 2 ^ 19 \<Longrightarrow> (of_nat (4096 * j) :: u64) < MAXVA"
  by (simp only: word_less_nat_alt unat_page) simp

lemma forked_skip:
  assumes "forked kend npt pt f (Suc lo) hi k xs k' xs'" and "xlate (mem k) pt (of_nat (4096 * lo)) = None"
    and "xlate (mem k') npt (of_nat (4096 * lo)) = None"
  shows "forked kend npt pt f lo hi k xs k' xs'"
  unfolding forked_def
proof (intro allI impI)
  fix j assume j: "lo \<le> j \<and> j < hi"
  show "forked_at kend npt pt f lo hi k xs k' xs' j"
  proof (cases "j = lo")
    case True
    then show ?thesis using assms(2,3) by (simp only: forked_at_def option.case)
  next
    case False
    with j have "Suc lo \<le> j \<and> j < hi" by simp
    note fj = assms(1) [unfolded forked_def, rule_format, OF this]
    have "Suc lo \<le> l" if "lo \<le> l" "xlate (mem k) pt (of_nat (4096 * l)) \<noteq> None" for l
      using that assms(2) by (cases "l = lo") (auto simp del: of_nat_mult)
    then show ?thesis using fj by (auto simp: forked_at_def split: option.splits simp del: of_nat_mult)
  qed
qed

lemma forked_cons:
  assumes fr: "fork_frame kend npt pt k (n # xs) k1 xs1" and f: "forked kend npt pt f (Suc lo) hi k1 xs1 k' xs'"
    and fr': "fork_frame kend npt pt k1 xs1 k' xs'" and e: "xlate (mem k) pt (of_nat (4096 * lo)) = Some e"
    and x: "xlate (mem k') npt (of_nat (4096 * lo)) = Some (leaf_entry n (PTE_FLAGS e))"
    and c: "\<forall>x < 4096. page_at (mem k1) n x = page_at (mem k) (PTE2PA e) x" and n: "data_page kend k1 xs1 npt pt n" "n \<notin> set xs1"
    and d: "\<forall>j e. lo \<le> j \<and> j < hi \<and> xlate (mem k) pt (of_nat (4096 * j)) = Some e \<longrightarrow> data_page kend k (n # xs) npt pt (PTE2PA e)"
  shows "forked kend npt pt (f(lo := n)) lo hi k (n # xs) k' xs'"
proof -
  have pt: "xlate (mem k1) pt w = xlate (mem k) pt w" for w using fr by (simp add: fork_frame_def)
  have sub: "set xs1 \<subseteq> set (n # xs)" using fr by (simp add: fork_frame_def)
  have fj: "xlate (mem k') npt (of_nat (4096 * j)) = Some (leaf_entry (f j) (PTE_FLAGS e')) \<and> f j \<in> set xs1 \<and>
      data_page kend k' xs' npt pt (f j) \<and> (\<forall>x < 4096. page_at (mem k') (f j) x = page_at (mem k1) (PTE2PA e') x) \<and>
      (\<forall>l. Suc lo \<le> l \<and> l < hi \<and> l \<noteq> j \<and> xlate (mem k) pt (of_nat (4096 * l)) \<noteq> None \<longrightarrow> f l \<noteq> f j)"
    if "Suc lo \<le> j" "j < hi" "xlate (mem k) pt (of_nat (4096 * j)) = Some e'" for j e'
    using f [unfolded forked_def forked_at_def pt, rule_format, of j] that by (simp del: of_nat_mult)
  have f0: "xlate (mem k') npt (of_nat (4096 * j)) = None"
    if "Suc lo \<le> j" "j < hi" "xlate (mem k) pt (of_nat (4096 * j)) = None" for j
    using f [unfolded forked_def forked_at_def pt, rule_format, of j] that by (simp del: of_nat_mult)
  have ne: "f l \<noteq> n" if "Suc lo \<le> l" "l < hi" "xlate (mem k) pt (of_nat (4096 * l)) \<noteq> None" for l
    using fj [of l] that n(2) by auto
  have n': "data_page kend k' xs' npt pt n" by (rule fork_frame_data [OF fr' n(1)])
  have cn: "page_at (mem k') n x = page_at (mem k) (PTE2PA e) x" if "x < 4096" for x
    using same_bytes_page [of "mem k1" "mem k'" n x] fr' n(1) that c by (simp add: fork_frame_def)
  have cj: "page_at (mem k1) (PTE2PA e') x = page_at (mem k) (PTE2PA e') x"
    if "lo \<le> j" "j < hi" "xlate (mem k) pt (of_nat (4096 * j)) = Some e'" "x < 4096" for j e' x
    using same_bytes_page [of "mem k" "mem k1" "PTE2PA e'" x] fr d that by (auto simp: fork_frame_def)
  have "forked_at kend npt pt (f(lo := n)) lo hi k (n # xs) k' xs' j" if j: "lo \<le> j \<and> j < hi" for j
  proof (cases "j = lo")
    case True
    have "f l \<noteq> n" if "lo \<le> l \<and> l < hi \<and> l \<noteq> j \<and> xlate (mem k) pt (of_nat (4096 * l)) \<noteq> None" for l
      using ne [of l] that True by simp
    then show ?thesis using True e x n' cn by (simp add: forked_at_def del: of_nat_mult)
  next
    case False
    then have j': "Suc lo \<le> j" "j < hi" using j by simp_all
    show ?thesis
    proof (cases "xlate (mem k) pt (of_nat (4096 * j))")
      case None
      then show ?thesis using f0 [OF j'] by (simp add: forked_at_def del: of_nat_mult)
    next
      case (Some e')
      note a = fj [OF j' Some]
      have "(f(lo := n)) l \<noteq> f j" if "lo \<le> l \<and> l < hi \<and> l \<noteq> j \<and> xlate (mem k) pt (of_nat (4096 * l)) \<noteq> None" for l
        using a that ne [OF j'] Some by (cases "l = lo") (auto simp del: of_nat_mult)
      then show ?thesis using a Some False sub cj [of j e'] j by (auto simp: forked_at_def simp del: of_nat_mult)
    qed
  qed
  then show ?thesis unfolding forked_def by blast
qed

text \<open>What the loop needs from page \<open>lo\<close> on, and what it gives.\<close>

definition fork_pre :: "u64 \<Rightarrow> u64 \<Rightarrow> u64 \<Rightarrow> nat \<Rightarrow> nat \<Rightarrow> 'a pmem_scheme \<Rightarrow> u64 list \<Rightarrow> bool" where
  "fork_pre kend npt pt hi lo k xs \<longleftrightarrow> apart kend k xs npt pt \<and> 3 * (hi - lo) \<le> length xs \<and>
     (\<forall>j. lo \<le> j \<and> j < hi \<longrightarrow> xlate (mem k) npt (of_nat (4096 * j)) = None) \<and>
     (\<forall>j e. lo \<le> j \<and> j < hi \<and> xlate (mem k) pt (of_nat (4096 * j)) = Some e \<longrightarrow> data_page kend k xs npt pt (PTE2PA e))"

definition fork_post :: "u64 \<Rightarrow> u64 \<Rightarrow> u64 \<Rightarrow> nat \<Rightarrow> nat \<Rightarrow> 'a pmem_scheme \<Rightarrow> u64 list \<Rightarrow> bool" where
  "fork_post kend npt pt hi lo k xs \<longleftrightarrow>
     (\<exists>k' xs' f. copy_pages pt npt (4096 * hi) (4096 * lo) k = Inr k' \<and> fork_frame kend npt pt k xs k' xs' \<and>
       forked kend npt pt f lo hi k xs k' xs' \<and>
       (\<forall>w < MAXVA. (\<forall>j. lo \<le> j \<and> j < hi \<longrightarrow> \<not> same_page (of_nat (4096 * j)) w) \<longrightarrow> xlate (mem k') npt w = xlate (mem k) npt w))"

lemma copy_pages_Suc:
  assumes "hi < 2 ^ 19" and "lo < hi" and "copy_page pt npt (of_nat (4096 * lo)) k = Inr k1"
  shows "copy_pages pt npt (4096 * hi) (4096 * lo) k = copy_pages pt npt (4096 * hi) (4096 * Suc lo) k1"
  using copy_pages_step [of "4096 * lo" "4096 * hi" pt npt k k1] assms by (simp add: add.commute del: of_nat_mult)

lemma other_pages: "hi < 2 ^ 19 \<Longrightarrow> lo < hi \<Longrightarrow> Suc lo \<le> j \<and> j < hi \<longrightarrow> \<not> same_page (of_nat (4096 * j)) (of_nat (4096 * lo))"
  using same_page_nat [of j lo] by (auto simp del: of_nat_mult)

lemma fork_skip:
  assumes hi: "hi < 2 ^ 19" "lo < hi" and pre: "fork_pre kend npt pt hi lo k xs" and none: "xlate (mem k) pt (of_nat (4096 * lo)) = None"
  shows "fork_pre kend npt pt hi (Suc lo) k xs" and "fork_post kend npt pt hi (Suc lo) k xs \<Longrightarrow> fork_post kend npt pt hi lo k xs"
proof -
  let ?v = "of_nat (4096 * lo) :: u64"
  show "fork_pre kend npt pt hi (Suc lo) k xs"
    using pre unfolding fork_pre_def by (auto simp del: of_nat_mult dest: Suc_leD)
  assume "fork_post kend npt pt hi (Suc lo) k xs"
  then obtain k' xs' f where r: "copy_pages pt npt (4096 * hi) (4096 * Suc lo) k = Inr k'" "fork_frame kend npt pt k xs k' xs'"
    "forked kend npt pt f (Suc lo) hi k xs k' xs'"
    "\<forall>w < MAXVA. (\<forall>j. Suc lo \<le> j \<and> j < hi \<longrightarrow> \<not> same_page (of_nat (4096 * j)) w) \<longrightarrow> xlate (mem k') npt w = xlate (mem k) npt w"
    unfolding fork_post_def by blast
  have v: "?v < MAXVA" using page_less_MAXVA hi by simp
  have "xlate (mem k') npt ?v = xlate (mem k) npt ?v" using r(4) v other_pages [OF hi] by blast
  then have "xlate (mem k') npt ?v = None" using pre hi(2) unfolding fork_pre_def by (metis order_refl)
  moreover have "copy_page pt npt ?v k = Inr k" using pre v none by (intro copy_page_unmapped) (auto simp: fork_pre_def apart_def)
  ultimately show "fork_post kend npt pt hi lo k xs"
    unfolding fork_post_def using copy_pages_Suc [OF hi] r forked_skip [OF r(3) none] by (metis Suc_leD)
qed

lemma fork_take:
  fixes k :: "'a pmem_scheme"
  assumes hi: "hi < 2 ^ 19" "lo < hi" and pre: "fork_pre kend npt pt hi lo k xs" and e: "xlate (mem k) pt (of_nat (4096 * lo)) = Some e"
  obtains k1 :: "'a pmem_scheme" and xs1 where "fork_pre kend npt pt hi (Suc lo) k1 xs1" and "fork_post kend npt pt hi (Suc lo) k1 xs1 \<longrightarrow> fork_post kend npt pt hi lo k xs"
proof -
  let ?v = "of_nat (4096 * lo) :: u64"
  have v: "?v < MAXVA" "unat ?v mod 4096 = 0" using page_less_MAXVA [of lo] unat_page [of lo] hi by simp_all
  have l: "3 * Suc (hi - Suc lo) \<le> length xs" using pre hi by (simp add: fork_pre_def Suc_diff_Suc)
  then obtain n ys where xs: "xs = n # ys" "2 \<le> length ys" by (cases xs) auto
  have ap: "apart kend k (n # ys) npt pt" and un: "xlate (mem k) npt ?v = None" and d: "data_page kend k (n # ys) npt pt (PTE2PA e)"
    and none: "\<And>j. lo \<le> j \<and> j < hi \<Longrightarrow> xlate (mem k) npt (of_nat (4096 * j)) = None"
    and data: "\<forall>j e. lo \<le> j \<and> j < hi \<and> xlate (mem k) pt (of_nat (4096 * j)) = Some e \<longrightarrow> data_page kend k (n # ys) npt pt (PTE2PA e)"
    using pre hi(2) e xs(1) unfolding fork_pre_def by (blast, metis order_refl, metis order_refl, blast, blast)
  obtain k1 xs1 where c: "copy_page pt npt ?v k = Inr k1" "fork_frame kend npt pt k (n # ys) k1 xs1" "length ys \<le> length xs1 + 2"
    "\<forall>w < MAXVA. xlate (mem k1) npt w = (if same_page ?v w then Some (leaf_entry n (PTE_FLAGS e)) else xlate (mem k) npt w)"
    "\<forall>x < 4096. page_at (mem k1) n x = page_at (mem k) (PTE2PA e) x" "data_page kend k1 xs1 npt pt n" "n \<notin> set xs1"
    using copy_page_mapped [OF ap v e un d xs(2)] by metis
  have ap1: "apart kend k1 xs1 npt pt" and pt: "xlate (mem k1) pt w = xlate (mem k) pt w" for w using c(2) by (simp_all add: fork_frame_def)
  have "xlate (mem k1) npt (of_nat (4096 * j)) = None" if "Suc lo \<le> j \<and> j < hi" for j
    using c(4) none [of j] that hi same_page_nat [of lo j] page_less_MAXVA [of j] by (simp del: of_nat_mult)
  moreover have "data_page kend k1 xs1 npt pt (PTE2PA e)" if "Suc lo \<le> j \<and> j < hi \<and> xlate (mem k1) pt (of_nat (4096 * j)) = Some e" for j e
    using that fork_frame_data [OF c(2)] data Suc_leD unfolding pt by blast
  moreover have "3 * (hi - Suc lo) \<le> length xs1" using l c(3) xs by simp
  ultimately have "fork_pre kend npt pt hi (Suc lo) k1 xs1" using ap1 unfolding fork_pre_def by blast
  moreover have "fork_post kend npt pt hi lo k xs" if post: "fork_post kend npt pt hi (Suc lo) k1 xs1"
  proof -
    obtain k' xs' f where r: "copy_pages pt npt (4096 * hi) (4096 * Suc lo) k1 = Inr k'" "fork_frame kend npt pt k1 xs1 k' xs'"
      "forked kend npt pt f (Suc lo) hi k1 xs1 k' xs'"
      "\<forall>w < MAXVA. (\<forall>j. Suc lo \<le> j \<and> j < hi \<longrightarrow> \<not> same_page (of_nat (4096 * j)) w) \<longrightarrow> xlate (mem k') npt w = xlate (mem k1) npt w"
      using post unfolding fork_post_def by blast
    have "xlate (mem k') npt ?v = xlate (mem k1) npt ?v" using r(4) v(1) other_pages [OF hi] by blast
    then have x: "xlate (mem k') npt ?v = Some (leaf_entry n (PTE_FLAGS e))" using c(4) v(1) by (simp add: same_page_def)
    have "\<forall>w < MAXVA. (\<forall>j. lo \<le> j \<and> j < hi \<longrightarrow> \<not> same_page (of_nat (4096 * j)) w) \<longrightarrow> xlate (mem k') npt w = xlate (mem k) npt w"
      using r(4) c(4) hi(2) by (simp del: of_nat_mult)
    then show ?thesis
      unfolding fork_post_def xs(1)
      using forked_cons [OF c(2) r(3,2) e x c(5-7) data] fork_frame_trans [OF c(2) r(2)] copy_pages_Suc [OF hi c(1)] r(1) by metis
  qed
  ultimately show thesis using that by blast
qed

lemma copy_pages_forks:
  assumes hi: "hi < 2 ^ 19"
  shows "lo \<le> hi \<Longrightarrow> fork_pre kend npt pt hi lo k xs \<Longrightarrow> fork_post kend npt pt hi lo k xs"
proof (induction "hi - lo" arbitrary: lo k xs)
  case 0
  then have "hi = lo" by simp
  then have "copy_pages pt npt (4096 * hi) (4096 * lo) k = Inr k" "forked kend npt pt (\<lambda>_. 0) lo hi k xs k xs"
    by (auto simp: copy_pages.simps [of _ _ "4096 * lo"] forked_def)
  then show ?case using fork_frame_refl [of kend k xs npt pt] 0(3) unfolding fork_post_def fork_pre_def by blast
next
  case (Suc r)
  then have lo: "lo < hi" "r = hi - Suc lo" "Suc lo \<le> hi" by simp_all
  show ?case
  proof (cases "xlate (mem k) pt (of_nat (4096 * lo))")
    case None
    show ?thesis by (rule fork_skip(2) [OF hi lo(1) Suc.prems(2) None Suc.hyps(1) [OF lo(2,3) fork_skip(1) [OF hi lo(1) Suc.prems(2) None]]])
  next
    case (Some e)
    show ?thesis by (rule fork_take [OF hi lo(1) Suc.prems(2) Some]) (use Suc.hyps(1) [OF lo(2,3)] in blast)
  qed
qed

section \<open>Open files\<close>

lemma fd_incref_simps [simp]: "mem (fd_incref f s) = mem s" "procs (fd_incref f s) = procs s"
  by (simp_all add: fd_incref_def upd_fd_def)

lemma copy_fds_procs:
  "p \<noteq> np \<Longrightarrow> np < length (procs s) \<Longrightarrow> \<exists>fs. procs (copy_fds is p np s) = (procs s)[np := (procs s ! np)\<lparr>p_fds := fs\<rparr>] \<and>
     length fs = length (p_fds (procs s ! np)) \<and>
     (\<forall>i < length fs. fs ! i = (if i \<in> set is then p_fds (procs s ! p) ! i else p_fds (procs s ! np) ! i))"
proof (induction "is" arbitrary: s)
  case Nil
  then show ?case by (intro exI [of _ "p_fds (procs s ! np)"]) simp
next
  case (Cons i "is")
  let ?f = "p_fds (procs s ! p) ! i"
  let ?s1 = "upd_proc np (\<lambda>q. q\<lparr>p_fds := (p_fds q)[i := ?f]\<rparr>) s"
  let ?t = "case ?f of None \<Rightarrow> ?s1 | Some fd \<Rightarrow> fd_incref fd ?s1"
  have ps: "procs ?t = (procs s)[np := (procs s ! np)\<lparr>p_fds := (p_fds (procs s ! np))[i := ?f]\<rparr>]"
    by (simp split: option.splits)
  have n: "np < length (procs ?t)" using Cons.prems(2) unfolding ps by simp
  have p: "procs ?t ! np = (procs s ! np)\<lparr>p_fds := (p_fds (procs s ! np))[i := ?f]\<rparr>" "procs ?t ! p = procs s ! p"
    using Cons.prems unfolding ps by simp_all
  obtain fs where fs: "procs (copy_fds is p np ?t) = (procs ?t)[np := (procs ?t ! np)\<lparr>p_fds := fs\<rparr>]"
    "length fs = length (p_fds (procs ?t ! np))"
    "\<forall>j < length fs. fs ! j = (if j \<in> set is then p_fds (procs ?t ! p) ! j else p_fds (procs ?t ! np) ! j)"
    using Cons.IH [OF Cons.prems(1) n] by blast
  have c: "copy_fds (i # is) p np s = copy_fds is p np ?t" by (simp add: Let_def)
  show ?case
    unfolding c using fs unfolding p unfolding ps by (intro exI [of _ fs]) (auto simp: nth_update_iff)
qed

lemma copy_fds_mem [simp]: "mem (copy_fds is p np s) = mem s"
  by (induction "is" arbitrary: s) (simp_all add: Let_def split: option.splits)

lemma copy_fds_all:
  assumes "p \<noteq> np" and "np < length (procs s)" and "length (p_fds (procs s ! p)) = NOFILE" and "length (p_fds (procs s ! np)) = NOFILE"
  shows "procs (copy_fds [0..<NOFILE] p np s) = (procs s)[np := (procs s ! np)\<lparr>p_fds := p_fds (procs s ! p)\<rparr>]"
proof -
  obtain fs where fs: "procs (copy_fds [0..<NOFILE] p np s) = (procs s)[np := (procs s ! np)\<lparr>p_fds := fs\<rparr>]"
     "length fs = length (p_fds (procs s ! np))"
     "\<forall>i < length fs. fs ! i = (if i \<in> set [0..<NOFILE] then p_fds (procs s ! p) ! i else p_fds (procs s ! np) ! i)"
    using copy_fds_procs [OF assms(1,2)] by blast
  then have "fs = p_fds (procs s ! p)" using assms(3,4) by (intro nth_equalityI) simp_all
  with fs(1) show ?thesis by simp
qed

section \<open>The whole of copyproc\<close>

text \<open>The number of pages \<^verbatim>\<open>copyproc\<close> looks at.\<close>

definition fork_pages :: "u64 \<Rightarrow> nat" where
  "fork_pages sz = (unat sz + 4095) div 4096 + 1"

lemma fork_bound: "unat sz < 2 ^ 30 \<Longrightarrow> unat (PGROUNDUP sz + PGSIZE) = 4096 * fork_pages sz \<and> fork_pages sz < 2 ^ 19"
proof -
  assume sz: "unat sz < 2 ^ 30"
  then have u: "unat (PGROUNDUP sz) = (unat sz + 4095) div 4096 * 4096" by (intro unat_PGROUNDUP) simp
  have d: "(unat sz + 4095) div 4096 < 2 ^ 19 - 1" using sz by (simp add: div_less_iff_less_mult)
  then have "unat (PGROUNDUP sz + PGSIZE) = (unat sz + 4095) div 4096 * 4096 + 4096"
    using u by (simp add: unat_word_ariths)
  then show ?thesis using d by (simp add: fork_pages_def)
qed

text \<open>What the loop of \<^verbatim>\<open>copyproc\<close> needs of the parent \<open>p\<close> when the free list is \<open>n # xs\<close>.\<close>

definition forkable :: "u64 \<Rightarrow> nat \<Rightarrow> 'a pst_scheme \<Rightarrow> u64 \<Rightarrow> u64 list \<Rightarrow> bool" where
  "forkable kend p s n xs \<longleftrightarrow>
     vm_inv kend s (p_pagetable (procs s ! p)) (n # xs) \<and> unat (p_sz (procs s ! p)) < 2 ^ 30 \<and>
     7 + 3 * fork_pages (p_sz (procs s ! p)) \<le> length xs \<and>
     page_ok kend (p_tf (procs s ! p)) \<and> p_tf (procs s ! p) \<notin> set (n # xs) \<and>
     p_tf (procs s ! p) \<notin> tables (mem s) (p_pagetable (procs s ! p)) \<and>
     (\<forall>j e. j < fork_pages (p_sz (procs s ! p)) \<and> xlate (mem s) (p_pagetable (procs s ! p)) (of_nat (4096 * j)) = Some e \<longrightarrow>
       page_ok kend (PTE2PA e) \<and> PTE2PA e \<notin> set (n # xs) \<and> PTE2PA e \<notin> tables (mem s) (p_pagetable (procs s ! p)))"

lemma user_xlate_low: "j < 2 ^ 19 \<Longrightarrow> user_xlate trampoline tf (of_nat (4096 * j)) = None"
proof -
  assume "j < 2 ^ 19"
  then have "unat (of_nat (4096 * j) :: u64) div 4096 < 2 ^ 19" by (simp only: unat_page)
  then show ?thesis by (simp add: user_xlate_def map_spec_def in_range_def del: of_nat_mult)
qed

lemma fresh_space_tables:
  assumes "fresh_space kend n xs m tf m' xs'" and "pt_inv kend m pt (n # xs)"
  shows "tables m' pt = tables m pt"
proof -
  have "same_bytes m m' b" if "b \<in> tables m pt" for b
    using that assms by (auto simp: fresh_space_def tables_def dest: pt_inv_node)
  then have "\<forall>b \<in> tables m pt. same_bytes m m' b" by blast
  note nd = node_same [OF this]
  show ?thesis using nd by (auto simp: tables_def)
qed

lemma fork_setup:
  assumes fk: "forkable kend p s n xs" and np: "np < length (procs s)" "p_state (procs s ! np) = UNUSED"
    "\<forall>q < np. p_state (procs s ! q) \<noteq> UNUSED" and pt: "pt = p_pagetable (procs s ! p)"
    and hi: "hi = fork_pages (p_sz (procs s ! p))"
  obtains ntf s1 xs1 where "allocproc trampoline s = Inr (Some np, s1)"
    and "procs s1 = (procs s)[np := (procs s ! np)\<lparr>p_pid := nextpid s, p_tf := ntf, p_pagetable := n\<rparr>]"
    and "apart kend s1 xs1 n pt" and "3 * hi \<le> length xs1" and "\<forall>v. xlate (mem s1) pt v = xlate (mem s) pt v"
    and "\<forall>j. 0 \<le> j \<and> j < hi \<longrightarrow> xlate (mem s1) n (of_nat (4096 * j)) = None"
    and "\<And>d. page_ok kend d \<Longrightarrow> d \<notin> set (n # xs) \<Longrightarrow> d \<notin> tables (mem s) pt \<Longrightarrow>
      data_page kend s1 xs1 n pt d \<and> same_bytes (mem s) (mem s1) d \<and> d \<noteq> ntf \<and> d \<notin> set xs1"
    and "data_page kend s1 xs1 n pt ntf" and "ntf \<noteq> 0"
proof -
  have vi: "vm_inv kend s pt (n # xs)" and len: "7 + 3 * hi \<le> length xs" and sz: "unat (p_sz (procs s ! p)) < 2 ^ 30"
    using fk pt hi by (simp_all add: forkable_def)
  have ki: "kmem_inv kend s (n # xs)" "pages_clear (mem s) (n # xs)" and pi: "pt_inv kend (mem s) pt (n # xs)"
    using vi by (simp_all add: vm_inv_def)
  have l7: "7 \<le> length xs" using len by simp
  obtain ntf s1 xs1 where a: "allocproc trampoline s = Inr (Some np, s1)"
    "procs s1 = (procs s)[np := (procs s ! np)\<lparr>p_pid := nextpid s, p_tf := ntf, p_pagetable := n\<rparr>]"
    and tf: "page_ok kend ntf" and x: "\<forall>v < MAXVA. xlate (mem s1) n v = user_xlate trampoline ntf v"
    and ap: "apart kend s1 xs1 n pt" "\<forall>v. xlate (mem s1) pt v = xlate (mem s) pt v"
    and fr: "fresh_space kend n xs (mem s) ntf (mem s1) xs1"
    using allocproc_space [OF np ki l7, of trampoline] vi by metis
  have tb: "tables (mem s1) pt = tables (mem s) pt" by (rule fresh_space_tables [OF fr pi])
  have nt: "b \<notin> tables (mem s) pt" if "b \<in> set (n # xs)" for b using that pi by (auto simp: tables_def dest: pt_inv_node)
  have "hi < 2 ^ 19" using fork_bound [OF sz] hi by simp
  then have low: "\<forall>j. 0 \<le> j \<and> j < hi \<longrightarrow> xlate (mem s1) n (of_nat (4096 * j)) = None"
    using x page_less_MAXVA user_xlate_low [of _ trampoline ntf] by (simp del: of_nat_mult)
  have d: "data_page kend s1 xs1 n pt d \<and> same_bytes (mem s) (mem s1) d \<and> d \<noteq> ntf \<and> d \<notin> set xs1"
    if "page_ok kend d" "d \<notin> set (n # xs)" "d \<notin> tables (mem s) pt" for d
    using that fr tb by (auto simp: data_page_def fresh_space_def)
  have "data_page kend s1 xs1 n pt ntf" using tf fr tb nt by (auto simp: data_page_def fresh_space_def)
  moreover have "ntf \<noteq> 0" using tf by (simp add: page_ok_def)
  moreover have "3 * hi \<le> length xs1" using fr len by (simp add: fresh_space_def)
  ultimately show thesis using that [OF a ap(1) _ ap(2) low d] by blast
qed

lemma PTE_FLAGS_attr: "attr_bits (PTE_FLAGS e)"
proof -
  have "PTE_FLAGS e = e AND mask 10" by (simp add: PTE_FLAGS_def mask_eq_exp_minus_1)
  then show ?thesis by (simp add: attr_bits_iff bit_and_iff bit_mask_iff)
qed

lemma leaf_entry_page: "page_ok kend a \<Longrightarrow> PTE2PA (leaf_entry a (PTE_FLAGS e)) = a"
  using leaf_entry_pa [of a "PTE_FLAGS e"] PTE_FLAGS_attr page_ok_range [of kend a] by simp

text \<open>The trap frame: \<open>copy_mem\<close> of \<^verbatim>\<open>sizeof(struct trapframe)\<close> bytes, then \<open>x0\<close> is cleared.\<close>

lemma tf_copy:
  assumes "page_ok kend tf" and "page_ok kend ntf" and "tf \<noteq> ntf" and m': "m' = store64 (copy_mem tf_size (unat tf) (unat ntf) m) (unat ntf + tf_x 0) 0"
  shows "i < unat ntf \<or> unat ntf + 4096 \<le> i \<Longrightarrow> m' i = m i"
    and "x < tf_size \<Longrightarrow> m' (unat ntf + x) = (if x < 8 then 0 else m (unat tf + x))"
proof -
  have dis: "unat tf + tf_size \<le> unat ntf \<or> unat ntf + tf_size \<le> unat tf"
    using page_ok_apart [OF assms(1-3)] by auto
  show "i < unat ntf \<or> unat ntf + 4096 \<le> i \<Longrightarrow> m' i = m i"
    unfolding m' by (auto simp: tf_x_def store64_other copy_mem_other)
  show "x < tf_size \<Longrightarrow> m' (unat ntf + x) = (if x < 8 then 0 else m (unat tf + x))"
    unfolding m' using copy_mem_at [OF dis, of m "unat ntf + x"] store_le_zero [of x 8]
    by (cases "x < 8") (simp_all add: tf_x_def store64_def store_le_other)
qed

text \<open>
  The child has a copy of the page \<open>j\<close> of the parent: \<open>m\<close> is the memory before, \<open>m'\<close> after.
\<close>

definition page_copied :: "store \<Rightarrow> store \<Rightarrow> u64 \<Rightarrow> u64 \<Rightarrow> (nat \<Rightarrow> u64) \<Rightarrow> nat \<Rightarrow> nat \<Rightarrow> bool" where
  "page_copied m m' pt n f hi j \<longleftrightarrow>
     (case xlate m pt (of_nat (4096 * j)) of
        None \<Rightarrow> xlate m' n (of_nat (4096 * j)) = None
      | Some e \<Rightarrow> xlate m' n (of_nat (4096 * j)) = Some (leaf_entry (f j) (PTE_FLAGS e)) \<and>
          PTE2PA (leaf_entry (f j) (PTE_FLAGS e)) = f j \<and> f j \<noteq> PTE2PA e \<and>
          (\<forall>x < 4096. page_at m' (f j) x = page_at m (PTE2PA e) x \<and> page_at m' (PTE2PA e) x = page_at m (PTE2PA e) x) \<and>
          (\<forall>l < hi. l \<noteq> j \<and> xlate m pt (of_nat (4096 * l)) \<noteq> None \<longrightarrow> f l \<noteq> f j))"

definition user_page :: "u64 \<Rightarrow> store \<Rightarrow> u64 list \<Rightarrow> u64 \<Rightarrow> u64 \<Rightarrow> bool" where
  "user_page kend m xs pt d \<longleftrightarrow> page_ok kend d \<and> d \<notin> set xs \<and> d \<notin> tables m pt"

lemma forkable_pages:
  assumes "forkable kend p s n xs" and "j < fork_pages (p_sz (procs s ! p))"
    and "xlate (mem s) (p_pagetable (procs s ! p)) (of_nat (4096 * j)) = Some e"
  shows "user_page kend (mem s) (n # xs) (p_pagetable (procs s ! p)) (PTE2PA e)"
  using assms unfolding forkable_def user_page_def by blast

lemma forked_copied:
  assumes fa: "forked_at kend n pt f 0 hi k xs k' xs' j" and x: "\<forall>v. xlate (mem k) pt v = xlate m pt v"
    and u: "\<And>e. xlate m pt (of_nat (4096 * j)) = Some e \<Longrightarrow> same_bytes m (mem k) (PTE2PA e) \<and> same_bytes m (mem k') (PTE2PA e) \<and> PTE2PA e \<notin> set xs"
  shows "page_copied m (mem k') pt n f hi j"
proof (cases "xlate m pt (of_nat (4096 * j))")
  case None
  then show ?thesis using fa x by (simp add: forked_at_def page_copied_def del: of_nat_mult)
next
  case (Some e)
  note u = u [OF Some]
  have g: "xlate (mem k') n (of_nat (4096 * j)) = Some (leaf_entry (f j) (PTE_FLAGS e))" "f j \<in> set xs" "page_ok kend (f j)"
    "\<forall>x < 4096. page_at (mem k') (f j) x = page_at (mem k) (PTE2PA e) x"
    "\<forall>l < hi. l \<noteq> j \<and> xlate m pt (of_nat (4096 * l)) \<noteq> None \<longrightarrow> f l \<noteq> f j"
    using fa Some x by (auto simp: forked_at_def data_page_def simp del: of_nat_mult)
  have "PTE2PA (leaf_entry (f j) (PTE_FLAGS e)) = f j" by (rule leaf_entry_page [OF g(3)])
  moreover have "f j \<noteq> PTE2PA e" using u g(2) by auto
  moreover have "page_at (mem k') (PTE2PA e) x = page_at m (PTE2PA e) x" "page_at (mem k) (PTE2PA e) x = page_at m (PTE2PA e) x" if "x < 4096" for x
    using same_bytes_page [OF _ that] u by auto
  ultimately show ?thesis using Some g by (simp add: page_copied_def del: of_nat_mult)
qed

lemma fork_loop:
  assumes fk: "forkable kend p s n xs" and np: "np < length (procs s)" "p_state (procs s ! np) = UNUSED"
    "\<forall>q < np. p_state (procs s ! q) \<noteq> UNUSED" and pt: "pt = p_pagetable (procs s ! p)"
    and hi: "hi = fork_pages (p_sz (procs s ! p))"
  obtains ntf s1 s3 xs3 f where "allocproc trampoline s = Inr (Some np, s1)"
    and "procs s1 = (procs s)[np := (procs s ! np)\<lparr>p_pid := nextpid s, p_tf := ntf, p_pagetable := n\<rparr>]"
    and "copy_pages pt n (4096 * hi) 0 (upd_proc np g s1) = Inr s3" and "pmem.more s3 = pmem.more (upd_proc np g s1)"
    and "apart kend s3 xs3 n pt" and "data_page kend s3 xs3 n pt ntf" and "ntf \<noteq> 0"
    and "\<forall>v. xlate (mem s3) pt v = xlate (mem s) pt v"
    and "\<forall>d. user_page kend (mem s) (n # xs) pt d \<longrightarrow> same_bytes (mem s) (mem s3) d \<and> d \<noteq> ntf"
    and "\<forall>j < hi. page_copied (mem s) (mem s3) pt n f hi j"
    and "\<forall>j < hi. xlate (mem s) pt (of_nat (4096 * j)) \<noteq> None \<longrightarrow> page_ok kend (f j) \<and> f j \<noteq> ntf"
proof -
  obtain ntf s1 xs1 where a: "allocproc trampoline s = Inr (Some np, s1)"
    "procs s1 = (procs s)[np := (procs s ! np)\<lparr>p_pid := nextpid s, p_tf := ntf, p_pagetable := n\<rparr>]"
    and ap: "apart kend s1 xs1 n pt" and len: "3 * hi \<le> length xs1" and x1: "\<forall>v. xlate (mem s1) pt v = xlate (mem s) pt v"
    and low: "\<forall>j. 0 \<le> j \<and> j < hi \<longrightarrow> xlate (mem s1) n (of_nat (4096 * j)) = None"
    and d1: "\<And>d. page_ok kend d \<Longrightarrow> d \<notin> set (n # xs) \<Longrightarrow> d \<notin> tables (mem s) pt \<Longrightarrow>
      data_page kend s1 xs1 n pt d \<and> same_bytes (mem s) (mem s1) d \<and> d \<noteq> ntf \<and> d \<notin> set xs1"
    and dn: "data_page kend s1 xs1 n pt ntf" and ntf0: "ntf \<noteq> 0"
    using fork_setup [OF fk np pt hi, of trampoline] by metis
  let ?s2 = "upd_proc np g s1"
  have "unat (p_sz (procs s ! p)) < 2 ^ 30" using fk by (simp add: forkable_def)
  then have b: "hi < 2 ^ 19" using fork_bound hi by blast
  have data: "data_page kend ?s2 xs1 n pt d = data_page kend s1 xs1 n pt d" for d by (simp add: data_page_def)
  have m2: "mem ?s2 = mem s1" by simp
  have du: "data_page kend ?s2 xs1 n pt d \<and> same_bytes (mem s) (mem ?s2) d \<and> d \<noteq> ntf \<and> d \<notin> set xs1"
    if "user_page kend (mem s) (n # xs) pt d" for d
    unfolding data m2 using that d1 by (simp add: user_page_def)
  have up: "user_page kend (mem s) (n # xs) pt (PTE2PA e)"
    if "j < hi" "xlate (mem s) pt (of_nat (4096 * j)) = Some e" for j e
    using forkable_pages [OF fk] that hi pt by simp
  have ap2: "apart kend ?s2 xs1 n pt" using ap by simp
  have "\<forall>j e. 0 \<le> j \<and> j < hi \<and> xlate (mem ?s2) pt (of_nat (4096 * j)) = Some e \<longrightarrow> data_page kend ?s2 xs1 n pt (PTE2PA e)"
    unfolding m2 x1 [rule_format] using up du by blast
  then obtain s3 xs3 f where c: "copy_pages pt n (4096 * hi) (4096 * 0) ?s2 = Inr s3" and fr: "fork_frame kend n pt ?s2 xs1 s3 xs3"
    and fo: "forked kend n pt f 0 hi ?s2 xs1 s3 xs3"
    using copy_pages_forks [OF b, of 0 kend n pt ?s2 xs1] ap2 len low by (auto simp: fork_pre_def fork_post_def)
  have x3: "\<forall>v. xlate (mem s3) pt v = xlate (mem s) pt v" and more: "pmem.more s3 = pmem.more ?s2" and ap3: "apart kend s3 xs3 n pt"
    using fr x1 by (simp_all add: fork_frame_def)
  have dn3: "data_page kend s3 xs3 n pt ntf" using fork_frame_data [OF fr, of ntf] dn data by simp
  have u3: "same_bytes (mem s) (mem s3) d \<and> d \<noteq> ntf" if "user_page kend (mem s) (n # xs) pt d" for d
    using du [OF that] fr same_bytes_trans by (auto simp: fork_frame_def)
  have fa: "forked_at kend n pt f 0 hi ?s2 xs1 s3 xs3 j" if "j < hi" for j using fo that by (simp add: forked_def)
  have okf: "page_ok kend (f j) \<and> f j \<noteq> ntf" if "j < hi" "xlate (mem s) pt (of_nat (4096 * j)) \<noteq> None" for j
    using fa [OF that(1)] that(2) dn x1 by (auto simp: forked_at_def data_page_def simp del: of_nat_mult)
  have pc: "page_copied (mem s) (mem s3) pt n f hi j" if j: "j < hi" for j
  proof (rule forked_copied [OF fa [OF j]])
    show "\<forall>v. xlate (mem ?s2) pt v = xlate (mem s) pt v" using x1 m2 by simp
    fix e assume "xlate (mem s) pt (of_nat (4096 * j)) = Some e"
    from up [OF j this] show "same_bytes (mem s) (mem ?s2) (PTE2PA e) \<and> same_bytes (mem s) (mem s3) (PTE2PA e) \<and> PTE2PA e \<notin> set xs1"
      using du u3 by simp
  qed
  have c0: "copy_pages pt n (4096 * hi) 0 ?s2 = Inr s3" using c by simp
  show thesis using that [OF a c0 more ap3 dn3 ntf0 x3] u3 pc okf by blast
qed

lemma page_copied_write:
  assumes "page_copied m m3 pt n f hi j" and "\<forall>v. xlate m' n v = xlate m3 n v"
    and "\<And>e. xlate m pt (of_nat (4096 * j)) = Some e \<Longrightarrow> same_bytes m3 m' (f j) \<and> same_bytes m3 m' (PTE2PA e)"
  shows "page_copied m m' pt n f hi j"
  using assms same_bytes_page by (auto simp: page_copied_def simp del: of_nat_mult split: option.splits)

lemma copyproc_end:
  assumes a: "allocproc trampoline s = Inr (Some np, s1)" and ne: "p \<noteq> np" and n: "np < length (procs s1)"
    and par: "par = procs s1 ! p" and ch: "ch = procs s1 ! np" and s2: "s2 = upd_proc np (\<lambda>q. q\<lparr>p_ppid := p_pid par, p_sz := p_sz par\<rparr>) s1"
    and c: "copy_pages (p_pagetable par) (p_pagetable ch) (unat (PGROUNDUP (p_sz par) + PGSIZE)) 0 s2 = Inr s3"
    and s3: "procs s3 = procs s2" and tf: "p_tf par \<noteq> 0" "p_tf ch \<noteq> 0"
    and fds: "length (p_fds par) = NOFILE" "length (p_fds ch) = NOFILE"
  shows "\<exists>s'. copyproc trampoline forkret p s = Inr (np, s') \<and>
    mem s' = store64 (copy_mem tf_size (unat (p_tf par)) (unat (p_tf ch)) (mem s3)) (unat (p_tf ch) + tf_x 0) 0 \<and>
    procs s' = (procs s1)[np := ch\<lparr>p_ppid := p_pid par, p_sz := p_sz par, p_fds := p_fds par,
      p_ctx := (p_ctx par)\<lparr>ctx_sp := p_kstack ch + PGSIZE, ctx_x30 := forkret\<rparr>\<rparr>]"
proof -
  let ?ch = "ch\<lparr>p_ppid := p_pid par, p_sz := p_sz par\<rparr>"
  have ps: "procs s2 = (procs s1)[np := ?ch]" by (simp add: s2 ch)
  have e: "procs s2 ! p = par" "procs s2 ! np = ?ch" using ne n par ps by simp_all
  let ?s4 = "s3\<lparr>mem := copy_mem tf_size (unat (p_tf par)) (unat (p_tf ch)) (mem s3)\<rparr>"
  have f: "procs (copy_fds [0..<NOFILE] p np ?s4) = (procs s1)[np := ?ch\<lparr>p_fds := p_fds par\<rparr>]"
    using copy_fds_all [OF ne, of ?s4] n fds s3 e by (simp add: ps)
  have "(procs s1)[np := ?ch\<lparr>p_fds := p_fds par\<rparr>] ! p = par" using ne par by simp
  then show ?thesis
    using a c s3 e tf n unfolding par [symmetric] s2 [symmetric]
    using ne by (simp add: copyproc_def Let_def f par [symmetric] ch [symmetric] s2 [symmetric])
qed

lemma copyproc_child:
  assumes a: "allocproc trampoline s = Inr (Some np, s1)" "procs s1 = (procs s)[np := (procs s ! np)\<lparr>p_pid := pid, p_tf := ntf, p_pagetable := n\<rparr>]"
    and ne: "p \<noteq> np" "np < length (procs s)" and par: "par = procs s ! p"
    and c: "copy_pages (p_pagetable par) n (4096 * fork_pages (p_sz par)) 0 (upd_proc np (\<lambda>q. q\<lparr>p_ppid := p_pid par, p_sz := p_sz par\<rparr>) s1) = Inr s3"
    and more: "pmem.more s3 = pmem.more (upd_proc np (\<lambda>q. q\<lparr>p_ppid := p_pid par, p_sz := p_sz par\<rparr>) s1)"
    and sz: "unat (p_sz par) < 2 ^ 30" and tf: "p_tf par \<noteq> 0" "ntf \<noteq> 0" and fds: "length (p_fds par) = NOFILE" "length (p_fds (procs s ! np)) = NOFILE"
  shows "\<exists>s'. copyproc trampoline forkret p s = Inr (np, s') \<and>
    mem s' = store64 (copy_mem tf_size (unat (p_tf par)) (unat ntf) (mem s3)) (unat ntf + tf_x 0) 0 \<and>
    procs s' = (procs s)[np := (procs s ! np)\<lparr>p_pid := pid, p_tf := ntf, p_pagetable := n, p_ppid := p_pid par, p_sz := p_sz par,
      p_fds := p_fds par, p_ctx := (p_ctx par)\<lparr>ctx_sp := p_kstack (procs s ! np) + PGSIZE, ctx_x30 := forkret\<rparr>\<rparr>]"
proof -
  let ?g = "\<lambda>q. q\<lparr>p_ppid := p_pid par, p_sz := p_sz par\<rparr>" and ?ch = "(procs s ! np)\<lparr>p_pid := pid, p_tf := ntf, p_pagetable := n\<rparr>"
  have ch: "?ch = procs s1 ! np" "np < length (procs s1)" "procs s1 ! p = par" using a(2) ne par by simp_all
  have s3: "procs s3 = procs (upd_proc np ?g s1)" using procs_more [OF more] by simp
  have "\<exists>s'. copyproc trampoline forkret p s = Inr (np, s') \<and>
    mem s' = store64 (copy_mem tf_size (unat (p_tf par)) (unat (p_tf ?ch)) (mem s3)) (unat (p_tf ?ch) + tf_x 0) 0 \<and>
    procs s' = (procs s1)[np := ?ch\<lparr>p_ppid := p_pid par, p_sz := p_sz par, p_fds := p_fds par,
      p_ctx := (p_ctx par)\<lparr>ctx_sp := p_kstack ?ch + PGSIZE, ctx_x30 := forkret\<rparr>\<rparr>]"
    by (rule copyproc_end [OF a(1) ne(1) ch(2) ch(3) [symmetric] ch(1) refl _ s3]) (use c fork_bound [OF sz] tf fds in simp_all)
  then show ?thesis using a(2) by auto
qed

section \<open>Properties\<close>

text \<open>
  C4. \<^verbatim>\<open>fork\<close> makes a copy. With enough free pages, \<^verbatim>\<open>copyproc\<close> succeeds and leaves the parent's slot,
  translations and pages as they are. The child is in the first unused slot, with the next process
  id, the parent's size and open files, and a page table of its own; every page the parent has
  mapped below its size is mapped in the child with the same flags, to a page of its own that holds
  the same bytes, and no other page is. The trap frame of the child is that of the parent with
  \<open>x0\<close> cleared, so that \<^verbatim>\<open>fork\<close> returns 0 in the child.
\<close>

theorem fork_gives_a_copy:
  assumes fk: "forkable kend p s n xs" and p: "p < length (procs s)" "p_state (procs s ! p) \<noteq> UNUSED"
    and np: "np < length (procs s)" "p_state (procs s ! np) = UNUSED" "\<forall>q < np. p_state (procs s ! q) \<noteq> UNUSED"
    and fds: "length (p_fds (procs s ! p)) = NOFILE" "length (p_fds (procs s ! np)) = NOFILE"
    and par: "par = procs s ! p"
  shows "\<exists>s' ntf f. copyproc trampoline forkret p s = Inr (np, s') \<and> procs s' ! p = par \<and>
    procs s' ! np = (procs s ! np)\<lparr>p_pid := nextpid s, p_tf := ntf, p_pagetable := n, p_ppid := p_pid par, p_sz := p_sz par,
      p_fds := p_fds par, p_ctx := (p_ctx par)\<lparr>ctx_sp := p_kstack (procs s ! np) + PGSIZE, ctx_x30 := forkret\<rparr>\<rparr> \<and>
    (\<forall>v. xlate (mem s') (p_pagetable par) v = xlate (mem s) (p_pagetable par) v) \<and>
    (\<forall>x < tf_size. mem s' (unat ntf + x) = (if x < 8 then 0 else mem s (unat (p_tf par) + x))) \<and>
    (\<forall>j < fork_pages (p_sz par). page_copied (mem s) (mem s') (p_pagetable par) n f (fork_pages (p_sz par)) j)"
proof -
  let ?pt = "p_pagetable par" and ?hi = "fork_pages (p_sz par)"
  have ne: "p \<noteq> np" using p(2) np(2) by auto
  have sz: "unat (p_sz par) < 2 ^ 30" and tf: "page_ok kend (p_tf par)" "user_page kend (mem s) (n # xs) ?pt (p_tf par)"
    using fk par by (auto simp: forkable_def user_page_def)
  let ?g = "\<lambda>q. q\<lparr>p_ppid := p_pid par, p_sz := p_sz par\<rparr>"
  obtain ntf s1 s3 xs3 f where a: "allocproc trampoline s = Inr (Some np, s1)"
    "procs s1 = (procs s)[np := (procs s ! np)\<lparr>p_pid := nextpid s, p_tf := ntf, p_pagetable := n\<rparr>]"
    and c: "copy_pages ?pt n (4096 * ?hi) 0 (upd_proc np ?g s1) = Inr s3" and more: "pmem.more s3 = pmem.more (upd_proc np ?g s1)"
    and ap: "apart kend s3 xs3 n ?pt" and dn: "data_page kend s3 xs3 n ?pt ntf" and n0: "ntf \<noteq> 0"
    and x3: "\<forall>v. xlate (mem s3) ?pt v = xlate (mem s) ?pt v"
    and u: "\<forall>d. user_page kend (mem s) (n # xs) ?pt d \<longrightarrow> same_bytes (mem s) (mem s3) d \<and> d \<noteq> ntf"
    and pc: "\<forall>j < ?hi. page_copied (mem s) (mem s3) ?pt n f ?hi j"
    and okf: "\<forall>j < ?hi. xlate (mem s) ?pt (of_nat (4096 * j)) \<noteq> None \<longrightarrow> page_ok kend (f j) \<and> f j \<noteq> ntf"
    by (rule fork_loop [OF fk np, of ?pt ?hi trampoline ?g]) (simp add: par, simp add: par, rule that, assumption+)
  note u3 = u [rule_format]
  define m' where "m' = store64 (copy_mem tf_size (unat (p_tf par)) (unat ntf) (mem s3)) (unat ntf + tf_x 0) 0"
  have ok: "page_ok kend ntf" using dn by (simp add: data_page_def)
  have nt: "p_tf par \<noteq> ntf" "p_tf par \<noteq> 0" using u3 [OF tf(2)] tf(1) by (auto simp: page_ok_def)
  note tc = tf_copy [OF tf(1) ok nt(1) m'_def]
  note w = apart_write [OF ap dn tc(1)]
  obtain s' where s': "copyproc trampoline forkret p s = Inr (np, s')" "mem s' = m'"
    "procs s' = (procs s)[np := (procs s ! np)\<lparr>p_pid := nextpid s, p_tf := ntf, p_pagetable := n, p_ppid := p_pid par, p_sz := p_sz par,
      p_fds := p_fds par, p_ctx := (p_ctx par)\<lparr>ctx_sp := p_kstack (procs s ! np) + PGSIZE, ctx_x30 := forkret\<rparr>\<rparr>]"
    using copyproc_child [OF a ne np(1) par c more sz nt(2) n0] fds par m'_def by auto
  have o: "same_bytes (mem s3) m' b" if "page_ok kend b" "b \<noteq> ntf" for b
    using page_ok_apart [OF ok that(1)] that(2) by (auto simp: same_bytes_def intro!: tc(1))
  have "page_copied (mem s) m' ?pt n f ?hi j" if j: "j < ?hi" for j
  proof (rule page_copied_write [OF pc [rule_format, OF j]])
    show "\<forall>v. xlate m' n v = xlate (mem s3) n v" using w by simp
    fix e assume e: "xlate (mem s) ?pt (of_nat (4096 * j)) = Some e"
    then have "user_page kend (mem s) (n # xs) ?pt (PTE2PA e)" using forkable_pages [OF fk] j par by simp
    then have "page_ok kend (PTE2PA e)" "PTE2PA e \<noteq> ntf" using u3 by (auto simp: user_page_def)
    then show "same_bytes (mem s3) m' (f j) \<and> same_bytes (mem s3) m' (PTE2PA e)" using o okf j e by blast
  qed
  moreover have "m' (unat ntf + x) = (if x < 8 then 0 else mem s (unat (p_tf par) + x))" if "x < tf_size" for x
    using tc(2) [OF that] u3 [OF tf(2)] that by (auto simp: same_bytes_def)
  moreover have "xlate m' ?pt v = xlate (mem s) ?pt v" for v using w x3 by simp
  moreover have "procs s' ! p = par" using s'(3) ne par by simp
  ultimately show ?thesis using s' np(1) by (intro exI [of _ s'] exI [of _ ntf] exI [of _ f]) simp
qed

text \<open>A parent with one page, at address 0.\<close>

definition demo_fork :: fdt where
  "demo_fork = (case uvmcreat (demo_fdt 23 []) of (pt, s1) \<Rightarrow> case kalloc s1 of (d, s2) \<Rightarrow> case kalloc s2 of (tf, s3) \<Rightarrow>
     case mappages pt 0 d PGSIZE PTE_AP_RW s3 of Inl _ \<Rightarrow> s3
     | Inr (_, s4) \<Rightarrow> upd_proc 0 (\<lambda>q. q\<lparr>p_state := RUNNING, p_pagetable := pt, p_tf := tf\<rparr>) s4)"

lemma demo_fork_facts:
  obtains n xs e where "forkable 0x7000000 0 demo_fork n xs"
    and "procs demo_fork = (replicate NPROC idle_proc)[0 := idle_proc\<lparr>p_state := RUNNING, p_pagetable := p_pagetable (procs demo_fork ! 0),
      p_tf := p_tf (procs demo_fork ! 0)\<rparr>]"
    and "xlate (mem demo_fork) (p_pagetable (procs demo_fork ! 0)) 0 = Some e" and "PTE2PA e \<noteq> p_tf (procs demo_fork ! 0)"
proof -
  let ?init = "demo_fdt 23 []"
  obtain r d t where fp: "free_pages 23 = r # d # t # free_pages 20" by (simp add: eval_nat_numeral)
  have ki: "kmem_inv 0x7000000 ?init (r # d # t # free_pages 20)" using demo_fdt_inv [of 23 "[]"] fp by simp
  have cl: "pages_clear (mem ?init) (r # d # t # free_pages 20)"
    using free_mem_clear [of 23 23] fp by (simp add: demo_fdt_def)
  obtain s1 where s1: "uvmcreat ?init = (r, s1)" "vm_inv 0x7000000 s1 r (d # t # free_pages 20)" "\<forall>v. xlate (mem s1) r v = None"
    using uvmcreat_fresh [OF ki cl] by blast
  obtain s2 where s2: "kalloc s1 = (d, s2)" "vm_inv 0x7000000 s2 r (t # free_pages 20)" "mem s2 = mem s1"
    using vm_inv_kalloc [OF s1(2)] by blast
  obtain s3 where s3: "kalloc s2 = (t, s3)" "vm_inv 0x7000000 s3 r (free_pages 20)" "mem s3 = mem s2"
    using vm_inv_kalloc [OF s2(2)] by blast
  have "length (free_pages n) = n" for n by (induction n) auto
  then have l20: "length (free_pages 20) = 20" .
  obtain s4 xs4 where s4: "mappages r 0 d PGSIZE PTE_AP_RW s3 = Inr (0, s4)" "vm_inv 0x7000000 s4 r xs4" "20 \<le> length xs4 + 2"
    "\<forall>v < MAXVA. xlate (mem s4) r v = map_spec 0 d 1 PTE_AP_RW (xlate (mem s3) r) v"
    using mappages_maps [OF s3(2), where va = 0 and pa = d and sz = PGSIZE and perm = PTE_AP_RW] s1(3) s2(3) s3(3) l20 by auto
  have fr: "pt_frame 0x7000000 r s3 (free_pages 20) s4 xs4"
    using mappages_frame [OF s3(2) s4(1)] s4(2) vm_inv_unique by metis
  have ok: "page_ok 0x7000000 r" "page_ok 0x7000000 d" "page_ok 0x7000000 t" "distinct (r # d # t # free_pages 20)"
    using ki by (auto simp: kmem_inv_def)
  have "kalloc ?init = (r, s1)" using s1(1) ok(1) by (auto simp: uvmcreat_def page_ok_def split: prod.splits if_splits)
  then have m1: "mem s1 = mem ?init" using kalloc_Cons [OF ki] by (metis prod.inject)
  then have "\<forall>i < 512. is_clear (pte_at (mem s3) r i)" using cl s2(3) s3(3) by (simp add: pages_clear_def)
  then have t3: "tables (mem s3) r = {r}" by (rule tables_fresh)
  have sub: "set xs4 \<subseteq> set (free_pages 20)" "tables (mem s4) r \<subseteq> insert r (set (free_pages 20))"
    using fr t3 by (auto simp: pt_frame_def suffix_def)
  have nin: "d \<notin> set xs4" "t \<notin> set xs4" "d \<notin> tables (mem s4) r" "t \<notin> tables (mem s4) r" using sub ok(4) by auto
  have x0: "xlate (mem s4) r 0 = Some (leaf_entry d PTE_AP_RW)" using s4(4) by (simp add: map_spec_def in_range_def)
  have pa: "PTE2PA (leaf_entry d PTE_AP_RW) = d" using page_ok_range [OF ok(2)] by (intro leaf_entry_pa) simp_all
  have more: "pmem.more s4 = pmem.more ?init"
    using mappages_more [OF s4(1)] kalloc_more [of s2] kalloc_more [of s1] kalloc_more [of ?init] s2(1) s3(1) \<open>kalloc ?init = (r, s1)\<close> by simp
  have df: "demo_fork = upd_proc 0 (\<lambda>q. q\<lparr>p_state := RUNNING, p_pagetable := r, p_tf := t\<rparr>) s4"
    using s1(1) s2(1) s3(1) s4(1) by (simp add: demo_fork_def)
  have ps: "procs demo_fork = (replicate NPROC idle_proc)[0 := idle_proc\<lparr>p_state := RUNNING, p_pagetable := r, p_tf := t\<rparr>]"
    using procs_more [OF more] by (simp add: df demo_fdt_def)
  obtain n xs where xs: "xs4 = n # xs" using s4(3) by (cases xs4) auto
  have one: "fork_pages 0 = 1" by (simp add: fork_pages_def)
  have mv: "mem demo_fork = mem s4" "vm_inv 0x7000000 demo_fork r (n # xs)" using s4(2) xs by (simp_all add: df)
  have "forkable 0x7000000 0 demo_fork n xs"
    using mv nin ok x0 pa xs s4(3) by (auto simp: forkable_def ps one idle_proc_def)
  then show thesis using that [of n xs "leaf_entry d PTE_AP_RW"] ps x0 pa ok(4) mv(1) by simp
qed

theorem fork_gives_a_copy_witness:
  "\<exists>s' n f. copyproc 0x5000 0x6000 0 demo_fork = Inr (1, s') \<and> p_pagetable (procs s' ! 1) = n \<and>
     xlate (mem demo_fork) (p_pagetable (procs demo_fork ! 0)) 0 \<noteq> None \<and>
     page_copied (mem demo_fork) (mem s') (p_pagetable (procs demo_fork ! 0)) n f 1 0"
proof -
  obtain n xs e where d: "forkable 0x7000000 0 demo_fork n xs"
    and ps: "procs demo_fork = (replicate NPROC idle_proc)[0 := idle_proc\<lparr>p_state := RUNNING, p_pagetable := p_pagetable (procs demo_fork ! 0),
      p_tf := p_tf (procs demo_fork ! 0)\<rparr>]"
    and x: "xlate (mem demo_fork) (p_pagetable (procs demo_fork ! 0)) 0 = Some e"
    by (rule demo_fork_facts)
  have p0: "p_state (procs demo_fork ! 0) \<noteq> UNUSED" "length (p_fds (procs demo_fork ! 0)) = NOFILE" "p_sz (procs demo_fork ! 0) = 0"
    by (subst ps, simp add: idle_proc_def)+
  have p1: "length (procs demo_fork) = NPROC" "p_state (procs demo_fork ! 1) = UNUSED" "length (p_fds (procs demo_fork ! 1)) = NOFILE"
    by (subst ps, simp add: idle_proc_def)+
  have one: "fork_pages 0 = 1" by (simp add: fork_pages_def)
  show ?thesis
    using fork_gives_a_copy [OF d _ p0(1) _ p1(2) _ p0(2) p1(3) refl, of "0x5000" "0x6000"] p0 p1 x one by auto
qed

end
