(* ===== verification/Sys_Write.thy ===== *)
theory Sys_Write
  imports Trap Fork
begin

text \<open>
  A system call from the trap to the device: \<^verbatim>\<open>write\<close> to the console. The trap saves the state of the program,
  \<^verbatim>\<open>syscall\<close> reads the arguments from the trap frame, \<^verbatim>\<open>sys_write\<close> finds the bytes through the page table
  of the process and copies them to the kernel, the open file leads through the inode to the device, and the
  device sends them to the serial port; then the program goes on behind its call.
\<close>

section \<open>Arguments\<close>

definition tfreg :: "'a pst_scheme \<Rightarrow> nat \<Rightarrow> nat \<Rightarrow> u64" where
  "tfreg s p n = load64 (mem s) (unat (p_tf (procs s ! p)) + tf_x n)"

lemma argraw_reg: "cpu_proc s c = Some p \<Longrightarrow> n \<le> 7 \<Longrightarrow> argraw c n s = Inr (sint (ucast (tfreg s p n) :: u32))"
  by (simp add: argraw_def cur_def myproc_def tfreg_def)

lemma small_reg: "unat w < 2 ^ 31 \<Longrightarrow> sint (ucast (w :: u64) :: u32) = int (unat w)"
  using sint_of_nat32 [of "unat w"] by simp

lemma upa_mapped:
  assumes "cpu_proc s c = Some p" and "vm_inv kend s (p_pagetable (procs s ! p)) xs" and "PGROUNDDOWN uva < MAXVA"
    and "xlate (mem s) (p_pagetable (procs s ! p)) (PGROUNDDOWN uva) = Some e"
  shows "upa c uva s = Inr (PTE2PA e + uva - PGROUNDDOWN uva)"
  using walkaddr_xlate [OF assms(2-4)] assms(1) by (simp add: upa_def cur_def myproc_def Let_def)

section \<open>The device\<close>

lemma consputc_byte: "consputc (uint (b :: byte)) s = s\<lparr>uart_out := uart_out s @ [b]\<rparr>"
proof -
  have "uint b < 256" using uint_lt2p [of b] by simp
  then show ?thesis by (simp add: consputc_def pl011_uart_send_char_def)
qed

lemma console_write_loop_out:
  "console_write_loop n b s = s\<lparr>uart_out := uart_out s @ map (\<lambda>i. mem s (b + i)) [0..<n]\<rparr>"
proof (induction n arbitrary: b s)
  case (Suc n)
  have "map (\<lambda>i. mem s (b + i)) [0..<Suc n] = mem s b # map (\<lambda>i. mem s (Suc b + i)) [0..<n]"
    by (simp add: upt_conv_Cons map_Suc_upt [symmetric] del: upt_Suc)
  then show ?case unfolding console_write_loop.simps consputc_byte by (subst Suc) (simp del: upt_Suc)
qed simp

text \<open>The open file \<open>f\<close> is the console, open for writing.\<close>

definition console_file :: "'a fdt_scheme \<Rightarrow> nat \<Rightarrow> bool" where
  "console_file s f \<longleftrightarrow> fd_writeable (fds s ! f) \<and> fd_type (fds s ! f) = FD_FILE \<and>
     i_type (inodes s ! fd_ip (fds s ! f)) = T_DEV \<and> i_major (inodes s ! fd_ip (fds s ! f)) = 1"

lemma devsw_console: "d_write (devsw ! Suc 0) = Some console_write"
  by (simp add: devsw_def)

lemma fd_write_console:
  assumes "console_file s f" and "n < 2 ^ 31"
  shows "\<exists>s'. fd_write f buf (int n) s = Inr (int n, s') \<and> mem s' = mem s \<and> procs s' = procs s \<and> cpu_proc s' = cpu_proc s \<and>
    uart_out s' = uart_out s @ map (\<lambda>i. mem s (unat buf + i)) [0..<n] \<and> fdt.more s' = fdt.more s"
proof -
  have "sint (word_of_int (int n) :: u32) = int n" using assms(2) sint_of_nat32 [of n] by simp
  then show ?thesis
    using assms(1) by (simp add: devsw_console fd_write_def console_file_def writei_def console_write_def console_write_loop_out Let_def upd_fd_def)
qed

section \<open>The call\<close>

text \<open>
  What \<^verbatim>\<open>sys_write\<close> needs: the arguments in the registers, a page of the process that holds the whole
  buffer, and an array on the kernel stack (at \<open>k_buf\<close>) apart from it. \<open>a\<close> is the physical address of the buffer.
\<close>

definition write_args :: "u64 \<Rightarrow> u64 list \<Rightarrow> nat \<Rightarrow> nat \<Rightarrow> u64 \<Rightarrow> nat \<Rightarrow> u64 \<Rightarrow> 'a fdt_scheme \<Rightarrow> bool" where
  "write_args kend xs p f a n kbuf s \<longleftrightarrow>
     (let q = procs s ! p; uva = tfreg s p 1 in
      vm_inv kend s (p_pagetable q) xs \<and> unat (tfreg s p 0) < NOFILE \<and> p_fds q ! unat (tfreg s p 0) = Some f \<and> console_file s f \<and>
      n = unat (tfreg s p 2) \<and> n \<le> 512 \<and> unat uva < 2 ^ 31 \<and>
      (\<exists>e. xlate (mem s) (p_pagetable q) (PGROUNDDOWN uva) = Some e \<and> a = PTE2PA e + uva - PGROUNDDOWN uva) \<and>
      (unat a + n \<le> unat kbuf \<or> unat kbuf + 512 \<le> unat a))"

lemma PGROUNDDOWN_low: "unat uva < 2 ^ 31 \<Longrightarrow> PGROUNDDOWN uva < MAXVA"
  using div_times_less_eq_dividend [of "unat uva" 4096] by (simp add: word_less_nat_alt unat_PGROUNDDOWN)

lemma sys_write_console:
  assumes c: "cpu_proc s c = Some p" and w: "write_args kend xs p f a n (k_buf k) s"
  shows "\<exists>s'. sys_write k c s = Inr (int n, s') \<and> mem s' = copy_mem n (unat a) (unat (k_buf k)) (mem s) \<and>
    procs s' = procs s \<and> cpu_proc s' = cpu_proc s \<and> uart_out s' = uart_out s @ map (\<lambda>i. mem s (unat a + i)) [0..<n] \<and>
    fdt.more s' = fdt.more s"
proof -
  let ?q = "procs s ! p" and ?uva = "tfreg s p 1" and ?fd = "unat (tfreg s p 0)"
  obtain e where e: "xlate (mem s) (p_pagetable ?q) (PGROUNDDOWN ?uva) = Some e" "a = PTE2PA e + ?uva - PGROUNDDOWN ?uva"
    using w by (auto simp: write_args_def Let_def)
  have v: "vm_inv kend s (p_pagetable ?q) xs" and fd: "?fd < NOFILE" "p_fds ?q ! ?fd = Some f" "console_file s f"
    and n: "n = unat (tfreg s p 2)" "n \<le> 512" and uva: "unat ?uva < 2 ^ 31" and ap: "unat a + n \<le> unat (k_buf k) \<or> unat (k_buf k) + 512 \<le> unat a"
    using w by (auto simp: write_args_def Let_def)
  have a: "argaddr c 1 s = Inr a"
    using upa_mapped [OF c v PGROUNDDOWN_low [OF uva] e(1)] e(2) small_reg [OF uva] argraw_reg [OF c, of 1] by (simp add: argaddr_def)
  have args: "argfd c 0 s = Inr (int ?fd)" "argint c 2 s = Inr (int n)"
    using argraw_reg [OF c] small_reg [of "tfreg s p 0"] small_reg [of "tfreg s p 2"] fd(1) n by (simp_all add: argfd_def argint_def)
  let ?s1 = "s\<lparr>mem := copy_mem n (unat a) (unat (k_buf k)) (mem s)\<rparr>"
  have "int ?fd < int NOFILE" using fd(1) by (simp only: of_nat_less_iff)
  then have "ufd c (int ?fd) ?s1 = Inr (Some f)" using c fd(2) by (simp add: ufd_def cur_def myproc_def)
  then have r: "sys_write k c s = fd_write f (k_buf k) (int n) ?s1"
    using a args n(2) by (simp add: sys_write_def Let_def)
  have "console_file ?s1 f" using fd(3) by (simp add: console_file_def)
  moreover have b: "map (\<lambda>i. mem ?s1 (unat (k_buf k) + i)) [0..<n] = map (\<lambda>i. mem s (unat a + i)) [0..<n]"
    using copy_mem_at [of "unat a" n "unat (k_buf k)" "mem s"] ap n(2) by auto
  ultimately show ?thesis using fd_write_console [of ?s1 f n "k_buf k", unfolded b] n(2) r by simp
qed

section \<open>The trap\<close>

text \<open>
  The trap frame is a page of its own: neither free nor a table, and apart from the buffer of the
  program and from the array on the kernel stack.
\<close>

definition frame_apart :: "u64 \<Rightarrow> u64 list \<Rightarrow> nat \<Rightarrow> u64 \<Rightarrow> nat \<Rightarrow> u64 \<Rightarrow> 'a fdt_scheme \<Rightarrow> bool" where
  "frame_apart kend xs p a n kbuf s \<longleftrightarrow>
     (let tf = p_tf (procs s ! p) in
      page_ok kend tf \<and> tf \<notin> set xs \<and> tf \<notin> tables (mem s) (p_pagetable (procs s ! p)) \<and>
      (unat a + n \<le> unat tf \<or> unat tf + 4096 \<le> unat a) \<and> (unat kbuf + 512 \<le> unat tf \<or> unat tf + 4096 \<le> unat kbuf))"

lemma write_args_frame:
  assumes w: "write_args kend xs p f a n kbuf s" and fr: "frame_apart kend xs p a n kbuf s"
    and m: "\<And>i. i < unat (p_tf (procs s ! p)) + 272 \<or> unat (p_tf (procs s ! p)) + 4096 \<le> i \<Longrightarrow> m i = mem s i"
    and s': "s' = s\<lparr>mem := m, vbar_el1 := v\<rparr>"
  shows "write_args kend xs p f a n kbuf s'" and "i < 32 \<Longrightarrow> tfreg s' p i = tfreg s p i"
    and "j < n \<Longrightarrow> m (unat a + j) = mem s (unat a + j)"
proof -
  let ?tf = "p_tf (procs s ! p)" and ?pt = "p_pagetable (procs s ! p)"
  have tf: "page_ok kend ?tf" "?tf \<notin> set xs" "?tf \<notin> tables (mem s) ?pt" "unat a + n \<le> unat ?tf \<or> unat ?tf + 4096 \<le> unat a"
    using fr by (auto simp: frame_apart_def Let_def)
  have "vm_inv kend s ?pt xs" using w by (simp add: write_args_def Let_def)
  then have v: "vm_inv kend (s\<lparr>mem := m\<rparr>) ?pt xs" "\<forall>v. xlate m ?pt v = xlate (mem s) ?pt v"
    using vm_inv_write [OF _ tf(1-3), of m] m by (meson trans_less_add1)+
  have v': "vm_inv kend s' ?pt xs" using v(1) s' by (simp add: vm_inv_def kmem_inv_def)
  show reg: "tfreg s' p i = tfreg s p i" if "i < 32" for i
    using that s' by (auto simp: tfreg_def tf_x_def intro!: load64_cong m)
  show "j < n \<Longrightarrow> m (unat a + j) = mem s (unat a + j)" using tf(4) by (intro m) linarith
  have "console_file s' f = console_file s f" using s' by (simp add: console_file_def)
  then show "write_args kend xs p f a n kbuf s'"
    using w v' v(2) reg [of 0] reg [of 1] reg [of 2] s' by (auto simp: write_args_def Let_def)
qed

text \<open>
  C6. The system call \<^verbatim>\<open>write\<close> on the console, from the trap to the serial port and back: when a process executes
  \<^verbatim>\<open>svc\<close> with the number and the arguments of \<^verbatim>\<open>write\<close> in its registers, a descriptor that is open on the console and
  a buffer of at most 512 bytes in one of its pages, then the bytes of the buffer are sent to the serial port, in their order and with nothing between them but the
  messages the kernel prints about itself (which the model leaves out), and the process goes on behind the call on its own page table, with the number
  of bytes in \<^verbatim>\<open>x0\<close> and its other registers as they were.
\<close>

theorem write_reaches_console:
  assumes c: "cpu_proc s c = Some p" and st: "p_state (procs s ! p) \<noteq> ZOMBIE"
    and w: "write_args (k_end k) xs p f a n (k_buf k) s" and fr: "frame_apart (k_end k) xs p a n (k_buf k) s"
    and svc: "drop_bit 26 (esr_el1 s) AND 0x3F = 0x15" and nr: "tfreg s p 8 = 6"
  shows "\<exists>s'. usertrap k c 8 s = Inr (Some (p_pagetable (procs s ! p)), s') \<and>
    uart_out s' = uart_out s @ map (\<lambda>i. mem s (unat a + i)) [0..<n] \<and> elr_el1 s' = elr_el1 s \<and> sp_el0 s' = sp_el0 s \<and>
    tfreg s' p 0 = of_nat n \<and> (\<forall>i. 0 < i \<and> i < 32 \<longrightarrow> tfreg s' p i = tfreg s p i)"
proof -
  let ?tf = "unat (p_tf (procs s ! p))"
  let ?m1 = "store64 (store64 (mem s) (?tf + tf_elr_el1) (elr_el1 s)) (?tf + tf_sp_el0) (sp_el0 s)"
  let ?s1 = "s\<lparr>mem := ?m1, vbar_el1 := k_kernelvec k\<rparr>"
  have m1: "?m1 i = mem s i" if "i < ?tf + 272 \<or> ?tf + 4096 \<le> i" for i using that by (auto simp: store64_other)
  note s1 = write_args_frame [OF w fr m1 refl]
  obtain s2 where s2: "sys_write (kenv.truncate k) c ?s1 = Inr (int n, s2)" "mem s2 = copy_mem n (unat a) (unat (k_buf k)) ?m1"
    "procs s2 = procs s" "cpu_proc s2 = cpu_proc s" "uart_out s2 = uart_out s @ map (\<lambda>i. ?m1 (unat a + i)) [0..<n]" "fdt.more s2 = fdt.more ?s1"
    using sys_write_console [of ?s1 c p "k_end k" xs f a n "kenv.truncate k"] c s1(1) by (auto simp: kenv.truncate_def)
  let ?m2 = "store64 (mem s2) ?tf (word_of_int (int n))" and ?s3 = "s2\<lparr>mem := store64 (mem s2) ?tf (word_of_int (int n))\<rparr>"
  have bytes: "map (\<lambda>i. ?m1 (unat a + i)) [0..<n] = map (\<lambda>i. mem s (unat a + i)) [0..<n]" using s1(3) by simp
  have kb: "unat (k_buf k) + 512 \<le> ?tf \<or> ?tf + 4096 \<le> unat (k_buf k)" "n \<le> 512"
    using fr w by (auto simp: frame_apart_def write_args_def Let_def)
  then have cp: "load64 (mem s2) (?tf + x) = load64 ?m1 (?tf + x)" if "x + 8 \<le> 4096" for x
    unfolding s2(2) using that by (intro load64_cong copy_mem_other) linarith
  have "load64 (mem ?s1) (?tf + tf_x 8) = 6" using s1(2) [of 8] nr by (simp add: tfreg_def)
  then have sys: "syscall (kenv.truncate k) c ?s1 = Inr ?s3"
    using c s2 by (simp add: syscall_def myproc_def dispatch_def Let_def tf_x_def)
  let ?m4 = "store64 (store64 ?m2 (?tf + tf_kernel_ttbr) (ttbr0_el1 s2)) (?tf + tf_kernel_sp) (p_kstack (procs s ! p) + PGSIZE)"
  let ?s4 = "s2\<lparr>mem := ?m4, vbar_el1 := TRAMPOLINE + (k_uservec k - k_trampoline k), spsr_el1 := push_bit 6 5 OR 0,
       sp_el0 := load64 ?m4 (?tf + tf_sp_el0), elr_el1 := load64 ?m4 (?tf + tf_elr_el1)\<rparr>"
  have "usertrap k c 8 s = Inr (Some (p_pagetable (procs s ! p)), ?s4)"
    using c svc sys s2(3,4) st by (simp add: usertrap_def usertrap_resume_def prepare_return_def cur_def myproc_def Let_def)
  moreover have "load64 ?m4 (?tf + tf_sp_el0) = sp_el0 s" "load64 ?m4 (?tf + tf_elr_el1) = elr_el1 s"
    using cp [of tf_sp_el0] cp [of tf_elr_el1] by (simp_all add: load_store_disjoint)
  moreover have "load64 ?m4 (?tf + tf_x i) = tfreg s p i" if "0 < i" "i < 32" for i
    using cp [of "tf_x i"] s1(2) [of i] that by (simp add: tf_x_def load_store_disjoint tfreg_def)
  moreover have "load64 ?m4 (?tf + tf_x 0) = of_nat n" by (simp add: tf_x_def load_store_disjoint)
  ultimately show ?thesis using s2(3,5) bytes by (intro exI [of _ ?s4]) (simp add: tfreg_def)
qed

text \<open>A process that writes the two bytes at its address 0 to its descriptor 1, the console.\<close>

definition demo_write :: "u64 \<Rightarrow> trapst" where
  "demo_write d = (let q = procs demo_fork ! 0; tf = unat (p_tf q) in
     demo_trap\<lparr>mem := store64 (store64 (store64 (store64 ((mem demo_fork)(unat d := 0x48, Suc (unat d) := 0x69)) (tf + tf_x 0) 1) (tf + tf_x 1) 0) (tf + tf_x 2) 2)
         (tf + tf_x 8) 6,
       freelist := freelist demo_fork, procs := [q\<lparr>p_fds := [None, Some 0]\<rparr>],
       inodes := [\<lparr>i_dev = 1, i_major = 1, i_minor = 1, i_inum = 2, i_count = 1, i_busy = 0, i_type = T_DEV, i_nlink = 1, i_size = 0, i_addrs = []\<rparr>],
       fds := [closed_fd\<lparr>fd_type := FD_FILE, fd_ref := 1, fd_writeable := True\<rparr>], esr_el1 := push_bit 26 0x15\<rparr>)"

theorem write_reaches_console_witness:
  "\<exists>d s'. usertrap (demo_tenv\<lparr>k_end := 0x7000000\<rparr>) 0 8 (demo_write d) = Inr (Some (p_pagetable (procs demo_fork ! 0)), s') \<and>
    uart_out s' = [0x48, 0x69] \<and> tfreg s' 0 0 = 2"
proof -
  obtain n xs e where fk: "forkable 0x7000000 0 demo_fork n xs"
    and ps: "procs demo_fork = (replicate NPROC idle_proc)[0 := idle_proc\<lparr>p_state := RUNNING, p_pagetable := p_pagetable (procs demo_fork ! 0),
      p_tf := p_tf (procs demo_fork ! 0)\<rparr>]"
    and x: "xlate (mem demo_fork) (p_pagetable (procs demo_fork ! 0)) 0 = Some e" and ne: "PTE2PA e \<noteq> p_tf (procs demo_fork ! 0)"
    by (rule demo_fork_facts)
  let ?pt = "p_pagetable (procs demo_fork ! 0)" and ?tf = "p_tf (procs demo_fork ! 0)" and ?d = "PTE2PA e"
  let ?s = "demo_write ?d" and ?k = "demo_tenv\<lparr>k_end := 0x7000000\<rparr>" and ?m1 = "(mem demo_fork)(unat ?d := 0x48, Suc (unat ?d) := 0x69)"
  have p0: "p_state (procs demo_fork ! 0) = RUNNING" "p_sz (procs demo_fork ! 0) = 0" by (subst ps, simp add: idle_proc_def)+
  have v: "vm_inv 0x7000000 demo_fork ?pt (n # xs)" and tf: "page_ok 0x7000000 ?tf" "?tf \<notin> set (n # xs)" "?tf \<notin> tables (mem demo_fork) ?pt"
    and d: "page_ok 0x7000000 ?d" "?d \<notin> set (n # xs)" "?d \<notin> tables (mem demo_fork) ?pt"
    using fk x p0(2) by (auto simp: forkable_def fork_pages_def)
  have m1: "?m1 i = mem demo_fork i" if "i < unat ?d \<or> unat ?d + 4096 \<le> i" for i using that by auto
  have m2: "mem ?s i = ?m1 i" if "i < unat ?tf \<or> unat ?tf + 4096 \<le> i" for i
    using that by (elim disjE) (simp_all add: demo_write_def Let_def store64_other tf_x_def)
  have v1: "vm_inv 0x7000000 (demo_fork\<lparr>mem := ?m1\<rparr>) ?pt (n # xs)" "tables ?m1 ?pt = tables (mem demo_fork) ?pt"
    "\<forall>w. xlate ?m1 ?pt w = xlate (mem demo_fork) ?pt w"
    using vm_inv_write [OF v d, of ?m1] m1 by blast+
  have "vm_inv 0x7000000 (demo_fork\<lparr>mem := ?m1, mem := mem ?s\<rparr>) ?pt (n # xs) \<and> tables (mem ?s) ?pt = tables (mem demo_fork) ?pt \<and>
    (\<forall>w. xlate (mem ?s) ?pt w = xlate (mem demo_fork) ?pt w)"
    using vm_inv_write [OF v1(1) tf(1,2), of "mem ?s"] tf(3) v1(2,3) m2 by simp
  then have v2: "vm_inv 0x7000000 ?s ?pt (n # xs)" "tables (mem ?s) ?pt = tables (mem demo_fork) ?pt" "xlate (mem ?s) ?pt 0 = Some e"
    using x by (simp_all add: vm_inv_def kmem_inv_def demo_write_def Let_def)
  have reg: "tfreg ?s 0 0 = 1" "tfreg ?s 0 1 = 0" "tfreg ?s 0 2 = 2" "tfreg ?s 0 8 = 6"
    by (simp_all add: tfreg_def demo_write_def Let_def tf_x_def load_store_disjoint)
  have ap: "unat ?d + 4096 \<le> unat ?tf \<or> unat ?tf + 4096 \<le> unat ?d" using page_ok_apart [OF tf(1) d(1)] ne by auto
  have hi: "unat ?d \<ge> 0x7000000" "unat ?tf \<ge> 0x7000000" using d(1) tf(1) by (auto simp: page_ok_def word_le_nat_alt)
  have q: "p_pagetable (procs ?s ! 0) = ?pt" "p_fds (procs ?s ! 0) ! 1 = Some 0" "p_tf (procs ?s ! 0) = ?tf"
    by (simp_all add: demo_write_def Let_def)
  have "console_file ?s 0" by (simp add: console_file_def demo_write_def Let_def closed_fd_def)
  then have w: "write_args 0x7000000 (n # xs) 0 0 ?d 2 0x90000 ?s"
    using v2 reg hi q by (simp add: write_args_def Let_def PGROUNDDOWN_def)
  have "unat ?d + 2 \<le> unat ?tf \<or> unat ?tf + 4096 \<le> unat ?d" "unat (0x90000 :: u64) + 512 \<le> unat ?tf" using ap hi(2) by auto
  then have fr: "frame_apart 0x7000000 (n # xs) 0 ?d 2 0x90000 ?s"
    unfolding frame_apart_def Let_def q v2(2) using tf by blast
  have out: "map (\<lambda>i. mem ?s (unat ?d + i)) [0..<2] = [0x48, 0x69]"
    using m2 [of "unat ?d"] m2 [of "Suc (unat ?d)"] ap by (auto simp: upt_rec)
  have st: "cpu_proc ?s 0 = Some 0" "p_state (procs ?s ! 0) \<noteq> ZOMBIE" "drop_bit 26 (esr_el1 ?s) AND 0x3F = 0x15" "uart_out ?s = []"
    using p0(1) by (simp_all add: demo_write_def demo_trap_def Let_def)
  have k: "k_end ?k = 0x7000000" "k_buf ?k = 0x90000" by (simp_all add: demo_tenv_def)
  show ?thesis
    using write_reaches_console [OF st(1,2), of ?k "n # xs" 0 ?d 2, unfolded k, OF w fr st(3) reg(4)] q(1) st(4)
    by (auto simp only: out of_nat_numeral append_Nil intro!: exI [of _ ?d])
qed

end
