(* ===== verification/Fs_File.thy ===== *)
theory Fs_File
  imports Fs_Alloc
begin

text \<open>
  The data of files: what \<^verbatim>\<open>readi\<close> and \<^verbatim>\<open>writei\<close> do with the direct blocks of a file. Within one
  block they are right; over several blocks \<^verbatim>\<open>readi\<close> leaves a gap after every chunk.
\<close>

section \<open>One chunk\<close>

lemma copy_bytes_at: "copy_bytes n src a dst b i = (if b \<le> i \<and> i < b + n then src (a + (i - b)) else dst i)"
proof (induction n arbitrary: a dst b)
  case (Suc n)
  show ?case
  proof (cases "b < i")
    case True
    then have "Suc a + (i - Suc b) = a + (i - b)" by arith
    with True Suc show ?thesis by auto
  qed (use Suc in auto)
qed auto

lemma mem_hold [simp]: "mem (hold i d s) = mem s" "mem (drop_buf i d s) = mem s"
  by (simp_all add: hold_def drop_buf_def)

lemma hold_mem: "(hold i d s)\<lparr>mem := m\<rparr> = hold i d (s\<lparr>mem := m\<rparr>)"
  by (simp add: hold_def)

lemma first_free_mem [simp]: "first_free (s\<lparr>mem := m\<rparr>) i = first_free s i"
  by (simp add: first_free_def)

lemma held_mem [simp]: "held (s\<lparr>mem := m\<rparr>) = held s"
  by (simp add: held_def)

lemma readi_loop_step:
  assumes ff: "first_free s b" and "0 < n" and "off < i_size ip" and "unat (off div 512) < 31"
    and k: "k = chunk (i_size ip) off n" and d: "d = disk s (i_addrs ip ! unat (off div 512))"
  shows "readi_loop ip dst off n s = readi_loop ip (dst + unat k + unat k) (off + k) (n - k)
    (drop_buf b d (s\<lparr>mem := copy_bytes (unat k) d (unat (off mod 512)) (mem s) dst\<rparr>))"
  using assms(2-4) bread_hold [OF ff, of "i_dev ip" "i_addrs ip ! unat (off div 512)"]
    hold_simps(1,4) [OF ff] hold_simps(3) [of "s\<lparr>mem := copy_bytes (unat k) d (unat (off mod 512)) (mem s) dst\<rparr>" b] ff
  by (subst readi_loop.simps) (simp add: bmap_def Let_def hold_mem k d)

lemma readi_loop_end: "n = 0 \<or> i_size ip \<le> off \<Longrightarrow> readi_loop ip dst off n s = Inr (n, s)"
  by (subst readi_loop.simps) auto

lemma unat_umin: "unat (umin a b) = min (unat a) (unat b)"
  by (auto simp: umin_def word_less_nat_alt)

lemma unat_chunk:
  "off < isize \<Longrightarrow> unat (chunk isize off n) = min (min (unat n) (unat isize - unat off)) (512 - unat off mod 512)"
  by (simp add: chunk_def unat_umin unat_left unat_sub order_less_imp_le)

lemma readi_file: "i_type (inodes s ! i) \<noteq> T_DEV \<Longrightarrow>
  readi devsw i xdst off n s = bindR (readi_loop (inodes s ! i) (unat xdst) off n s) (\<lambda>(n', s'). Inr (sint (n - n'), s'))"
  by (simp add: readi_def)

lemma sint_small: "unat (w :: u32) < 2 ^ 31 \<Longrightarrow> sint w = int (unat w)"
  using sint_of_nat32 [of "unat w"] by simp

lemma readi_loop_one:
  assumes ff: "first_free s b" and n: "0 < n" and off: "off < i_size ip" "unat off < 31 * 512"
    and m: "m = min (unat n) (unat (i_size ip) - unat off)" and one: "unat off mod 512 + m \<le> 512"
    and d: "d = disk s (i_addrs ip ! (unat off div 512))"
  shows "readi_loop ip dst off n s = Inr (n - of_nat m, drop_buf b d (s\<lparr>mem := copy_bytes m d (unat off mod 512) (mem s) dst\<rparr>))"
proof -
  let ?k = "chunk (i_size ip) off n"
  have k: "unat ?k = m" using unat_chunk [OF off(1), of n] m one by simp
  have "?k = of_nat (unat ?k)" by simp
  then have kw: "?k = of_nat m" by (simp only: k)
  then have u: "unat (of_nat m :: u32) = m" using k by (simp only:)
  have bn: "unat (off div 512) = unat off div 512" "unat (off mod 512) = unat off mod 512" by (simp_all add: unat_div unat_mod)
  then have lt: "unat (off div 512) < 31" using off(2) by (simp add: div_less_iff_less_mult)
  let ?s = "drop_buf b d (s\<lparr>mem := copy_bytes m d (unat off mod 512) (mem s) dst\<rparr>)"
  have "n - of_nat m = 0 \<or> i_size ip \<le> off + of_nat m"
  proof (cases "unat n \<le> unat (i_size ip) - unat off")
    case True
    then have "of_nat m = n" using m by (simp add: min_def)
    then show ?thesis by simp
  next
    case False
    then have "m = unat (i_size ip) - unat off" using m by simp
    also have "\<dots> = unat (i_size ip - off)" using off(1) by (simp add: unat_sub order_less_imp_le)
    finally have "of_nat m = i_size ip - off" by simp
    then show ?thesis by simp
  qed
  then show ?thesis
    using readi_loop_step [OF ff n off(1) lt refl refl, of dst] readi_loop_end [of "n - of_nat m" ip "off + of_nat m" "dst + m + m" ?s]
    by (simp only: kw u bn d)
qed

lemma readi_one:
  assumes ff: "first_free s b" and "i_type (inodes s ! i) \<noteq> T_DEV"
    and n: "0 < n" and off: "unat off < unat (i_size (inodes s ! i))" "unat off < 31 * 512"
    and m: "m = min (unat n) (unat (i_size (inodes s ! i)) - unat off)" "unat off mod 512 + m \<le> 512"
    and d: "d = disk s (i_addrs (inodes s ! i) ! (unat off div 512))"
  shows "readi devsw i dst off n s = Inr (int m, drop_buf b d (s\<lparr>mem := copy_bytes m d (unat off mod 512) (mem s) (unat dst)\<rparr>))"
proof -
  have lt: "off < i_size (inodes s ! i)" using off(1) by (simp add: word_less_nat_alt)
  have u: "unat (of_nat m :: u32) = m" using m(1) unat_bounds(3) [of n] by (simp add: unat_of_nat)
  have "m < 2 ^ 31" using m(2) by simp
  then have "sint (n - (n - of_nat m)) = int m" using sint_small [of "of_nat m"] u by simp
  then show ?thesis using readi_loop_one [OF ff n lt off(2) m d, of "unat dst"] readi_file [OF assms(2)] by simp
qed

text \<open>
  Reading within a block. For a file, \<^verbatim>\<open>readi\<close> of a range that starts inside the file and lies in
  one direct block returns the number of bytes asked for, or of those left in the file when that is
  less; it copies exactly these bytes of the block to the destination and changes nothing else.
\<close>

theorem readi_one_block:
  assumes "held s \<noteq> {..<length (bufs s)}" and "i_type (inodes s ! i) \<noteq> T_DEV"
    and "0 < n" and "unat off < unat (i_size (inodes s ! i))" and "unat off < 31 * 512"
    and "m = min (unat n) (unat (i_size (inodes s ! i)) - unat off)" and "unat off mod 512 + m \<le> 512"
  shows "\<exists>s'. readi devsw i dst off n s = Inr (int m, s') \<and> held s' = held s \<and> disk s' = disk s \<and> inodes s' = inodes s \<and>
    mem s' = (\<lambda>a. if unat dst \<le> a \<and> a < unat dst + m
      then disk s (i_addrs (inodes s ! i) ! (unat off div 512)) (unat off mod 512 + (a - unat dst)) else mem s a)"
proof -
  let ?d = "disk s (i_addrs (inodes s ! i) ! (unat off div 512))"
  obtain b where ff: "first_free s b" using assms(1) first_free_iff by blast
  let ?s = "drop_buf b ?d (s\<lparr>mem := copy_bytes m ?d (unat off mod 512) (mem s) (unat dst)\<rparr>)"
  have "held ?s = held s" by (simp only: held_drop held_mem)
  then show ?thesis using readi_one [OF ff assms(2-7) refl] by (auto simp: copy_bytes_at fun_eq_iff)
qed

definition demo_file :: fs where
  "demo_file = demo_fs\<lparr>inodes := [(inodes demo_fs ! 0)\<lparr>i_addrs := replicate 32 40\<rparr>]\<rparr>"

lemma demo_file_simps: "bufs demo_file = replicate 3 \<lparr>bflags = 0, bdata = (\<lambda>_. 0)\<rparr>"
  "i_type (inodes demo_file ! 0) = T_FILE" "i_size (inodes demo_file ! 0) = 7" "i_addrs (inodes demo_file ! 0) = replicate 32 40"
  "i_inum (inodes demo_file ! 0) = 2" "length (inodes demo_file) = 1" "disk demo_file = demo_card"
  by (simp_all add: demo_file_def demo_fs_def)

lemma demo_file_not_held: "held demo_file \<noteq> {..<length (bufs demo_file)}"
  by (simp add: held_full_iff) (simp add: demo_file_simps busy_def)

theorem readi_one_block_witness:
  "\<exists>s'. readi [] 0 0x9000 2 512 demo_file = Inr (5, s') \<and> mem s' 0x9000 = disk demo_file 40 2"
proof -
  have "\<exists>s'. readi [] 0 0x9000 2 512 demo_file = Inr (int 5, s') \<and> held s' = held demo_file \<and> disk s' = disk demo_file \<and>
     inodes s' = inodes demo_file \<and>
     mem s' = (\<lambda>a. if unat (0x9000 :: u64) \<le> a \<and> a < unat (0x9000 :: u64) + 5
      then disk demo_file (i_addrs (inodes demo_file ! 0) ! (unat (2 :: u32) div 512)) (unat (2 :: u32) mod 512 + (a - unat (0x9000 :: u64)))
      else mem demo_file a)"
    by (rule readi_one_block [OF demo_file_not_held]) (simp_all add: demo_file_simps)
  then show ?thesis by (auto simp: demo_file_simps)
qed

section \<open>Whole blocks\<close>

text \<open>
  The memory after the chunks \<open>j\<close> to \<open>k\<close> of whole blocks: the block \<open>x\<close> is at \<open>1024 * (x - j)\<close>.
\<close>

definition gapped :: "(u32 \<Rightarrow> store) \<Rightarrow> u32 list \<Rightarrow> nat \<Rightarrow> nat \<Rightarrow> nat \<Rightarrow> store \<Rightarrow> store" where
  "gapped dk addrs j k dst m = (\<lambda>a. if dst \<le> a \<and> a < dst + 1024 * (k - j) \<and> (a - dst) mod 1024 < 512
     then dk (addrs ! (j + (a - dst) div 1024)) ((a - dst) mod 1024) else m a)"

lemma gapped_step:
  assumes "j < k"
  shows "gapped dk addrs (Suc j) k (dst + 1024) (copy_bytes 512 (dk (addrs ! j)) 0 m dst) = gapped dk addrs j k dst m"
proof (rule ext)
  fix a
  obtain r where k: "k = Suc (j + r)" using less_imp_Suc_add [OF assms] by blast
  show "gapped dk addrs (Suc j) k (dst + 1024) (copy_bytes 512 (dk (addrs ! j)) 0 m dst) a = gapped dk addrs j k dst m a"
  proof (cases "dst + 1024 \<le> a")
    case True
    then obtain x where a: "a = dst + 1024 + x" using le_Suc_ex by blast
    moreover have "(1024 + x) div 1024 = Suc (x div 1024)" by simp
    ultimately show ?thesis by (simp add: gapped_def copy_bytes_at k)
  next
    case False
    then show ?thesis by (auto simp: gapped_def copy_bytes_at k)
  qed
qed

lemma readi_loop_blocks:
  assumes "k \<le> 31" and "512 * k \<le> unat (i_size ip)"
  shows "first_free s b \<Longrightarrow> j \<le> k \<Longrightarrow>
    \<exists>s'. readi_loop ip dst (of_nat (512 * j)) (of_nat (512 * (k - j))) s = Inr (0, s') \<and> held s' = held s \<and> disk s' = disk s \<and>
      mem s' = gapped (disk s) (i_addrs ip) j k dst (mem s)"
proof (induction "k - j" arbitrary: j dst s)
  case 0
  then have "j = k" by simp
  moreover have "gapped (disk s) (i_addrs ip) k k dst (mem s) = mem s" by (auto simp: gapped_def fun_eq_iff)
  ultimately show ?case by (simp add: readi_loop_end)
next
  case (Suc r)
  then have jk: "j < k" by simp
  let ?off = "of_nat (512 * j) :: u32" and ?n = "of_nat (512 * (k - j)) :: u32"
  let ?d = "disk s (i_addrs ip ! j)"
  let ?s = "drop_buf b ?d (s\<lparr>mem := copy_bytes 512 ?d 0 (mem s) dst\<rparr>)"
  have j31: "j < 31" using jk assms(1) by simp
  have uo: "unat ?off = 512 * j" using j31 by (simp only: unat_of_nat) simp
  have un: "unat ?n = 512 * (k - j)" using assms(1) by (simp only: unat_of_nat) simp
  have lt: "?off < i_size ip" using assms(2) jk by (simp only: word_less_nat_alt uo)
  have pos: "0 < ?n" using jk by (simp only: word_less_nat_alt un) simp
  have div: "unat (?off div 512) = j" "unat (?off mod 512) = 0" unfolding unat_div unat_mod uo by simp_all
  have kc: "unat (chunk (i_size ip) ?off ?n) = 512"
    unfolding unat_chunk [OF lt] uo un using assms(2) jk by simp
  then have kc': "chunk (i_size ip) ?off ?n = 512" by (simp add: word_unat_eq_iff)
  have u512: "unat (512 :: u32) = 512" "dst + 512 + 512 = dst + 1024" for dst :: nat by simp_all
  have o': "?off + 512 = of_nat (512 * Suc j)" by simp
  have n': "?n - 512 = of_nat (512 * (k - Suc j))"
  proof -
    have "512 * (k - j) = 512 * (k - Suc j) + 512" using jk by simp
    then show ?thesis by simp
  qed
  have "readi_loop ip dst ?off ?n s = readi_loop ip (dst + 1024) (of_nat (512 * Suc j)) (of_nat (512 * (k - Suc j))) ?s"
    using readi_loop_step [OF Suc.prems(1) pos lt _ refl refl, of dst] j31
    unfolding kc' div o' n' u512 by (simp only: simp_thms)
  moreover have "first_free ?s b" using Suc.prems(1) by (intro first_free_drop) simp
  moreover have "r = k - Suc j" "Suc j \<le> k" using Suc.hyps(2) jk by simp_all
  ultimately obtain s' where s': "readi_loop ip dst ?off ?n s = Inr (0, s')" "held s' = held ?s" "disk s' = disk ?s"
    "mem s' = gapped (disk ?s) (i_addrs ip) (Suc j) k (dst + 1024) (mem ?s)"
    using Suc.hyps(1) [of "Suc j" ?s "dst + 1024"] by auto
  have "held ?s = held s" by (simp only: held_drop held_mem)
  moreover have "mem s' = gapped (disk s) (i_addrs ip) j k dst (mem s)"
    using s'(4) gapped_step [OF jk, of "disk s" "i_addrs ip" dst "mem s"] by simp
  ultimately show ?case using s'(1-3) by (intro exI [of _ s']) simp
qed

text \<open>
  C23. Reading several blocks. \<^verbatim>\<open>readi\<close> of the first \<open>k\<close> whole blocks of a file reports \<open>512 * k\<close>
  bytes, but block \<open>j\<close> is copied to \<open>dst + 1024 * j\<close>: after every block it leaves a gap of 512
  bytes that keep what they held before, and the data reach twice as far as the caller asked for.
\<close>

theorem readi_leaves_gaps:
  assumes "held s \<noteq> {..<length (bufs s)}" and "i_type (inodes s ! i) \<noteq> T_DEV"
    and "k \<le> 31" and "512 * k \<le> unat (i_size (inodes s ! i))"
  shows "\<exists>s'. readi devsw i dst 0 (of_nat (512 * k)) s = Inr (int (512 * k), s') \<and>
    (\<forall>j < k. \<forall>x < 512. mem s' (unat dst + 1024 * j + x) = disk s (i_addrs (inodes s ! i) ! j) x \<and>
       mem s' (unat dst + 1024 * j + 512 + x) = mem s (unat dst + 1024 * j + 512 + x))"
proof -
  let ?ip = "inodes s ! i"
  obtain b where ff: "first_free s b" using assms(1) first_free_iff by blast
  obtain s' where s': "readi_loop ?ip (unat dst) 0 (of_nat (512 * k)) s = Inr (0, s')"
    "mem s' = gapped (disk s) (i_addrs ?ip) 0 k (unat dst) (mem s)"
    using readi_loop_blocks [OF assms(3,4) ff, of 0 "unat dst"] by auto
  have u: "unat (of_nat (512 * k) :: u32) = 512 * k" using assms(3) by (simp only: unat_of_nat) simp
  have "sint (of_nat (512 * k) :: u32) = int (512 * k)"
    using assms(3) by (intro sint_of_nat32) simp
  then have "readi devsw i dst 0 (of_nat (512 * k)) s = Inr (int (512 * k), s')"
    using s'(1) by (simp add: readi_file [OF assms(2)])
  moreover have "mem s' (unat dst + 1024 * j + x) = disk s (i_addrs ?ip ! j) x \<and>
      mem s' (unat dst + 1024 * j + 512 + x) = mem s (unat dst + 1024 * j + 512 + x)" if "j < k" "x < 512" for j x
  proof -
    have "(1024 * j + x) mod 1024 = x" "(1024 * j + x) div 1024 = j" "(1024 * j + 512 + x) mod 1024 = 512 + x"
      using that(2) by (simp_all add: mod_mult_self2 [of "512 + x" 1024 j, unfolded add.assoc] add.assoc)
    moreover have "1024 * j + x < 1024 * k" using that by linarith
    ultimately show ?thesis unfolding s'(2) gapped_def using that(2) by (simp add: add.assoc)
  qed
  ultimately show ?thesis by blast
qed

theorem readi_leaves_gaps_witness:
  "\<exists>s'. readi [] 0 0x9000 0 (of_nat (512 * 2)) (upd_inode 0 (\<lambda>ip. ip\<lparr>i_size := 2000\<rparr>) demo_file) = Inr (int (512 * 2), s') \<and>
     mem s' (0x9000 + 1024) = disk demo_file 40 0 \<and> mem s' (0x9000 + 512) = mem demo_file (0x9000 + 512)"
proof -
  let ?s = "upd_inode 0 (\<lambda>ip. ip\<lparr>i_size := 2000\<rparr>) demo_file"
  have h: "held ?s \<noteq> {..<length (bufs ?s)}" using demo_file_not_held by simp
  have t: "i_type (inodes ?s ! 0) \<noteq> T_DEV" "i_addrs (inodes ?s ! 0) = replicate 32 40" "unat (i_size (inodes ?s ! 0)) = 2000"
    by (simp_all add: demo_file_simps)
  obtain s' where r: "readi [] 0 0x9000 0 (of_nat (512 * 2)) ?s = Inr (int (512 * 2), s')"
    and g: "\<forall>j < 2. \<forall>x < 512. mem s' (unat (0x9000 :: u64) + 1024 * j + x) = disk ?s (i_addrs (inodes ?s ! 0) ! j) x \<and>
       mem s' (unat (0x9000 :: u64) + 1024 * j + 512 + x) = mem ?s (unat (0x9000 :: u64) + 1024 * j + 512 + x)"
    using readi_leaves_gaps [OF h t(1), of 2 "[]" "0x9000"] t(3) by auto
  show ?thesis using r g [rule_format, of 1 0] g [rule_format, of 0 0] t(2) by auto
qed

section \<open>Writing\<close>

lemma writei_copy_eq:
  assumes ff: "first_free s b" and "unat off div 512 < 31" and a: "a = i_addrs (inodes s ! i) ! (unat off div 512)"
    and d: "d = copy_bytes (unat m) (mem s) src (disk s a) (unat off mod 512)"
  shows "writei_copy i src off m s = Inr (drop_buf b d (s\<lparr>disk := (disk s)(a := d)\<rparr>))"
  using assms(2) bread_hold [OF ff] hold_simps [OF ff] bwrite_hold [OF ff] hold_simps(3) [of "s\<lparr>disk := (disk s)(a := d)\<rparr>" b] ff
  by (simp add: writei_copy_def bmap_def unat_div unat_mod Let_def a d)

lemma writei_loop_one:
  assumes ff: "first_free s b" and "unat off div 512 < 31" and a: "a = i_addrs (inodes s ! i) ! (unat off div 512)" "a \<noteq> 0"
    and n: "0 < n" "unat off mod 512 + unat n \<le> 512"
    and d: "d = copy_bytes (unat n) (mem s) src (disk s a) (unat off mod 512)"
  shows "writei_loop i src off n 0 s = Inr (n, off + n, drop_buf b d (s\<lparr>disk := (disk s)(a := d)\<rparr>))"
proof -
  have "unat (umin (512 - off mod 512) n) = unat n" using n(2) by (simp add: unat_umin unat_left)
  then have m: "umin (512 - off mod 512) n = n" by (simp only: word_unat_eq_iff)
  have blk: "writei_block i (unat (off div 512)) s = Inr s"
    using assms(2) a by (simp add: writei_block_def unat_div Let_def)
  have "writei_loop i src (off + n) n n t = Inr (n, off + n, t)" for t by (subst writei_loop.simps) simp
  then show ?thesis
    using n(1) writei_copy_eq [OF ff assms(2) a(1) d] by (subst writei_loop.simps) (simp add: blk m Let_def)
qed

lemma writei_one:
  assumes ff: "first_free s b" and t: "i_type (inodes s ! i) = T_FILE" and "unat off div 512 < 31"
    and a: "a = i_addrs (inodes s ! i) ! (unat off div 512)" "a \<noteq> 0" and n: "0 < n" "unat off mod 512 + unat n \<le> 512"
    and d: "d = copy_bytes (unat n) (mem s) (unat src) (disk s a) (unat off mod 512)"
    and f: "f = (\<lambda>ip. if i_size ip < off + n then ip\<lparr>i_size := off + n\<rparr> else ip)" and i: "i < length (inodes s)"
    and x: "x = write_dinode (f (inodes s ! i)) (dinode_off (i_inum (inodes s ! i))) (((disk s)(a := d)) (IBLOCK (i_inum (inodes s ! i))))"
  shows "writei devsw i src off n s = Inr (int (unat n), drop_buf b x (upd_inode i f
    (s\<lparr>disk := (disk s)(a := d, IBLOCK (i_inum (inodes s ! i)) := x)\<rparr>)))"
proof -
  let ?s1 = "drop_buf b d (s\<lparr>disk := (disk s)(a := d)\<rparr>)"
  have sn: "sint n = int (unat n)" using n(2) by (intro sint_small) simp
  have "0 < unat n" using n(1) by (simp add: word_less_nat_alt)
  then have pos: "0 < sint n" unfolding sn by linarith
  have id: "upd_inode i (\<lambda>ip. ip) t = t" for t :: "'a fs_scheme" by (simp add: upd_inode_def)
  have f_eq: "(if 0 < sint n \<and> i_size (inodes ?s1 ! i) < off + n then upd_inode i (\<lambda>ip. ip\<lparr>i_size := off + n\<rparr>) ?s1 else ?s1) =
      upd_inode i f ?s1"
    using pos unfolding f by (simp add: upd_inode_def)
  have ff1: "first_free (upd_inode i f ?s1) b" using ff by simp
  have f_ids: "i_inum (f ip) = i_inum ip" "i_dev (f ip) = i_dev ip" for ip by (simp_all add: f)
  have "iupdate i (upd_inode i f ?s1) = Inr (drop_buf b x ((upd_inode i f ?s1)
      \<lparr>disk := (disk s)(a := d, IBLOCK (i_inum (inodes s ! i)) := x)\<rparr>))"
    using iupdate_eq [OF ff1, of i] i x by (simp add: f_ids Let_def)
  also have "drop_buf b x ((upd_inode i f ?s1)\<lparr>disk := (disk s)(a := d, IBLOCK (i_inum (inodes s ! i)) := x)\<rparr>) =
     drop_buf b x (upd_inode i f (s\<lparr>disk := (disk s)(a := d, IBLOCK (i_inum (inodes s ! i)) := x)\<rparr>))"
    by (cases "b < length (bufs s)") (simp_all add: drop_buf_def upd_inode_def list_update_beyond)
  finally have u: "iupdate i (upd_inode i f ?s1) = Inr (drop_buf b x (upd_inode i f
      (s\<lparr>disk := (disk s)(a := d, IBLOCK (i_inum (inodes s ! i)) := x)\<rparr>)))" .
  have "writei devsw i src off n s = bindR (iupdate i (if 0 < sint n \<and> i_size (inodes ?s1 ! i) < off + n
      then upd_inode i (\<lambda>ip. ip\<lparr>i_size := off + n\<rparr>) ?s1 else ?s1)) (\<lambda>s3. Inr (sint n, s3))"
    using t writei_loop_one [OF ff assms(3) a n d] by (simp add: writei_def Let_def)
  then show ?thesis unfolding f_eq unfolding u by (simp only: bindR.simps sn)
qed

text \<open>
  C19. What is written to a file is what is read from it. For an allocated direct block of a file,
  \<^verbatim>\<open>writei\<close> of a range within the block returns the number of bytes, makes the file at least as
  long as the range reaches, and writes no sector but the block and the one of the inode; a \<^verbatim>\<open>readi\<close>
  of the same range then delivers, at any destination, the bytes that were at the source.
\<close>

theorem write_then_read:
  assumes "held s \<noteq> {..<length (bufs s)}" and "i < length (inodes s)" and "ip = inodes s ! i" and "i_type ip = T_FILE"
    and "unat off div 512 < 31" and "a = i_addrs ip ! (unat off div 512)" "a \<noteq> 0" "a \<noteq> IBLOCK (i_inum ip)"
    and "0 < n" "unat off mod 512 + unat n \<le> 512"
  shows "\<exists>s1 s2. writei devsw i src off n s = Inr (int (unat n), s1) \<and>
    unat (i_size (inodes s1 ! i)) = max (unat (i_size ip)) (unat off + unat n) \<and>
    (\<forall>b. b \<noteq> a \<and> b \<noteq> IBLOCK (i_inum ip) \<longrightarrow> disk s1 b = disk s b) \<and>
    readi devsw i dst off n s1 = Inr (int (unat n), s2) \<and>
    (\<forall>x < unat n. mem s2 (unat dst + x) = mem s (unat src + x)) \<and> held s2 = held s"
proof -
  obtain b where ff: "first_free s b" using assms(1) first_free_iff by blast
  define f where "f = (\<lambda>ip :: inode. if i_size ip < off + n then ip\<lparr>i_size := off + n\<rparr> else ip)"
  define d where "d = copy_bytes (unat n) (mem s) (unat src) (disk s a) (unat off mod 512)"
  let ?ib = "IBLOCK (i_inum (inodes s ! i))"
  define x where "x = write_dinode (f (inodes s ! i)) (dinode_off (i_inum (inodes s ! i))) (((disk s)(a := d)) ?ib)"
  let ?s1 = "drop_buf b x (upd_inode i f (s\<lparr>disk := (disk s)(a := d, ?ib := x)\<rparr>))"
  have w: "writei devsw i src off n s = Inr (int (unat n), ?s1)"
    by (rule writei_one [OF ff _ assms(5) _ assms(7,9,10) d_def f_def assms(2) x_def]) (use assms in simp_all)
  have o31: "unat off < 31 * 512" using assms(5) by (simp add: div_less_iff_less_mult)
  have on: "unat (off + n) = unat off + unat n"
    using o31 assms(10) by (simp add: unat_word_ariths)
  have sz: "unat (i_size (f y)) = max (unat (i_size y)) (unat off + unat n)" for y
    using on by (simp add: f_def word_less_nat_alt)
  have ip1: "inodes ?s1 ! i = f ip" using assms(2,3) by simp
  have f_same: "i_addrs (f ip) = i_addrs ip" "i_type (f ip) = i_type ip" by (simp_all add: f_def)
  have h1: "held ?s1 = held s" by (simp only: held_drop upd_inode_simps held_disk)
  have n0: "0 < unat n" using assms(9) by (simp add: word_less_nat_alt)
  have "length (bufs ?s1) = length (bufs s)" by (simp add: drop_buf_def)
  then have nf: "held ?s1 \<noteq> {..<length (bufs ?s1)}" using h1 assms(1) by simp
  have rd: "\<exists>s2. readi devsw i dst off n ?s1 = Inr (int (unat n), s2) \<and> held s2 = held ?s1 \<and> disk s2 = disk ?s1 \<and> inodes s2 = inodes ?s1 \<and>
    mem s2 = (\<lambda>c. if unat dst \<le> c \<and> c < unat dst + unat n
      then disk ?s1 (i_addrs (inodes ?s1 ! i) ! (unat off div 512)) (unat off mod 512 + (c - unat dst)) else mem ?s1 c)"
    by (rule readi_one_block [OF nf _ assms(9) _ o31 _ assms(10)]) (use assms(4) sz n0 in \<open>simp_all only: ip1 f_same\<close>, simp_all)
  have "disk ?s1 (i_addrs (f ip) ! (unat off div 512)) = d" using assms(3,6,8) f_same by simp
  then have "\<forall>y < unat n. disk ?s1 (i_addrs (f ip) ! (unat off div 512)) (unat off mod 512 + y) = mem s (unat src + y)"
    by (simp add: d_def copy_bytes_at)
  then show ?thesis using w rd ip1 sz h1 assms(3) by auto
qed

theorem write_then_read_witness:
  "\<exists>s1 s2. writei [] 0 0x8000 100 3 demo_file = Inr (3, s1) \<and> unat (i_size (inodes s1 ! 0)) = 103 \<and>
     readi [] 0 0x9000 100 3 s1 = Inr (3, s2) \<and> mem s2 (0x9000 + 2) = mem demo_file (0x8000 + 2)"
proof -
  let ?ip = "inodes demo_file ! 0"
  have ib: "40 \<noteq> IBLOCK 2" by (simp add: IBLOCK_def)
  have "\<exists>s1 s2. writei [] 0 0x8000 100 3 demo_file = Inr (int (unat (3 :: u32)), s1) \<and>
    unat (i_size (inodes s1 ! 0)) = max (unat (i_size ?ip)) (unat (100 :: u32) + unat (3 :: u32)) \<and>
    (\<forall>b. b \<noteq> 40 \<and> b \<noteq> IBLOCK (i_inum ?ip) \<longrightarrow> disk s1 b = disk demo_file b) \<and>
    readi [] 0 0x9000 100 3 s1 = Inr (int (unat (3 :: u32)), s2) \<and>
    (\<forall>x < unat (3 :: u32). mem s2 (unat (0x9000 :: u64) + x) = mem demo_file (unat (0x8000 :: u64) + x)) \<and> held s2 = held demo_file"
    by (rule write_then_read [OF demo_file_not_held _ refl]) (use ib in \<open>simp_all add: demo_file_simps\<close>)
  then obtain s1 s2 where r: "writei [] 0 0x8000 100 3 demo_file = Inr (int (unat (3 :: u32)), s1)"
    "unat (i_size (inodes s1 ! 0)) = max (unat (i_size ?ip)) (unat (100 :: u32) + unat (3 :: u32))"
    "readi [] 0 0x9000 100 3 s1 = Inr (int (unat (3 :: u32)), s2)"
    and c: "\<forall>x < unat (3 :: u32). mem s2 (unat (0x9000 :: u64) + x) = mem demo_file (unat (0x8000 :: u64) + x)" by blast
  have "mem s2 (0x9000 + 2) = mem demo_file (0x8000 + 2)" using c [rule_format, of 2] by simp
  then show ?thesis using r by (auto simp: demo_file_simps)
qed

end
