(* ===== verification/Sys_Cat.thy ===== *)
theory Sys_Cat
  imports Progs Sys_Write Fs_File
begin

text \<open>
  A program on the kernel: the loop of \<^verbatim>\<open>cat\<close>, with its calls of \<^verbatim>\<open>read\<close> and \<^verbatim>\<open>cons_puts\<close> served by
  \<open>syscall\<close> on the memory, the page table, the open files, the inodes and the card of the model of the kernel.
\<close>

section \<open>Calls with registers and memory\<close>

text \<open>\<^verbatim>\<open>svc\<close>: the registers are saved in the trap frame, the kernel runs, and \<open>x0\<close> is the value of the call.\<close>

definition save_regs :: "nat \<Rightarrow> int \<Rightarrow> u64 \<Rightarrow> u64 \<Rightarrow> u64 \<Rightarrow> store \<Rightarrow> store" where
  "save_regs tf num x0 x1 x2 m =
     store64 (store64 (store64 (store64 m (tf + tf_x 0) x0) (tf + tf_x 1) x1) (tf + tf_x 2) x2) (tf + tf_x 8) (word_of_int num)"

definition svc :: "kenv \<Rightarrow> nat \<Rightarrow> int \<Rightarrow> u64 \<Rightarrow> u64 \<Rightarrow> u64 \<Rightarrow> 'a fdt_scheme \<Rightarrow> (int \<times> 'a fdt_scheme) result" where
  "svc k c num x0 x1 x2 s =
     (case myproc c s of None \<Rightarrow> Inl NullDeref
      | Some p \<Rightarrow> let tf = unat (p_tf (procs s ! p)) in
          bindR (syscall k c (s\<lparr>mem := save_regs tf num x0 x1 x2 (mem s)\<rparr>)) (\<lambda>s1.
            Inr (sint (ucast (load64 (mem s1) (tf + tf_x 0)) :: u32), s1)))"

text \<open>
  The array of \<^verbatim>\<open>cat\<close> at the user address \<open>va\<close>, which is the physical address \<open>a\<close>: the memory holds what the program has
  stored in it when the kernel is called.
\<close>

definition put_buf :: "nat \<Rightarrow> nat \<Rightarrow> store \<Rightarrow> store \<Rightarrow> store" where
  "put_buf a n buf m = (\<lambda>i. if a \<le> i \<and> i < a + n then buf (i - a) else m i)"

definition served :: "nat \<Rightarrow> 'a fdt_scheme \<Rightarrow> (int \<times> 'a fdt_scheme) result \<Rightarrow> (int \<times> store) flow \<times> 'a fdt_scheme" where
  "served a s r = (case r of
       Inl e \<Rightarrow> (if e = OutOfBounds then Undef else Gone, s)
     | Inr (x, s1) \<Rightarrow> (Go (x, \<lambda>i. mem s1 (a + i)), s1))"

fun cat_kern :: "kenv \<Rightarrow> nat \<Rightarrow> u64 \<Rightarrow> nat \<Rightarrow> 'a fdt_scheme kern" where
  "cat_kern k c va a (SysRead fd n buf) s =
     served a s (svc k c (stub_num (SysRead fd n buf)) (word_of_int fd) va (word_of_int n) (s\<lparr>mem := put_buf a 513 buf (mem s)\<rparr>))"
| "cat_kern k c va a (SysConsPuts bs) s =
     served a s (svc k c (stub_num (SysConsPuts bs)) va (of_nat (length bs)) 0 (s\<lparr>mem := put_buf a (length bs) (\<lambda>i. bs ! i) (mem s)\<rparr>))"
| "cat_kern k c va a r s = (Gone, s)"

section \<open>The process\<close>

text \<open>
  The process \<open>p\<close> runs on processor \<open>c\<close>, its trap frame and the page \<open>d\<close> with its array are pages of their own,
  and the array lies in the page.
\<close>

definition user_ready :: "u64 \<Rightarrow> u64 list \<Rightarrow> nat \<Rightarrow> nat \<Rightarrow> u64 \<Rightarrow> u64 \<Rightarrow> 'a pst_scheme \<Rightarrow> bool" where
  "user_ready kend xs c p va d s \<longleftrightarrow>
     (let q = procs s ! p; own = (\<lambda>b. page_ok kend b \<and> b \<notin> set xs \<and> b \<notin> tables (mem s) (p_pagetable q)) in
      cpu_proc s c = Some p \<and> vm_inv kend s (p_pagetable q) xs \<and> own (p_tf q) \<and> own d \<and> d \<noteq> p_tf q \<and>
      map_option PTE2PA (xlate (mem s) (p_pagetable q) (PGROUNDDOWN va)) = Some d \<and>
      unat va < 2 ^ 31 \<and> unat va mod 4096 + 513 \<le> 4096)"

definition buf_pa :: "u64 \<Rightarrow> u64 \<Rightarrow> nat" where
  "buf_pa va d = unat d + unat va mod 4096"

lemma buf_pa: 
  assumes "page_ok kend d"
  shows "unat (d + va - PGROUNDDOWN va) = buf_pa va d"
proof -
  have "va - PGROUNDDOWN va = of_nat (unat va mod 4096)"
    by (simp add: word_unat_eq_iff unat_sub word_le_nat_alt unat_PGROUNDDOWN unat_of_nat minus_div_mult_eq_mod)
  then have "d + va - PGROUNDDOWN va = d + of_nat (unat va mod 4096)" by simp
  moreover have "unat (d + of_nat (unat va mod 4096)) = unat d + unat va mod 4096"
  proof -
    have "unat va mod 4096 < 4096" by simp
    then have "unat d + unat va mod 4096 < 2 ^ 64" using page_ok_unat [OF assms] by auto
    then show ?thesis by (simp add: unat_word_ariths unat_of_nat)
  qed
  ultimately show ?thesis by (simp only: buf_pa_def)
qed

lemma ready_write:
  assumes "user_ready kend xs c p va d s" and tf: "tf = unat (p_tf (procs s ! p))"
    and m: "\<And>i. \<not> (tf \<le> i \<and> i < tf + 4096) \<Longrightarrow> \<not> (unat d \<le> i \<and> i < unat d + 4096) \<Longrightarrow> mem s' i = mem s i"
    and "freelist s' = freelist s" "procs s' = procs s" "cpu_proc s' = cpu_proc s"
  shows "user_ready kend xs c p va d s'"
proof -
  let ?pt = "p_pagetable (procs s ! p)" and ?tf = "p_tf (procs s ! p)"
  let ?m = "\<lambda>i. if tf \<le> i \<and> i < tf + 4096 then mem s' i else mem s i"
  have r: "vm_inv kend s ?pt xs" "page_ok kend ?tf" "?tf \<notin> set xs" "?tf \<notin> tables (mem s) ?pt"
    "page_ok kend d" "d \<notin> set xs" "d \<notin> tables (mem s) ?pt" using assms(1) by (auto simp: user_ready_def Let_def)
  have 1: "vm_inv kend (s\<lparr>mem := ?m\<rparr>) ?pt xs \<and> tables ?m ?pt = tables (mem s) ?pt \<and> (\<forall>v. xlate ?m ?pt v = xlate (mem s) ?pt v)"
    by (rule vm_inv_write [OF r(1-4)]) (auto simp: tf)
  have "vm_inv kend (s\<lparr>mem := ?m, mem := mem s'\<rparr>) ?pt xs \<and> tables (mem s') ?pt = tables (mem (s\<lparr>mem := ?m\<rparr>)) ?pt \<and>
    (\<forall>v. xlate (mem s') ?pt v = xlate (mem (s\<lparr>mem := ?m\<rparr>)) ?pt v)"
    by (rule vm_inv_write [OF _ r(5,6)]) (use 1 r(7) m in auto)
  moreover have "vm_inv kend s' ?pt xs = vm_inv kend (s\<lparr>mem := ?m, mem := mem s'\<rparr>) ?pt xs" using assms(4) by (simp add: vm_inv_def kmem_inv_def)
  ultimately show ?thesis using assms(1,5,6) 1 by (simp add: user_ready_def Let_def)
qed

lemma ready_simps:
  assumes "user_ready kend xs c p va d s" and tf: "tf = unat (p_tf (procs s ! p))"
  shows "cpu_proc s c = Some p" and "page_ok kend d" and "unat va < 2 ^ 31" and "upa c va s = Inr (d + va - PGROUNDDOWN va)"
    and "i < 513 \<Longrightarrow> buf_pa va d + i < tf \<or> tf + 4096 \<le> buf_pa va d + i"
    and "i < 513 \<Longrightarrow> unat d \<le> buf_pa va d + i \<and> buf_pa va d + i < unat d + 4096"
proof -
  have r: "cpu_proc s c = Some p" "vm_inv kend s (p_pagetable (procs s ! p)) xs" "page_ok kend (p_tf (procs s ! p))" "page_ok kend d"
    "d \<noteq> p_tf (procs s ! p)" "unat va < 2 ^ 31" "unat va mod 4096 + 513 \<le> 4096"
    using assms(1) by (auto simp: user_ready_def Let_def)
  obtain e where e: "xlate (mem s) (p_pagetable (procs s ! p)) (PGROUNDDOWN va) = Some e" "PTE2PA e = d"
    using assms(1) by (auto simp: user_ready_def Let_def)
  show "upa c va s = Inr (d + va - PGROUNDDOWN va)"
    using upa_mapped [OF r(1,2) PGROUNDDOWN_low [OF r(6)] e(1)] e(2) by simp
  show "i < 513 \<Longrightarrow> unat d \<le> buf_pa va d + i \<and> buf_pa va d + i < unat d + 4096" using r(7) by (simp add: buf_pa_def)
  then show "i < 513 \<Longrightarrow> buf_pa va d + i < tf \<or> tf + 4096 \<le> buf_pa va d + i"
    using page_ok_apart [OF r(4,3,5)] tf by linarith
qed (use assms(1) in \<open>auto simp: user_ready_def Let_def\<close>)

text \<open>The state in which the kernel runs: \<open>n\<close> bytes of the array and the registers are in memory.\<close>

definition called :: "nat \<Rightarrow> nat \<Rightarrow> nat \<Rightarrow> store \<Rightarrow> int \<Rightarrow> u64 \<Rightarrow> u64 \<Rightarrow> u64 \<Rightarrow> 'a pst_scheme \<Rightarrow> 'a pst_scheme" where
  "called p a n buf num x0 x1 x2 s = s\<lparr>mem := save_regs (unat (p_tf (procs s ! p))) num x0 x1 x2 (put_buf a n buf (mem s))\<rparr>"

lemma called_simps [simp]:
  "procs (called p a n buf num x0 x1 x2 s) = procs s" "cpu_proc (called p a n buf num x0 x1 x2 s) = cpu_proc s"
  "freelist (called p a n buf num x0 x1 x2 s) = freelist s" "pst.more (called p a n buf num x0 x1 x2 s) = pst.more s"
  by (simp_all add: called_def)

lemma save_regs_other: "i < tf \<or> tf + 4096 \<le> i \<Longrightarrow> save_regs tf num x0 x1 x2 m i = m i"
  by (elim disjE) (simp_all add: save_regs_def store64_other tf_x_def)

lemma called_regs:
  "tfreg (called p a n buf num x0 x1 x2 s) p 0 = x0" "tfreg (called p a n buf num x0 x1 x2 s) p 1 = x1"
  "tfreg (called p a n buf num x0 x1 x2 s) p 2 = x2" "tfreg (called p a n buf num x0 x1 x2 s) p 8 = word_of_int num"
  by (simp_all add: tfreg_def called_def save_regs_def tf_x_def load_store_disjoint)

lemma called_ready:
  assumes r: "user_ready kend xs c p va d s" and n: "n \<le> 513"
  shows "user_ready kend xs c p va d (called p (buf_pa va d) n buf num x0 x1 x2 s)"
    and "i < n \<Longrightarrow> mem (called p (buf_pa va d) n buf num x0 x1 x2 s) (buf_pa va d + i) = buf i"
proof -
  let ?tf = "unat (p_tf (procs s ! p))"
  note rs = ready_simps [OF r refl]
  show "user_ready kend xs c p va d (called p (buf_pa va d) n buf num x0 x1 x2 s)"
  proof (rule ready_write [OF r refl])
    fix i assume i: "\<not> (?tf \<le> i \<and> i < ?tf + 4096)" "\<not> (unat d \<le> i \<and> i < unat d + 4096)"
    have "\<not> (buf_pa va d \<le> i \<and> i < buf_pa va d + n)" using rs(6) [of 0] rs(6) [of 512] i(2) n by auto
    then show "mem (called p (buf_pa va d) n buf num x0 x1 x2 s) i = mem s i"
      using i(1) save_regs_other [of i ?tf] by (auto simp: called_def put_buf_def not_le not_less)
  qed simp_all
  show "i < n \<Longrightarrow> mem (called p (buf_pa va d) n buf num x0 x1 x2 s) (buf_pa va d + i) = buf i"
    using rs(5) [of i] n save_regs_other [of "buf_pa va d + i" ?tf] by (simp add: called_def put_buf_def)
qed

lemma svc_dispatch:
  fixes s :: "'a fdt_scheme"
  assumes p: "cpu_proc s c = Some p" and num: "0 \<le> num" "num < 2 ^ 31" "num \<noteq> 2"
    and s1_def: "s1 = called p a n buf num x0 x1 x2 s"
  shows "dispatch k c num s1 = Inl e \<Longrightarrow> svc k c num x0 x1 x2 (s\<lparr>mem := put_buf a n buf (mem s)\<rparr>) = Inl e"
    and "dispatch k c num s1 = Inr (x, s2) \<Longrightarrow> procs s2 = procs s \<Longrightarrow> svc k c num x0 x1 x2 (s\<lparr>mem := put_buf a n buf (mem s)\<rparr>) =
      Inr (sint (word_of_int x :: u32), s2\<lparr>mem := store64 (mem s2) (unat (p_tf (procs s ! p))) (word_of_int x)\<rparr>)"
proof -
  have "word_of_int num = (of_nat (nat num) :: u64)" using num(1) by simp
  moreover have "unat (of_nat (nat num) :: u64) = nat num" using num(2) unfolding unat_of_nat by simp
  ultimately have "unat (word_of_int num :: u64) = nat num" by (simp only:)
  then have "sint (ucast (word_of_int num :: u64) :: u32) = num" using small_reg [of "word_of_int num"] num by simp
  then have nr: "sint (ucast (load64 (mem s1) (unat (p_tf (procs s ! p)) + tf_x 8)) :: u32) = num"
    using called_regs(4) [of p a n buf num x0 x1 x2 s] by (simp add: tfreg_def s1_def)
  have sc: "svc k c num x0 x1 x2 (s\<lparr>mem := put_buf a n buf (mem s)\<rparr>) = bindR (syscall k c s1) (\<lambda>s1.
      Inr (sint (ucast (load64 (mem s1) (unat (p_tf (procs s ! p)) + tf_x 0)) :: u32), s1))"
    using p by (simp add: svc_def myproc_def s1_def called_def Let_def)
  have my: "myproc c s1 = Some p" "procs s1 = procs s" using p by (simp_all add: myproc_def s1_def)
  show "dispatch k c num s1 = Inl e \<Longrightarrow> svc k c num x0 x1 x2 (s\<lparr>mem := put_buf a n buf (mem s)\<rparr>) = Inl e"
    unfolding sc using nr num my by (simp add: syscall_def)
  have "(ucast (word_of_int x :: u64) :: u32) = word_of_int x" by transfer simp
  then show "dispatch k c num s1 = Inr (x, s2) \<Longrightarrow> procs s2 = procs s \<Longrightarrow> svc k c num x0 x1 x2 (s\<lparr>mem := put_buf a n buf (mem s)\<rparr>) =
      Inr (sint (word_of_int x :: u32), s2\<lparr>mem := store64 (mem s2) (unat (p_tf (procs s ! p))) (word_of_int x)\<rparr>)"
    unfolding sc using nr num my by (simp add: syscall_def tf_x_def)
qed

section \<open>Output\<close>

lemma fold_consputc: "fold (\<lambda>b. consputc (uint b)) bs s = s\<lparr>uart_out := uart_out s @ bs\<rparr>"
  by (induction bs arbitrary: s) (simp_all add: consputc_byte)

text \<open>
  The kernel prints a string of at most 255 bytes; a longer one does not fit its array, or fills it and leaves no place for
  the 0 that ends it.
\<close>

lemma sys_cons_puts_eq:
  assumes r: "user_ready kend xs c p va d s" and "tfreg s p 0 = va" "tfreg s p 1 = of_nat (length bs)" and n: "length bs \<le> 512"
    and bs: "0 \<notin> set bs" "\<And>i. i < length bs \<Longrightarrow> mem s (buf_pa va d + i) = bs ! i"
  shows "sys_cons_puts c s = (if length bs \<le> 255 then Inr (0, s\<lparr>uart_out := uart_out s @ bs\<rparr>) else Inl OutOfBounds)"
proof -
  note rs = ready_simps [OF r refl]
  have "unat (of_nat (length bs) :: u64) = length bs" using n unfolding unat_of_nat by simp
  then have i: "argint c 1 s = Inr (int (length bs))"
    using argraw_reg [OF rs(1), of 1] small_reg [of "of_nat (length bs)"] assms(3) n by (simp add: argint_def)
  have a: "argaddr c 0 s = Inr (d + va - PGROUNDDOWN va)"
    using argraw_reg [OF rs(1), of 0] small_reg [OF rs(3)] assms(2) rs(4) by (simp add: argaddr_def)
  have "map (\<lambda>i. mem s (buf_pa va d + i)) [0..<length bs] = bs" using bs(2) by (intro nth_equalityI) simp_all
  then have b: "argbytes c 0 256 (int (length bs)) s = (if 256 < length bs then Inl OutOfBounds else Inr bs)"
    using a by (simp add: argbytes_def buf_pa [OF rs(2)])
  have "takeWhile (\<lambda>b. b \<noteq> 0) bs = bs" using bs(1) by (metis (mono_tags) takeWhile_eq_all_conv)
  then show ?thesis using i b bs(1) by (auto simp: sys_cons_puts_def fold_consputc)
qed

lemma cat_puts:
  fixes s :: "'a fdt_scheme"
  assumes r: "user_ready kend xs c p va d s" and n: "length bs \<le> 512" and bs: "0 \<notin> set bs"
  shows "255 < length bs \<Longrightarrow> cat_kern k c va (buf_pa va d) (SysConsPuts bs) s = (Undef, s)"
    and "length bs \<le> 255 \<Longrightarrow> \<exists>b m. cat_kern k c va (buf_pa va d) (SysConsPuts bs) s = (Go (0, b), s\<lparr>mem := m, uart_out := uart_out s @ bs\<rparr>) \<and>
      user_ready kend xs c p va d (s\<lparr>mem := m, uart_out := uart_out s @ bs\<rparr>)"
proof -
  let ?a = "buf_pa va d" and ?tf = "unat (p_tf (procs s ! p))"
  let ?s1 = "called p ?a (length bs) (\<lambda>i. bs ! i) 12 va (of_nat (length bs)) 0 s"
  note rs = ready_simps [OF r refl] and r1 = called_ready [OF r, where n = "length bs" and buf = "\<lambda>i. bs ! i" and num = 12 and ?x0.0 = va and ?x1.0 = "of_nat (length bs)" and ?x2.0 = 0]
  have dp: "dispatch k c 12 ?s1 = (if length bs \<le> 255 then Inr (0, ?s1\<lparr>uart_out := uart_out ?s1 @ bs\<rparr>) else Inl OutOfBounds)"
    using sys_cons_puts_eq [OF r1(1) called_regs(1,2) n bs] r1(2) n by (simp add: dispatch_def)
  note sv = svc_dispatch [OF rs(1), of 12 ?s1 ?a "length bs" "\<lambda>i. bs ! i" va "of_nat (length bs)" 0 k]
  show "255 < length bs \<Longrightarrow> cat_kern k c va ?a (SysConsPuts bs) s = (Undef, s)"
    using sv(1) dp by (simp add: served_def)
  assume le: "length bs \<le> 255"
  let ?m = "store64 (mem ?s1) ?tf 0"
  have u: "uart_out ?s1 = uart_out s" "?s1\<lparr>uart_out := out, mem := m\<rparr> = s\<lparr>mem := m, uart_out := out\<rparr>" for m out by (simp_all add: called_def)
  have "svc k c 12 va (of_nat (length bs)) 0 (s\<lparr>mem := put_buf ?a (length bs) (\<lambda>i. bs ! i) (mem s)\<rparr>) = Inr (0, s\<lparr>mem := ?m, uart_out := uart_out s @ bs\<rparr>)"
    using sv(2) [of 0 "?s1\<lparr>uart_out := uart_out ?s1 @ bs\<rparr>"] dp le u by simp
  moreover have "user_ready kend xs c p va d (s\<lparr>mem := ?m, uart_out := uart_out s @ bs\<rparr>)"
    by (rule ready_write [OF r1(1) refl]) (use n in \<open>auto simp: store64_other\<close>)
  ultimately show "\<exists>b m. cat_kern k c va ?a (SysConsPuts bs) s = (Go (0, b), s\<lparr>mem := m, uart_out := uart_out s @ bs\<rparr>) \<and>
      user_ready kend xs c p va d (s\<lparr>mem := m, uart_out := uart_out s @ bs\<rparr>)"
    by (intro exI [of _ "\<lambda>i. ?m (?a + i)"] exI [of _ ?m]) (simp add: served_def)
qed

section \<open>Input\<close>

text \<open>
  The descriptor \<open>fd\<close> of the process is open on a file of at most 512 bytes, all in the block \<open>bs\<close>, and at most up to \<open>off\<close> has been read.
\<close>

definition small_file :: "nat \<Rightarrow> int \<Rightarrow> byte list \<Rightarrow> nat \<Rightarrow> 'a fdt_scheme \<Rightarrow> bool" where
  "small_file p fd bs off s \<longleftrightarrow>
     0 \<le> fd \<and> fd < int NOFILE \<and> held s \<noteq> {..<length (bufs s)} \<and>
     (case p_fds (procs s ! p) ! nat fd of None \<Rightarrow> False
      | Some f \<Rightarrow> f < length (fds s) \<and>
         (let e = fds s ! f; ip = inodes s ! fd_ip e in
          fd_readable e \<and> fd_type e = FD_FILE \<and> fd_off e = of_nat off \<and> i_type ip \<noteq> T_DEV \<and> i_size ip = of_nat (length bs) \<and>
          length bs \<le> 512 \<and> (\<forall>i < length bs. disk s (i_addrs ip ! 0) i = bs ! i)))"

lemma sys_read_eq:
  assumes r: "user_ready kend xs c p va d s" and "0 \<le> fd" "fd < int NOFILE" and f: "p_fds (procs s ! p) ! nat fd = Some f"
    and regs: "tfreg s p 0 = word_of_int fd" "tfreg s p 1 = va" "tfreg s p 2 = 512"
  shows "sys_read c s = fd_read f (d + va - PGROUNDDOWN va) 512 s"
proof -
  note rs = ready_simps [OF r refl]
  have "word_of_int fd = (of_nat (nat fd) :: u64)" using assms(2) by simp
  moreover have "unat (of_nat (nat fd) :: u64) = nat fd" using assms(3) unfolding unat_of_nat by simp
  ultimately have "unat (word_of_int fd :: u64) = nat fd" by (simp only:)
  then have "argfd c 0 s = Inr fd"
    using argraw_reg [OF rs(1), of 0] small_reg [of "word_of_int fd"] assms(2,3) regs(1) by (simp add: argfd_def)
  moreover have "argint c 2 s = Inr 512" using argraw_reg [OF rs(1), of 2] regs(3) by (simp add: argint_def)
  moreover have "argaddr c 1 s = Inr (d + va - PGROUNDDOWN va)"
    using argraw_reg [OF rs(1), of 1] small_reg [OF rs(3)] regs(2) rs(4) by (simp add: argaddr_def)
  moreover have "ufd c fd s = Inr (Some f)" using rs(1) assms(2,3) f by (simp add: ufd_def cur_def myproc_def)
  ultimately show ?thesis by (simp add: sys_read_def)
qed

text \<open>The first \<^verbatim>\<open>read\<close> gives the whole file, the next one nothing.\<close>

lemma fd_read_small:
  fixes s :: "'a fdt_scheme"
  assumes sf: "small_file p fd bs 0 s" and f: "p_fds (procs s ! p) ! nat fd = Some f" and ne: "bs \<noteq> []"
  shows "\<exists>s'. fd_read f a 512 s = Inr (int (length bs), s') \<and> small_file p fd bs (length bs) s' \<and>
    mem s' = copy_bytes (length bs) (\<lambda>i. bs ! i) 0 (mem s) (unat a) \<and> procs s' = procs s \<and> cpu_proc s' = cpu_proc s \<and>
    freelist s' = freelist s \<and> uart_out s' = uart_out s"
proof -
  let ?i = "fd_ip (fds s ! f)" and ?l = "length bs"
  let ?d = "disk s (i_addrs (inodes s ! ?i) ! 0)"
  have fl: "fd_readable (fds s ! f)" "fd_type (fds s ! f) = FD_FILE" "fd_off (fds s ! f) = 0" "i_type (inodes s ! ?i) \<noteq> T_DEV"
    "i_size (inodes s ! ?i) = of_nat ?l" "?l \<le> 512" "\<And>i. i < ?l \<Longrightarrow> ?d i = bs ! i" "f < length (fds s)"
    using sf f by (auto simp: small_file_def Let_def)
  obtain b where ff: "first_free s b" using sf first_free_iff unfolding small_file_def by blast
  have u: "unat (of_nat ?l :: u32) = ?l" using fl(6) unfolding unat_of_nat by simp
  have cb: "copy_bytes ?l ?d 0 (mem s) (unat a) = copy_bytes ?l (\<lambda>i. bs ! i) 0 (mem s) (unat a)"
    using fl(7) by (auto simp: copy_bytes_at fun_eq_iff)
  have "readi devsw ?i a 0 512 s = Inr (int ?l, drop_buf b ?d (s\<lparr>mem := copy_bytes ?l ?d (unat (0 :: u32) mod 512) (mem s) (unat a)\<rparr>))"
    by (rule readi_one [OF ff fl(4)]) (use fl(5,6) ne u in simp_all)
  then have "readi devsw ?i a 0 512 s = Inr (int ?l, drop_buf b ?d (s\<lparr>mem := copy_bytes ?l (\<lambda>i. bs ! i) 0 (mem s) (unat a)\<rparr>))"
    using cb by simp
  then have "fd_read f a 512 s = Inr (int ?l, upd_fd f (\<lambda>g. g\<lparr>fd_off := fd_off g + word_of_int (int ?l)\<rparr>)
      (drop_buf b ?d (s\<lparr>mem := copy_bytes ?l (\<lambda>i. bs ! i) 0 (mem s) (unat a)\<rparr>)))"
    using fl(1-3) ne by (simp add: fd_read_def Let_def)
  moreover have "held (upd_fd f g (drop_buf b ?d (s\<lparr>mem := m\<rparr>))) = held s" for g m
    using held_drop [of b ?d "s\<lparr>mem := m\<rparr>"] by (simp add: held_def upd_fd_def)
  ultimately show ?thesis
    using sf f fl(8) by (auto simp: small_file_def upd_fd_def drop_buf_def Let_def)
qed

lemma fd_read_end:
  assumes sf: "small_file p fd bs (length bs) s" and f: "p_fds (procs s ! p) ! nat fd = Some f"
  shows "fd_read f a 512 s = Inr (0, s)"
  using sf f readi_loop_end [of 512 "inodes s ! fd_ip (fds s ! f)" "of_nat (length bs)" "unat a" s]
  by (auto simp: small_file_def Let_def fd_read_def readi_def)

lemma fd_read_step:
  fixes s :: "'a fdt_scheme"
  assumes sf: "small_file p fd bs off s" and f: "p_fds (procs s ! p) ! nat fd = Some f" and off: "off = 0 \<and> bs \<noteq> [] \<or> off = length bs"
  obtains s' where "fd_read f a 512 s = Inr (int (length bs) - int off, s')" and "small_file p fd bs (length bs) s'"
    and "procs s' = procs s" and "cpu_proc s' = cpu_proc s" and "freelist s' = freelist s" and "uart_out s' = uart_out s"
    and "mem s' = (if off = 0 then copy_bytes (length bs) (\<lambda>i. bs ! i) 0 (mem s) (unat a) else mem s)"
  using off
proof (elim disjE)
  assume o: "off = 0 \<and> bs \<noteq> []"
  then show thesis using fd_read_small [of p fd bs s f a] sf f that by auto
next
  assume o: "off = length bs"
  then have "fd_read f a 512 s = Inr (0, s)" using fd_read_end [of p fd bs s f a] sf f by simp
  then show thesis using o sf by (intro that [of s]) (simp_all add: copy_bytes_at fun_eq_iff)
qed

lemma small_file_mem [simp]: "small_file p fd bs off (s\<lparr>mem := m\<rparr>) = small_file p fd bs off s"
  by (simp add: small_file_def Let_def split: option.split)

lemma small_file_uart [simp]: "small_file p fd bs off (s\<lparr>uart_out := out\<rparr>) = small_file p fd bs off s"
  by (simp add: small_file_def held_def Let_def split: option.split)

lemma cat_read:
  fixes s :: "'a fdt_scheme"
  assumes r: "user_ready kend xs c p va d s" and sf: "small_file p fd bs off s" and off: "off = 0 \<and> bs \<noteq> [] \<or> off = length bs"
  shows "\<exists>b s'. cat_kern k c va (buf_pa va d) (SysRead fd 512 buf) s = (Go (int (length bs) - int off, b), s') \<and> user_ready kend xs c p va d s' \<and>
    small_file p fd bs (length bs) s' \<and> uart_out s' = uart_out s \<and> (off = 0 \<longrightarrow> (\<forall>i < length bs. b i = bs ! i))"
proof -
  let ?a = "buf_pa va d" and ?tf = "unat (p_tf (procs s ! p))" and ?x = "int (length bs) - int off" and ?pa = "d + va - PGROUNDDOWN va"
  let ?s1 = "called p ?a 513 buf 7 (word_of_int fd) va 512 s"
  obtain f where f: "p_fds (procs s ! p) ! nat fd = Some f" and fd: "0 \<le> fd" "fd < int NOFILE" and l: "length bs \<le> 512"
    using sf by (auto simp: small_file_def Let_def split: option.splits)
  note rs = ready_simps [OF r refl]
    and r1 = called_ready [OF r order.refl, where buf = buf and num = 7 and ?x0.0 = "word_of_int fd" and ?x1.0 = va and ?x2.0 = 512]
  have sf1: "small_file p fd bs off ?s1" using sf by (simp add: called_def)
  have f1: "p_fds (procs ?s1 ! p) ! nat fd = Some f" using f by simp
  obtain s2 where s2: "fd_read f ?pa 512 ?s1 = Inr (?x, s2)" "small_file p fd bs (length bs) s2" "procs s2 = procs ?s1" "cpu_proc s2 = cpu_proc ?s1"
    "freelist s2 = freelist ?s1" "uart_out s2 = uart_out ?s1"
    "mem s2 = (if off = 0 then copy_bytes (length bs) (\<lambda>i. bs ! i) 0 (mem ?s1) (unat ?pa) else mem ?s1)"
    by (rule fd_read_step [OF sf1 f1 off])
  note mem2 = s2(7) [unfolded buf_pa [OF rs(2)]]
  let ?s3 = "s2\<lparr>mem := store64 (mem s2) ?tf (word_of_int ?x)\<rparr>"
  have "dispatch k c 7 ?s1 = Inr (?x, s2)"
    using sys_read_eq [OF r1(1) fd _ called_regs(1-3), of f] f s2(1) by (simp add: dispatch_def)
  moreover have "sint (word_of_int ?x :: u32) = ?x"
    using sint_of_nat32 [of "length bs - off"] off l by auto
  ultimately have k: "cat_kern k c va ?a (SysRead fd 512 buf) s = (Go (?x, \<lambda>i. mem ?s3 (?a + i)), ?s3)"
    using svc_dispatch(2) [OF rs(1), where num = 7 and ?s1.0 = ?s1 and a = ?a and n = 513 and buf = buf and ?x0.0 = "word_of_int fd"
      and ?x1.0 = va and ?x2.0 = 512 and k = k and x = ?x and ?s2.0 = s2] s2(3) by (simp add: served_def)
  have "user_ready kend xs c p va d ?s3"
  proof (rule ready_write [OF r1(1) refl])
    fix i assume i: "\<not> (unat (p_tf (procs ?s1 ! p)) \<le> i \<and> i < unat (p_tf (procs ?s1 ! p)) + 4096)" "\<not> (unat d \<le> i \<and> i < unat d + 4096)"
    then show "mem ?s3 i = mem ?s1 i"
      using rs(6) [of 0] rs(6) [of 512] l by (auto simp: mem2 store64_other copy_bytes_at)
  qed (use s2 in simp_all)
  moreover have "mem ?s3 (?a + i) = bs ! i" if "off = 0" "i < length bs" for i
    using that rs(5) [of i] l by (auto simp: mem2 store64_other copy_bytes_at)
  moreover have "uart_out ?s3 = uart_out s" using s2(6) by (simp add: called_def)
  ultimately show ?thesis using k s2(2) by (intro exI [of _ "\<lambda>i. mem ?s3 (?a + i)"] exI [of _ ?s3]) simp
qed

section \<open>The program\<close>

text \<open>
  The kernel keeps what the interface promises, for strings of up to 255 bytes: what is left of the file is given by the offset of the descriptor.
\<close>

definition unread :: "nat \<Rightarrow> int \<Rightarrow> byte list \<Rightarrow> 'a fdt_scheme \<Rightarrow> byte list" where
  "unread p fd bs s = drop (unat (fd_off (fds s ! the (p_fds (procs s ! p) ! nat fd)))) bs"

definition cat_ready :: "u64 \<Rightarrow> u64 list \<Rightarrow> nat \<Rightarrow> nat \<Rightarrow> u64 \<Rightarrow> u64 \<Rightarrow> int \<Rightarrow> byte list \<Rightarrow> 'a fdt_scheme \<Rightarrow> bool" where
  "cat_ready kend xs c p va d fd bs s \<longleftrightarrow> user_ready kend xs c p va d s \<and> (small_file p fd bs 0 s \<or> small_file p fd bs (length bs) s)"

lemma unread_small:
  assumes "small_file p fd bs off s" and "off \<le> length bs"
  shows "unread p fd bs s = drop off bs" and "length bs \<le> 512"
proof -
  show "length bs \<le> 512" using assms(1) by (auto simp: small_file_def Let_def split: option.splits)
  then have "unat (of_nat off :: u32) = off" using assms(2) unfolding unat_of_nat by simp
  then show "unread p fd bs s = drop off bs" using assms(1) by (auto simp: unread_def small_file_def Let_def split: option.splits)
qed

interpretation cat_io: file_kernel "cat_kern k c va (buf_pa va d)" fd 255 "cat_ready kend xs c p va d fd bs" "unread p fd bs" uart_out
  for k c va d fd kend xs p bs
proof unfold_locales
  fix w :: "'a fdt_scheme" and buf
  assume "cat_ready kend xs c p va d fd bs w"
  then obtain off where r: "user_ready kend xs c p va d w" "small_file p fd bs off w" and off: "off = 0 \<and> bs \<noteq> [] \<or> off = length bs"
    unfolding cat_ready_def by (cases "bs = []") auto
  note u = unread_small [OF r(2)]
  obtain b w' where k: "cat_kern k c va (buf_pa va d) (SysRead fd 512 buf) w = (Go (int (length bs) - int off, b), w')"
    "user_ready kend xs c p va d w'" "small_file p fd bs (length bs) w'" "uart_out w' = uart_out w" "off = 0 \<longrightarrow> (\<forall>i < length bs. b i = bs ! i)"
    using cat_read [OF r off] by blast
  show "\<exists>b w'. cat_kern k c va (buf_pa va d) (SysRead fd 512 buf) w = (Go (int (min 512 (length (unread p fd bs w))), b), w') \<and>
      cat_ready kend xs c p va d fd bs w' \<and> unread p fd bs w' = drop 512 (unread p fd bs w) \<and> uart_out w' = uart_out w \<and>
      (\<forall>i < min 512 (length (unread p fd bs w)). b i = unread p fd bs w ! i)"
    using k u off unread_small [OF k(3)] by (intro exI [of _ b] exI [of _ w']) (auto simp: cat_ready_def)
next
  fix w :: "'a fdt_scheme" and cs :: "byte list"
  assume a: "cat_ready kend xs c p va d fd bs w" "length cs \<le> 255" "length cs \<le> 512" "0 \<notin> set cs"
  then obtain b m where "cat_kern k c va (buf_pa va d) (SysConsPuts cs) w = (Go (0, b), w\<lparr>mem := m, uart_out := uart_out w @ cs\<rparr>)"
    "user_ready kend xs c p va d (w\<lparr>mem := m, uart_out := uart_out w @ cs\<rparr>)"
    using cat_puts(2) [of kend xs c p va d w cs k] by (auto simp: cat_ready_def)
  then show "\<exists>b w'. cat_kern k c va (buf_pa va d) (SysConsPuts cs) w = (Go (0, b), w') \<and> cat_ready kend xs c p va d fd bs w' \<and>
      unread p fd bs w' = unread p fd bs w \<and> uart_out w' = uart_out w @ cs"
    using a(1) by (intro exI [of _ b] exI [of _ "w\<lparr>mem := m, uart_out := uart_out w @ cs\<rparr>"]) (simp add: cat_ready_def unread_def)
next
  fix w :: "'a fdt_scheme" and cs :: "byte list"
  assume "cat_ready kend xs c p va d fd bs w" "255 < length cs" "length cs \<le> 512" "0 \<notin> set cs"
  then show "\<exists>w'. cat_kern k c va (buf_pa va d) (SysConsPuts cs) w = (Undef, w')"
    using cat_puts(1) [of kend xs c p va d w cs k] by (auto simp: cat_ready_def)
qed

text \<open>
  C7. \<^verbatim>\<open>cat\<close> on the kernel. For a file of at most 512 bytes, none of them 0, the loop of \<^verbatim>\<open>cat\<close> with its calls of \<^verbatim>\<open>read\<close>
  and \<^verbatim>\<open>cons_puts\<close> served by \<^verbatim>\<open>syscall\<close> ends after at most two rounds and has sent the bytes of the file, and no others but the kernel's messages about itself,
  to the serial port, when the file has at most 255 bytes; with a longer file, the first call of \<^verbatim>\<open>cons_puts\<close> runs past the array of 256
  bytes on the kernel stack.
\<close>

theorem cat_prints_small_file:
  assumes r: "user_ready kend xs c p va d s" and sf: "small_file p fd bs 0 s" and nz: "0 \<notin> set bs"
  shows "if length bs \<le> 255
    then \<exists>buf' s'. cat_loop (Suc (Suc n)) (cat_kern k c va (buf_pa va d)) fd buf s = (Go buf', s') \<and> uart_out s' = uart_out s @ bs
    else fst (cat_loop (Suc (Suc n)) (cat_kern k c va (buf_pa va d)) fd buf s) = Undef"
proof -
  have ok: "cat_ready kend xs c p va d fd bs s" "unread p fd bs s = bs" using r sf unread_small [OF sf] by (simp_all add: cat_ready_def)
  then show ?thesis
    using nz cat_io.cat_prints [OF ok(1), of "Suc n" k buf] cat_io.cat_overruns [OF ok(1), of "Suc n" k buf] by auto
qed

text \<open>A process with a file of two bytes open as its descriptor 0.\<close>

definition demo_cat :: fdt where
  "demo_cat = demo_fork\<lparr>procs := [(procs demo_fork ! 0)\<lparr>p_fds := [Some 0]\<rparr>], cpu_proc := (\<lambda>_. Some 0),
     bufs := [\<lparr>bflags = 0, bdata = (\<lambda>_. 0)\<rparr>], disk := (\<lambda>_ i. if i = 0 then 0x48 else 0x69),
     inodes := [\<lparr>i_dev = 1, i_major = 0, i_minor = 0, i_inum = 2, i_count = 1, i_busy = 0, i_type = T_FILE, i_nlink = 1, i_size = 2,
       i_addrs = replicate 32 40\<rparr>],
     fds := [closed_fd\<lparr>fd_type := FD_FILE, fd_ref := 1, fd_readable := True\<rparr>], uart_out := []\<rparr>"

theorem cat_prints_small_file_witness:
  "\<exists>d buf' s'. cat_loop 3 (cat_kern (kenv.truncate demo_tenv) 0 0 (buf_pa 0 d)) 0 (\<lambda>_. 0) demo_cat = (Go buf', s') \<and> uart_out s' = [0x48, 0x69]"
proof -
  obtain n xs e where fk: "forkable 0x7000000 0 demo_fork n xs"
    and ps: "procs demo_fork = (replicate NPROC idle_proc)[0 := idle_proc\<lparr>p_state := RUNNING, p_pagetable := p_pagetable (procs demo_fork ! 0),
      p_tf := p_tf (procs demo_fork ! 0)\<rparr>]"
    and x: "xlate (mem demo_fork) (p_pagetable (procs demo_fork ! 0)) 0 = Some e" and ne: "PTE2PA e \<noteq> p_tf (procs demo_fork ! 0)"
    by (rule demo_fork_facts)
  let ?pt = "p_pagetable (procs demo_fork ! 0)" and ?tf = "p_tf (procs demo_fork ! 0)" and ?d = "PTE2PA e"
  have "p_sz (procs demo_fork ! 0) = 0" by (subst ps, simp add: idle_proc_def)
  then have f: "vm_inv 0x7000000 demo_fork ?pt (n # xs)" "page_ok 0x7000000 ?tf" "?tf \<notin> set (n # xs)" "?tf \<notin> tables (mem demo_fork) ?pt"
    "page_ok 0x7000000 ?d" "?d \<notin> set (n # xs)" "?d \<notin> tables (mem demo_fork) ?pt"
    using fk x by (auto simp: forkable_def fork_pages_def)
  have q: "p_pagetable (procs demo_cat ! 0) = ?pt" "p_tf (procs demo_cat ! 0) = ?tf" "mem demo_cat = mem demo_fork" "cpu_proc demo_cat 0 = Some 0"
    "vm_inv 0x7000000 demo_cat ?pt (n # xs) = vm_inv 0x7000000 demo_fork ?pt (n # xs)" "PGROUNDDOWN 0 = 0"
    by (simp_all add: demo_cat_def vm_inv_def kmem_inv_def PGROUNDDOWN_def)
  have "user_ready 0x7000000 (n # xs) 0 0 0 ?d demo_cat"
    unfolding user_ready_def Let_def q x using f ne by simp
  moreover have "held demo_cat \<noteq> {..<length (bufs demo_cat)}"
    by (simp add: held_full_iff) (simp add: demo_cat_def busy_def)
  then have "small_file 0 0 [0x48, 0x69] 0 demo_cat"
    unfolding small_file_def by (simp add: demo_cat_def Let_def closed_fd_def less_Suc_eq)
  ultimately show ?thesis
    using cat_prints_small_file [of "0x7000000" "n # xs" 0 0 0 "PTE2PA e" demo_cat 0 "[0x48, 0x69]" 1 "kenv.truncate demo_tenv" "\<lambda>_. 0"]
    by (auto simp: demo_cat_def numeral_3_eq_3)
qed

end
