(* ===== verification/Sd_Wait.thy ===== *)
theory Sd_Wait
  imports Prelude
begin

text \<open>
  The delays of the SD card driver, \<^verbatim>\<open>wait_cycles\<close> and \<^verbatim>\<open>wait_msec\<close> of \<^verbatim>\<open>kernel/sdhci.c\<close>. The counter of the processor
  is not part of the program: \<open>cnt k\<close> is what its \<open>k\<close>-th reading gives.
\<close>

section \<open>Delays\<close>

text \<open>The number of idle instructions; the variable \<^verbatim>\<open>n\<close> is counted down past 0 and wraps.\<close>

function wait_cycles_loop :: "u32 \<Rightarrow> nat \<Rightarrow> nat" where
  "wait_cycles_loop n k = (if n \<noteq> 0 then wait_cycles_loop (n - 1) (Suc k) else k)"
  by pat_completeness auto
termination
  by (relation "measure (\<lambda>(n, k). unat n)") (auto simp: unat_minus_one unat_gt_0)

declare wait_cycles_loop.simps [simp del]

definition wait_cycles_code :: "u32 \<Rightarrow> nat" where
  "wait_cycles_code n = (if n \<noteq> 0 then wait_cycles_loop n 0 else 0)"

partial_function (option) wait_loop :: "(nat \<Rightarrow> u64) \<Rightarrow> u64 \<Rightarrow> u64 \<Rightarrow> nat \<Rightarrow> nat option" where
  "wait_loop cnt t i k = (if cnt k - t < i then wait_loop cnt t i (Suc k) else Some k)"

definition wait_count :: "u64 \<Rightarrow> u32 \<Rightarrow> u64" where
  "wait_count f n = ((f div 1000) * ucast n) div 1000"

text \<open>The number of the reading that ended the loop.\<close>

definition wait_msec_code :: "u64 \<Rightarrow> (nat \<Rightarrow> u64) \<Rightarrow> u32 \<Rightarrow> nat option" where
  "wait_msec_code f cnt n = wait_loop cnt (cnt 0) (wait_count f n) 1"

section \<open>They end\<close>

lemma wait_cycles_count: "wait_cycles_code n = unat n"
proof -
  have "wait_cycles_loop n k = unat n + k" for k
  proof (induction n k rule: wait_cycles_loop.induct)
    case (1 n k)
    show ?case
    proof (cases "n = 0")
      case False
      then have "unat (n - 1) = unat n - 1" "0 < unat n" by (simp_all add: unat_minus_one unat_gt_0)
      then show ?thesis using 1 [OF False] False by (subst wait_cycles_loop.simps) simp
    qed (subst wait_cycles_loop.simps, simp)
  qed
  then show ?thesis by (simp add: wait_cycles_code_def)
qed

text \<open>
  The counter as the architecture describes it: the low 64 bits of a count that never runs backwards, does not
  stand still for ever, and between two readings of the loop advances by at most \<open>S\<close>.
\<close>

definition counts :: "(nat \<Rightarrow> nat) \<Rightarrow> nat \<Rightarrow> bool" where
  "counts T S \<longleftrightarrow> (\<forall>k. T k \<le> T (Suc k) \<and> T (Suc k) \<le> T k + S) \<and> (\<forall>b. \<exists>k. b \<le> T k)"

lemma counts_mono: "counts T S \<Longrightarrow> j \<le> k \<Longrightarrow> T j \<le> T k"
  by (rule lift_Suc_mono_le [of T]) (auto simp: counts_def)

lemma unat_elapsed: "a \<le> b \<Longrightarrow> b - a < 2 ^ 64 \<Longrightarrow> unat ((of_nat b :: u64) - of_nat a) = b - a"
proof -
  assume "a \<le> b" and lt: "b - a < 2 ^ 64"
  then have "(of_nat b :: u64) - of_nat a = of_nat (b - a)" by simp
  then show ?thesis using lt by (simp only: unat_of_nat) simp
qed

lemma wait_loop_ends:
  assumes c: "counts T S" and i: "unat i + S < 2 ^ 64" and k: "T (k - 1) < T 0 + unat i \<or> k = 1" "0 < k"
  shows "\<exists>j. wait_loop (\<lambda>k. of_nat (T k)) (of_nat (T 0)) i k = Some j \<and> k \<le> j \<and> T 0 + unat i \<le> T j \<and> (\<forall>x. k \<le> x \<longrightarrow> x < j \<longrightarrow> T x < T 0 + unat i)"
proof -
  obtain b where "T 0 + unat i \<le> T b" using c by (auto simp: counts_def)
  then have ex: "\<exists>j. k \<le> j \<and> T 0 + unat i \<le> T j" using counts_mono [OF c, of b "max b k"] by (intro exI [of _ "max b k"]) auto
  define j where "j = (LEAST j. k \<le> j \<and> T 0 + unat i \<le> T j)"
  have j: "k \<le> j" "T 0 + unat i \<le> T j" "\<And>x. k \<le> x \<Longrightarrow> x < j \<Longrightarrow> T x < T 0 + unat i"
    using LeastI_ex [OF ex] not_less_Least [of _ "\<lambda>j. k \<le> j \<and> T 0 + unat i \<le> T j"] unfolding j_def by (auto simp: not_le [symmetric])
  have "wait_loop (\<lambda>k. of_nat (T k)) (of_nat (T 0)) i x = Some j" if "k \<le> x" "x \<le> j" for x
    using that
  proof (induction "j - x" arbitrary: x)
    case 0
    then have x: "x = j" by simp
    have "T (j - 1) \<le> T 0 + unat i"
    proof (cases "j = k")
      case True
      then show ?thesis using k by auto
    next
      case False
      then have "T (j - 1) < T 0 + unat i" using j(1) k(2) by (intro j(3)) simp_all
      then show ?thesis by simp
    qed
    moreover have "T j \<le> T (j - 1) + S" using c j(1) k(2) by (cases j) (auto simp: counts_def)
    ultimately have "T j - T 0 < 2 ^ 64" using i by linarith
    then have "unat ((of_nat (T j) :: u64) - of_nat (T 0)) = T j - T 0" using j(2) by (intro unat_elapsed) simp_all
    then have "\<not> (of_nat (T j) :: u64) - of_nat (T 0) < i" using j(2) by (simp add: word_less_nat_alt)
    then show ?case by (subst wait_loop.simps) (simp add: x)
  next
    case (Suc r)
    then have lt: "T x < T 0 + unat i" using j(3) [of x] by simp
    then have "T x - T 0 < 2 ^ 64" using i by linarith
    then have "unat ((of_nat (T x) :: u64) - of_nat (T 0)) = T x - T 0" using counts_mono [OF c, of 0 x] by (intro unat_elapsed) simp_all
    then have "(of_nat (T x) :: u64) - of_nat (T 0) < i" using lt counts_mono [OF c, of 0 x] by (simp add: word_less_nat_alt)
    then show ?case using Suc by (subst wait_loop.simps) simp
  qed
  then show ?thesis using j by blast
qed

text \<open>
  C36. The delay ends and is long enough: with every counter that runs as documented, \<^verbatim>\<open>wait_msec\<close> returns after the first reading
  at which the count has advanced by the number computed from the frequency, also when the 64 bits of the counter wrap
  around meanwhile.
\<close>

theorem wait_msec_waits:
  assumes "counts T S" and "unat (wait_count f n) + S < 2 ^ 64"
  shows "\<exists>j. wait_msec_code f (\<lambda>k. of_nat (T k)) n = Some j \<and> T 0 + unat (wait_count f n) \<le> T j \<and>
    (\<forall>x. 0 < x \<longrightarrow> x < j \<longrightarrow> T x < T 0 + unat (wait_count f n))"
proof -
  have "\<exists>j. wait_loop (\<lambda>k. of_nat (T k)) (of_nat (T 0)) (wait_count f n) 1 = Some j \<and> 1 \<le> j \<and> T 0 + unat (wait_count f n) \<le> T j \<and>
      (\<forall>x. 1 \<le> x \<longrightarrow> x < j \<longrightarrow> T x < T 0 + unat (wait_count f n))"
    by (rule wait_loop_ends [OF assms]) simp_all
  then show ?thesis by (auto simp: wait_msec_code_def Suc_le_eq)
qed

theorem wait_msec_waits_witness:
  "\<exists>j. wait_msec_code 54000000 (\<lambda>k. of_nat (2 ^ 64 - 20 + 7 * k)) 1 = Some j \<and> 54 \<le> 7 * j"
proof -
  have "wait_count 54000000 1 = 54" by (simp add: wait_count_def)
  moreover have "counts (\<lambda>k. 2 ^ 64 - 20 + 7 * k) 7"
  proof -
    have "\<exists>k. b \<le> 2 ^ 64 - 20 + 7 * k" for b :: nat by (intro exI [of _ b]) simp
    then show ?thesis by (simp add: counts_def)
  qed
  ultimately show ?thesis using wait_msec_waits [of "\<lambda>k. 2 ^ 64 - 20 + 7 * k" 7 54000000 1] by auto
qed

end
