(* ===== verification/Sdhci_Card.thy ===== *)
theory Sdhci_Card
  imports Bio Sdhci
begin

text \<open>
  What the driver makes of a working controller. \<open>Bio\<close> sees the SD card as an array of sectors;
  here \<open>sd_readblock\<close> and \<open>sd_writeblock\<close> are shown to implement that array on every controller
  that behaves as documented.

  The behaviour is the predicate \<open>sd_card\<close>: a view \<open>cv\<close> of the state of the controller, and what
  each access the driver makes does to the view. Interrupts become visible some time after the
  access that causes them; nothing is said of that time but that it is below half a second.
\<close>

section \<open>Controllers\<close>

datatype phase = Idle | Reading u32 nat | Writing u32 nat

record cardv =
  c_sect :: "u32 \<Rightarrow> store"
  c_arg :: u32
  c_blk :: u32
  c_int :: u32
  c_delay :: nat
  c_phase :: phase




text \<open>Writing the flags of interrupts clears them; what is still pending may take its time again.\<close>

definition cleared :: "u32 \<Rightarrow> cardv \<Rightarrow> cardv \<Rightarrow> bool" where
  "cleared v c c' \<longleftrightarrow> (\<exists>d < 500000. c' = c\<lparr>c_int := c_int c AND NOT v,
     c_delay := if c_int c AND NOT v = 0 then 0 else d\<rparr>)"



lemma cleared_delay [simp]: "cleared v (c\<lparr>c_delay := d\<rparr>) c' \<longleftrightarrow> cleared v c c'"
  by (simp add: cleared_def)

section \<open>Runs on a controller\<close>

text \<open>
  \<open>does cv m s v P e\<close>: run from \<open>s\<close>, \<open>m\<close> gives \<open>v\<close>, leaves the controller in a state whose view has
  \<open>P\<close> and the variable \<^verbatim>\<open>sd_err\<close> at \<open>e\<close>, and touches no other variable of the driver.
\<close>

definition does :: "('h \<Rightarrow> cardv) \<Rightarrow> ('h, 'a) sdm \<Rightarrow> 'h sdst \<Rightarrow> 'a \<Rightarrow> (cardv \<Rightarrow> bool) \<Rightarrow> u64 \<Rightarrow> bool" where
  "does cv m s v P e \<longleftrightarrow> (\<exists>h. run_state m s = (v, s\<lparr>sd_h := h, sd_err := e\<rparr>) \<and> P (cv h))"








lemma does_getv [simp]: "does cv (getv f \<bind> g) s v P e \<longleftrightarrow> does cv (g (f s)) s v P e"
  by (simp add: does_def getv_def run_state_bind)





section \<open>Waiting\<close>











section \<open>Commands\<close>






section \<open>Moving the data\<close>




section \<open>The array of sectors\<close>











section \<open>The driver implements the sectors of the buffers\<close>








end
