(* ===== verification/Mkfs.thy ===== *)
theory Mkfs
  imports Fs
begin

text \<open>
  The program that makes the image of the file system, \<^verbatim>\<open>mkfs/mkfs.c\<close>. It runs on the host and shares
  \<^verbatim>\<open>include/fs.h\<close> with the kernel. The state \<open>mkst\<close> is the image file (its bytes and its length)
  and the global variables; the operations have the prefix \<open>mk\<close> where the kernel has one of the same name.

  A failed \<^verbatim>\<open>assert\<close> and \<^verbatim>\<open>exit(1)\<close> are the error value \<open>Panic\<close>. Writing the image is taken to succeed;
  reading beyond its end fails as it does on the host. \<^verbatim>\<open>wsect(1, &sb)\<close> writes 512 bytes from a
  structure of 12, so what follows the structure in memory is an argument of \<open>mk_main\<close>. The files
  to put on the image are given by their paths and contents; the contents are \<open>None\<close> when the
  file cannot be opened, which the program reports and goes on.
\<close>

section \<open>Sectors of the image\<close>

record mkst =
  fimg :: store
  flen :: nat
  freeblock :: u32
  usedblocks :: u32
  bitblocks :: u32
  freeinode :: u32

definition wsect :: "u32 \<Rightarrow> store \<Rightarrow> mkst \<Rightarrow> mkst" where
  "wsect sec buf s = (let off = unat (sec * 512)
     in s\<lparr>fimg := blit 512 buf 0 (fimg s) off, flen := max (flen s) (off + 512)\<rparr>)"

definition rsect :: "u32 \<Rightarrow> mkst \<Rightarrow> store result" where
  "rsect sec s = (let off = unat (sec * 512)
     in if off + 512 \<le> flen s then Inr (\<lambda>i. fimg s (off + i)) else Inl (Panic ''read error''))"

section \<open>Inodes\<close>

definition i2b :: "u32 \<Rightarrow> u32" where
  "i2b inum = ucast ((ucast inum :: u64) div 3 + 2)"

record dinode =
  di_type :: u16
  di_major :: u16
  di_minor :: u16
  di_nlink :: u16
  di_size :: u32
  di_addrs :: "u32 list"

fun put_words :: "u32 list \<Rightarrow> nat \<Rightarrow> store \<Rightarrow> store" where
  "put_words [] a d = d"
| "put_words (w # ws) a d = put_words ws (a + 4) (store32 d a w)"

definition put_dinode :: "dinode \<Rightarrow> nat \<Rightarrow> store \<Rightarrow> store" where
  "put_dinode di o' d = put_words (di_addrs di) (o' + 12)
     (store32 (store16 (store16 (store16 (store16 d o' (di_type di)) (o' + 2) (di_major di)) (o' + 4) (di_minor di))
       (o' + 6) (di_nlink di)) (o' + 8) (di_size di))"

definition get_dinode :: "store \<Rightarrow> nat \<Rightarrow> dinode" where
  "get_dinode d o' = \<lparr>di_type = load16 d o', di_major = load16 d (o' + 2), di_minor = load16 d (o' + 4),
     di_nlink = load16 d (o' + 6), di_size = load32 d (o' + 8),
     di_addrs = map (\<lambda>k. load32 d (o' + 12 + 4 * k)) [0..<NDIRECT + 1]\<rparr>"

definition winode :: "u32 \<Rightarrow> dinode \<Rightarrow> mkst \<Rightarrow> mkst result" where
  "winode inum ip s =
     bindR (rsect (i2b inum) s) (\<lambda>buf. Inr (wsect (i2b inum) (put_dinode ip (dinode_off inum) buf) s))"

definition rinode :: "u32 \<Rightarrow> mkst \<Rightarrow> dinode result" where
  "rinode inum s = bindR (rsect (i2b inum) s) (\<lambda>buf. Inr (get_dinode buf (dinode_off inum)))"

definition mk_ialloc :: "u16 \<Rightarrow> mkst \<Rightarrow> (u32 \<times> mkst) result" where
  "mk_ialloc type s =
     (let inum = freeinode s; s1 = s\<lparr>freeinode := freeinode s + 1\<rparr>;
        din = \<lparr>di_type = type, di_major = 0, di_minor = 0, di_nlink = 1, di_size = 0, di_addrs = replicate 32 0\<rparr>
      in bindR (winode inum din s1) (\<lambda>s2. Inr (inum, s2)))"

section \<open>The bitmap\<close>

text \<open>The loop over the blocks in use; beyond 4096 blocks it writes past its buffer.\<close>

fun mark_used :: "nat \<Rightarrow> store" where
  "mark_used 0 = (\<lambda>_. 0)"
| "mark_used (Suc i) = (mark_used i)(i div 8 := mark_used i (i div 8) OR push_bit (i mod 8) 1)"

definition mk_balloc :: "nat \<Rightarrow> mkst \<Rightarrow> mkst result" where
  "mk_balloc used s = (if 4096 < used then Inl OutOfBounds else Inr (wsect (100 div 3 + 3) (mark_used used) s))"

section \<open>Appending to a file\<close>

text \<open>\<^verbatim>\<open>freeblock++\<close> with the count of the blocks in use.\<close>

definition take_block :: "mkst \<Rightarrow> mkst" where
  "take_block s = s\<lparr>freeblock := freeblock s + 1, usedblocks := usedblocks s + 1\<rparr>"

definition addr_block :: "nat \<Rightarrow> dinode \<Rightarrow> mkst \<Rightarrow> dinode \<times> mkst" where
  "addr_block k din s =
     (if di_addrs din ! k = 0 then (din\<lparr>di_addrs := (di_addrs din)[k := freeblock s]\<rparr>, take_block s) else (din, s))"

text \<open>The block of the file that has number \<open>fbn\<close>, directly or through the indirect block.\<close>

definition file_block :: "u32 \<Rightarrow> dinode \<Rightarrow> mkst \<Rightarrow> (u32 \<times> dinode \<times> mkst) result" where
  "file_block fbn din s =
     (if fbn < 31
      then case addr_block (unat fbn) din s of (din1, s1) \<Rightarrow> Inr (di_addrs din1 ! unat fbn, din1, s1)
      else if \<not> fbn - 31 < 128 then Inl (Panic ''assert'')
      else case addr_block NDIRECT din s of (din1, s1) \<Rightarrow>
        bindR (rsect (di_addrs din1 ! NDIRECT) s1) (\<lambda>ib.
          let o' = 4 * unat (fbn - 31);
            (ib1, s2) = (if load32 ib o' = 0 then (store32 ib o' (freeblock s1), take_block s1) else (ib, s1))
          in Inr (load32 ib1 o', din1, wsect (di_addrs din1 ! NDIRECT) ib1 s2)))"

definition room :: "u32 \<Rightarrow> nat" where
  "room off = unat ((off div 512 + 1) * 512 - off)"

definition bytes_store :: "byte list \<Rightarrow> store" where
  "bytes_store p = (\<lambda>i. if i < length p then p ! i else 0)"

lemma room_pos: "0 < room off"
proof -
  have "(off div 512 + 1) * 512 - off \<noteq> 0"
  proof
    assume "(off div 512 + 1) * 512 - off = 0"
    then have "off div 512 * 512 + 512 = off div 512 * 512 + off mod 512"
      unfolding div_mult_mod_eq by (simp add: algebra_simps)
    then have "off mod 512 = 512" by simp
    moreover have "off mod 512 < 512" by (rule word_mod_less_divisor) simp
    ultimately show False by simp
  qed
  then show ?thesis by (simp add: room_def unat_gt_0)
qed

function iappend_loop :: "dinode \<Rightarrow> u32 \<Rightarrow> byte list \<Rightarrow> mkst \<Rightarrow> (dinode \<times> u32 \<times> mkst) result" where
  "iappend_loop din off p s =
     (if p = [] then Inr (din, off, s)
      else bindR (file_block (off div 512) din s) (\<lambda>(wbn, din1, s1).
        let n1 = min (length p) (room off) in
        bindR (rsect wbn s1) (\<lambda>buf.
          let buf1 = blit n1 (bytes_store p) 0 buf (unat (off - off div 512 * 512))
          in iappend_loop din1 (off + of_nat n1) (drop n1 p) (wsect wbn buf1 s1))))"
  by pat_completeness auto
termination
  by (relation "measure (\<lambda>(din, off, p, s). length p)") (auto simp: room_pos)

declare iappend_loop.simps [simp del]

definition iappend :: "u32 \<Rightarrow> byte list \<Rightarrow> mkst \<Rightarrow> mkst result" where
  "iappend inum p s =
     bindR (rinode inum s) (\<lambda>din.
     bindR (iappend_loop din (di_size din) p s) (\<lambda>(din1, off, s1). winode inum (din1\<lparr>di_size := off\<rparr>) s1))"

section \<open>The program\<close>

text \<open>A directory entry; a name that does not fit with its terminating 0 is copied past the structure.\<close>

definition dirent_bytes :: "u32 \<Rightarrow> byte list \<Rightarrow> byte list result" where
  "dirent_bytes inum name =
     (if length name < DIRSIZ
      then Inr (ucast inum # ucast (drop_bit 8 inum) # name @ replicate (DIRSIZ - length name) 0)
      else Inl OutOfBounds)"

text \<open>\<^verbatim>\<open>strrchr(path, '/') + 1\<close>\<close>

definition base_name :: "byte list \<Rightarrow> byte list result" where
  "base_name path = (if 47 \<in> set path then Inr (rev (takeWhile (\<lambda>c. c \<noteq> 47) (rev path))) else Inl NullDeref)"

text \<open>\<^verbatim>\<open>while ((cc = read(fd, buf, sizeof(buf))) > 0) iappend(inum, buf, cc);\<close>\<close>

function append_file :: "u32 \<Rightarrow> byte list \<Rightarrow> mkst \<Rightarrow> mkst result" where
  "append_file inum p s =
     (if p = [] then Inr s else bindR (iappend inum (take 512 p) s) (append_file inum (drop 512 p)))"
  by pat_completeness auto
termination
  by (relation "measure (\<lambda>(inum, p, s). length p)") auto

declare append_file.simps [simp del]

definition add_entry :: "u32 \<Rightarrow> u32 \<Rightarrow> byte list \<Rightarrow> mkst \<Rightarrow> mkst result" where
  "add_entry rootino inum name s = bindR (dirent_bytes inum name) (\<lambda>de. iappend rootino de s)"

fun add_files :: "u32 \<Rightarrow> (byte list \<times> byte list option) list \<Rightarrow> mkst \<Rightarrow> mkst result" where
  "add_files rootino [] s = Inr s"
| "add_files rootino ((path, contents) # fs) s =
     bindR (mk_ialloc T_FILE s) (\<lambda>(inum, s1).
     bindR (base_name path) (\<lambda>name.
     bindR (add_entry rootino inum name s1) (\<lambda>s2.
     bindR (case contents of None \<Rightarrow> Inr s2 | Some p \<Rightarrow> append_file inum p s2) (add_files rootino fs))))"

fun zero_sects :: "nat \<Rightarrow> mkst \<Rightarrow> mkst" where
  "zero_sects 0 s = s"
| "zero_sects (Suc n) s = wsect (of_nat n) (\<lambda>_. 0) (zero_sects n s)"

definition mk_super :: "store \<Rightarrow> store" where
  "mk_super after = store32 (store32 (store32 after 0 2048) 4 2011) 8 100"

definition mk_main :: "store \<Rightarrow> (byte list \<times> byte list option) list \<Rightarrow> mkst result" where
  "mk_main after files =
     (let bitblocks = 2048 div (512 * 8) + 1; used = 100 div 3 + 3 + bitblocks;
        s = \<lparr>fimg = (\<lambda>_. 0), flen = 0, freeblock = used, usedblocks = used, bitblocks = bitblocks, freeinode = 1\<rparr>
      in if 2011 + used \<noteq> 2048 then Inl (Panic ''assert'')
      else bindR (mk_ialloc T_DIR (wsect 1 (mk_super after) (zero_sects (unat (2011 + used)) s))) (\<lambda>(rootino, s1).
        if rootino \<noteq> 1 then Inl (Panic ''assert'')
        else bindR (add_entry rootino rootino [46] s1) (\<lambda>s2.
          bindR (add_entry rootino rootino [46, 46] s2) (\<lambda>s3.
          bindR (add_files rootino files s3) (\<lambda>s4. mk_balloc (unat (usedblocks s4)) s4)))))"

end
