(* ===== verification/Mkfs_Image.thy ===== *)
theory Mkfs_Image
  imports Mkfs
begin

text \<open>
  What \<^verbatim>\<open>mkfs\<close> leaves on the image. The invariant \<open>mkwf\<close> says of every block of the data area which
  slot of an inode or of an indirect block refers to it, so that no block belongs to two files and
  no write to a file reaches the superblock, the inodes or the bitmap. It is kept by every operation
  and gives, with the bitmap written at the end, what the allocator of the kernel starts from.
\<close>

section \<open>Sectors\<close>

definition cut :: "store \<Rightarrow> store" where
  "cut d = (\<lambda>i. if i < 512 then d i else 0)"

definition sect :: "mkst \<Rightarrow> nat \<Rightarrow> store" where
  "sect s n = cut (\<lambda>i. fimg s (512 * n + i))"

lemma cut_load [simp]:
  "a + 4 \<le> 512 \<Longrightarrow> load32 (cut d) a = load32 d a" "a + 2 \<le> 512 \<Longrightarrow> load16 (cut d) a = load16 d a"
  by (auto simp: cut_def intro!: load32_cong load16_cong)

lemma cut_zero: "cut d = (\<lambda>_. 0) \<Longrightarrow> a + 4 \<le> 512 \<Longrightarrow> load32 d a = 0"
  by (metis cut_load(1) load_zeros(2))

lemma unat_off: "unat sec < 2 ^ 23 \<Longrightarrow> unat (sec * 512 :: u32) = unat sec * 512"
  by (simp add: unat_word_ariths)

lemma sect_wsect:
  assumes "unat sec < 2 ^ 23"
  shows "sect (wsect sec buf s) m = (if m = unat sec then cut buf else sect s m)"
proof (rule ext)
  fix i
  show "sect (wsect sec buf s) m i = (if m = unat sec then cut buf else sect s m) i"
  proof (cases "m = unat sec")
    case True
    then show ?thesis using assms by (auto simp: sect_def cut_def wsect_def Let_def unat_off blit_def mult.commute)
  next
    case False
    then have "m < unat sec \<or> unat sec < m" by auto
    then have "512 * m + i < unat sec * 512 \<or> unat sec * 512 + 512 \<le> 512 * m + i" if "i < 512" using that by auto
    then show ?thesis using assms False by (auto simp: sect_def cut_def wsect_def Let_def unat_off blit_other)
  qed
qed

lemma rsect_sect:
  assumes "unat sec < 2 ^ 23"
  shows "rsect sec s = Inr buf \<Longrightarrow> cut buf = sect s (unat sec) \<and> 512 * (unat sec + 1) \<le> flen s"
    and "512 * (unat sec + 1) \<le> flen s \<Longrightarrow> \<exists>buf. rsect sec s = Inr buf \<and> cut buf = sect s (unat sec)"
  using assms by (auto simp: rsect_def unat_off sect_def cut_def Let_def mult.commute split: if_splits)

lemma wsect_simps [simp]:
  "freeblock (wsect sec buf s) = freeblock s" "usedblocks (wsect sec buf s) = usedblocks s"
  "freeinode (wsect sec buf s) = freeinode s"
  by (simp_all add: wsect_def Let_def)

lemma flen_wsect: "unat sec < 2 ^ 23 \<Longrightarrow> 512 * (unat sec + 1) \<le> flen s \<Longrightarrow> flen (wsect sec buf s) = flen s"
  by (simp add: wsect_def unat_off Let_def max_def)

section \<open>Blocks and their owners\<close>

text \<open>A slot is an address of an inode or an entry of an indirect block.\<close>

datatype slot = Addr nat nat | Entry nat nat

type_synonym owners = "nat \<Rightarrow> slot"

definition owned :: "owners \<Rightarrow> nat \<Rightarrow> slot \<Rightarrow> u32 \<Rightarrow> bool" where
  "owned ow u sl x \<longleftrightarrow> x = 0 \<or> 37 \<le> unat x \<and> unat x < u \<and> ow (unat x) = sl"

definition indirect :: "owners \<Rightarrow> nat \<Rightarrow> bool" where
  "indirect ow b \<longleftrightarrow> (\<exists>i. ow b = Addr i NDIRECT)"

definition inode_of :: "(nat \<Rightarrow> store) \<Rightarrow> nat \<Rightarrow> dinode" where
  "inode_of S i = get_dinode (S (i div 3 + 2)) (140 * (i mod 3))"

definition dwf :: "owners \<Rightarrow> nat \<Rightarrow> nat \<Rightarrow> dinode \<Rightarrow> bool" where
  "dwf ow u i din \<longleftrightarrow> length (di_addrs din) = 32 \<and> (\<forall>k < 32. owned ow u (Addr i k) (di_addrs din ! k))"

definition mkwf :: "owners \<Rightarrow> mkst \<Rightarrow> bool" where
  "mkwf ow s \<longleftrightarrow> flen s = 512 * 2048 \<and> freeblock s = usedblocks s \<and> 37 \<le> unat (usedblocks s) \<and>
     unat (usedblocks s) \<le> 2049 \<and>
     load32 (sect s 1) 0 = 2048 \<and> load32 (sect s 1) 8 = 100 \<and>
     (\<forall>i \<le> 101. dwf ow (unat (usedblocks s)) i (inode_of (sect s) i)) \<and>
     (\<forall>b. 37 \<le> b \<longrightarrow> b < unat (usedblocks s) \<longrightarrow> indirect ow b \<longrightarrow>
        (\<forall>k < 128. owned ow (unat (usedblocks s)) (Entry b k) (load32 (sect s b) (4 * k)))) \<and>
     (\<forall>b. unat (usedblocks s) \<le> b \<longrightarrow> b < 2048 \<longrightarrow> sect s b = (\<lambda>_. 0))"

lemma inode_wsect:
  assumes "unat sec < 2 ^ 23" "37 \<le> unat sec" "i \<le> 101"
  shows "inode_of (sect (wsect sec buf s)) i = inode_of (sect s) i"
proof -
  have "i div 3 + 2 \<noteq> unat sec" using assms by auto
  then show ?thesis using assms(1) by (simp add: inode_of_def sect_wsect)
qed

text \<open>Writing a block of data, and writing an indirect block.\<close>

lemma mkwf_wsect:
  assumes wf: "mkwf ow s" and n: "37 \<le> unat sec" "unat sec < unat (usedblocks s)" "unat sec < 2048"
    and b: "indirect ow (unat sec) \<Longrightarrow> \<forall>k < 128. owned ow (unat (usedblocks s)) (Entry (unat sec) k) (load32 buf (4 * k))"
  shows "mkwf ow (wsect sec buf s)"
proof -
  have sec: "unat sec < 2 ^ 23" using n by simp
  have "load32 (sect (wsect sec buf s) c) (4 * k) = (if c = unat sec then load32 buf (4 * k) else load32 (sect s c) (4 * k))"
    if "k < 128" for c k
    using that by (simp add: sect_wsect [OF sec])
  moreover have "flen (wsect sec buf s) = flen s"
    by (rule flen_wsect [OF sec]) (use wf n in \<open>simp add: mkwf_def\<close>)
  moreover have "sect (wsect sec buf s) c = sect s c" if "c = 1 \<or> unat (usedblocks s) \<le> c" for c
    using that n by (auto simp: sect_wsect [OF sec])
  ultimately show ?thesis
    using wf n b unfolding mkwf_def by (simp add: inode_wsect [OF sec n(1)])
qed

section \<open>Taking blocks\<close>

lemma owned_mono: "owned ow u sl x \<Longrightarrow> owned (ow(u := sl')) (Suc u) sl x"
  by (auto simp: owned_def)

lemma dwf_mono: "dwf ow u i din \<Longrightarrow> dwf (ow(u := sl)) (Suc u) i din"
  by (simp add: dwf_def owned_mono)

lemma owned_new: "37 \<le> unat x \<Longrightarrow> owned (ow(unat x := sl)) (Suc (unat x)) sl x"
  by (simp add: owned_def)

lemma unat_Suc: "unat x < 4294967295 \<Longrightarrow> unat (x + 1 :: u32) = Suc (unat x)"
  by (simp add: unat_word_ariths)

lemma sect_take [simp]: "sect (take_block s) = sect s" "freeblock (take_block s) = freeblock s + 1"
  "usedblocks (take_block s) = usedblocks s + 1" "flen (take_block s) = flen s"
  "freeinode (take_block s) = freeinode s"
  by (auto simp: take_block_def sect_def)

lemma mkwf_take:
  assumes wf: "mkwf ow s" and u: "unat (usedblocks s) \<le> 2048" and ind: "\<forall>i. sl = Addr i NDIRECT \<longrightarrow> unat (usedblocks s) < 2048"
  shows "mkwf (ow(unat (usedblocks s) := sl)) (take_block s)"
proof -
  let ?u = "unat (usedblocks s)"
  have su: "unat (usedblocks s + 1) = Suc ?u" using u by (simp add: unat_Suc)
  have "owned (ow(?u := sl)) (Suc ?u) (Entry b k) (load32 (sect s b) (4 * k))"
    if b: "37 \<le> b" "b < Suc ?u" "indirect (ow(?u := sl)) b" "k < 128" for b k
  proof (cases "b = ?u")
    case True
    then have "?u < 2048" using ind b by (auto simp: indirect_def)
    then have "sect s b = (\<lambda>_. 0)" using wf True by (simp add: mkwf_def)
    then show ?thesis by (simp add: owned_def)
  next
    case False
    then have "b < ?u" "indirect ow b" using b by (auto simp: indirect_def)
    then show ?thesis using wf b by (intro owned_mono) (simp add: mkwf_def)
  qed
  then show ?thesis
    using wf u unfolding mkwf_def by (simp add: su owned_mono dwf_mono)
qed

lemma addr_block_wf:
  assumes wf: "mkwf ow s" and u: "unat (usedblocks s) \<le> 2048" and d: "dwf ow (unat (usedblocks s)) i din"
    and k: "k < 32" and r: "addr_block k din s = (din1, s1)" and ind: "k = NDIRECT \<Longrightarrow> unat (di_addrs din1 ! k) < 2048"
  shows "\<exists>ow1. mkwf ow1 s1 \<and> dwf ow1 (unat (usedblocks s1)) i din1 \<and> di_addrs din1 ! k \<noteq> 0 \<and>
    (unat (usedblocks s1) \<le> 2048 \<or> unat (di_addrs din1 ! k) = 2048)"
proof (cases "di_addrs din ! k = 0")
  case True
  let ?u = "unat (usedblocks s)"
  have l: "length (di_addrs din) = 32" using d by (simp add: dwf_def)
  have fb: "freeblock s = usedblocks s" "37 \<le> ?u" using wf by (simp_all add: mkwf_def)
  have e: "din1 = din\<lparr>di_addrs := (di_addrs din)[k := usedblocks s]\<rparr>" "s1 = take_block s"
    using r True fb by (simp_all add: addr_block_def)
  have a: "di_addrs din1 ! k = usedblocks s" using k l by (simp add: e)
  have su: "unat (usedblocks s1) = Suc ?u" using u by (simp add: e unat_Suc)
  have "mkwf (ow(?u := Addr i k)) s1"
    unfolding e(2) by (rule mkwf_take [OF wf u]) (use ind a in auto)
  moreover have "dwf (ow(?u := Addr i k)) (Suc ?u) i din1"
    using d k l fb by (auto simp: e dwf_def nth_list_update intro: owned_mono owned_new)
  moreover have "usedblocks s \<noteq> 0" using fb by auto
  ultimately show ?thesis using a su u by (intro exI [where x = "ow(?u := Addr i k)"]) auto
next
  case False
  then show ?thesis using assms by (auto simp: addr_block_def)
qed

text \<open>
  \<open>spare din\<close> counts the indirect block as long as it is not there: an append may take it once,
  beside one block for every block of the file it writes.
\<close>

definition spare :: "dinode \<Rightarrow> nat" where
  "spare din = (if di_addrs din ! NDIRECT = 0 then 1 else 0)"

definition grows :: "mkst \<Rightarrow> dinode \<Rightarrow> nat \<Rightarrow> mkst \<Rightarrow> dinode \<Rightarrow> bool" where
  "grows s din n s1 din1 \<longleftrightarrow> freeinode s1 = freeinode s \<and> (\<forall>j \<le> 101. inode_of (sect s1) j = inode_of (sect s) j) \<and>
     unat (usedblocks s1) + spare din1 \<le> unat (usedblocks s) + spare din + n"

lemma addr_block_simps:
  assumes "mkwf ow s" "unat (usedblocks s) \<le> 2048" "dwf ow (unat (usedblocks s)) i din" "k < 32" "addr_block k din s = (din1, s1)"
  shows "unat (di_addrs din1 ! k) \<le> 2048" "flen s1 = flen s" "freeinode s1 = freeinode s" "sect s1 = sect s"
    "unat (usedblocks s1) + spare din1 \<le> unat (usedblocks s) + spare din + (if k = NDIRECT then 0 else 1)"
proof -
  show "unat (di_addrs din1 ! k) \<le> 2048" "flen s1 = flen s" "sect s1 = sect s"
    using assms by (auto simp: addr_block_def mkwf_def dwf_def owned_def nth_list_update split: if_splits)
  show "freeinode s1 = freeinode s" using assms(5) by (auto simp: addr_block_def take_block_def split: if_splits)
  have "usedblocks s \<noteq> 0" using assms(1) by (auto simp: mkwf_def)
  then show "unat (usedblocks s1) + spare din1 \<le> unat (usedblocks s) + spare din + (if k = NDIRECT then 0 else 1)"
    using assms by (auto simp: addr_block_def spare_def unat_Suc mkwf_def dwf_def nth_list_update split: if_splits)
qed

text \<open>Filling an entry of an indirect block that is still empty.\<close>

lemma mkwf_new_entry:
  assumes wf: "mkwf ow s" and u: "unat (usedblocks s) \<le> 2048" and n: "37 \<le> unat n" "unat n < unat (usedblocks s)"
    and ind: "indirect ow (unat n)" and k: "k < 128" and ib: "cut ib = sect s (unat n)"
  shows "mkwf (ow(unat (usedblocks s) := Entry (unat n) k)) (wsect n (store32 ib (4 * k) (usedblocks s)) (take_block s))"
proof -
  let ?u = "unat (usedblocks s)"
  let ?ow = "ow(?u := Entry (unat n) k)"
  have wf': "mkwf ?ow (take_block s)" by (rule mkwf_take [OF wf u]) simp
  have su: "unat (usedblocks s + 1) = Suc ?u" using u by (simp add: unat_Suc)
  have old: "owned ?ow (Suc ?u) (Entry (unat n) j) (load32 ib (4 * j))" if "j < 128" for j
  proof -
    have "load32 ib (4 * j) = load32 (sect s (unat n)) (4 * j)" using that by (simp flip: ib)
    then show ?thesis using wf n ind that by (intro owned_mono) (simp add: mkwf_def)
  qed
  have "owned ?ow (Suc ?u) (Entry (unat n) j) (load32 (store32 ib (4 * k) (usedblocks s)) (4 * j))" if "j < 128" for j
  proof (cases "j = k")
    case True
    then show ?thesis using n by (simp add: owned_new)
  next
    case False
    then have "4 * j + 4 \<le> 4 * k \<or> 4 * k + 4 \<le> 4 * j" by arith
    then show ?thesis using old that by (simp add: load_store_disjoint)
  qed
  then show ?thesis using n u by (intro mkwf_wsect [OF wf']) (simp_all add: su)
qed

text \<open>The block of a file that is written next: a block of data, or the one after the last sector.\<close>

lemma file_block_direct:
  assumes wf: "mkwf ow s" and u: "unat (usedblocks s) \<le> 2048" and d: "dwf ow (unat (usedblocks s)) i din"
    and r: "file_block fbn din s = Inr (wbn, din1, s1)" and "fbn < 31"
  shows "\<exists>ow1. mkwf ow1 s1 \<and> dwf ow1 (unat (usedblocks s1)) i din1 \<and> 37 \<le> unat wbn \<and> unat wbn < unat (usedblocks s1) \<and>
    \<not> indirect ow1 (unat wbn) \<and> (unat (usedblocks s1) \<le> 2048 \<or> unat wbn = 2048) \<and> grows s din 1 s1 din1"
proof -
  have k: "unat fbn < 31" using assms(5) by (simp add: word_less_nat_alt)
  obtain din2 s2 where ab: "addr_block (unat fbn) din s = (din2, s2)" by fastforce
  then have e: "wbn = di_addrs din1 ! unat fbn" "din2 = din1" "s2 = s1" using r assms(5) by (auto simp: file_block_def)
  obtain ow1 where o: "mkwf ow1 s1" "dwf ow1 (unat (usedblocks s1)) i din1" "wbn \<noteq> 0"
      "unat (usedblocks s1) \<le> 2048 \<or> unat wbn = 2048"
    using addr_block_wf [OF wf u d _ ab] k by (auto simp: e)
  have "owned ow1 (unat (usedblocks s1)) (Addr i (unat fbn)) wbn" using k o(2) by (simp add: dwf_def e)
  moreover have "grows s din 1 s1 din1" using addr_block_simps [OF wf u d _ ab] k by (simp add: grows_def e)
  ultimately show ?thesis using o k by (intro exI [where x = ow1]) (auto simp: owned_def indirect_def)
qed

text \<open>The same through the indirect block, which is read, perhaps given a new entry, and written back.\<close>

lemma file_block_indirect:
  assumes wf: "mkwf ow s" and u: "unat (usedblocks s) \<le> 2048" and d: "dwf ow (unat (usedblocks s)) i din"
    and r: "file_block fbn din s = Inr (wbn, din1, s1)" and ge: "\<not> fbn < 31"
  shows "\<exists>ow1. mkwf ow1 s1 \<and> dwf ow1 (unat (usedblocks s1)) i din1 \<and> 37 \<le> unat wbn \<and> unat wbn < unat (usedblocks s1) \<and>
    \<not> indirect ow1 (unat wbn) \<and> (unat (usedblocks s1) \<le> 2048 \<or> unat wbn = 2048) \<and> grows s din 1 s1 din1"
proof -
  obtain din2 s2 where ab: "addr_block NDIRECT din s = (din2, s2)" by fastforce
  let ?n = "di_addrs din2 ! NDIRECT" and ?k = "unat (fbn - 31)"
  have k: "?k < 128" using ge r by (auto simp: file_block_def word_less_nat_alt split: if_splits)
  from r ab ge k obtain ib where ib: "rsect ?n s2 = Inr ib"
    by (auto simp: file_block_def word_less_nat_alt result_simps split: if_splits)
  note abs = addr_block_simps [OF wf u d _ ab]
  have "512 * (unat ?n + 1) \<le> 512 * 2048" "unat ?n < 2 ^ 23"
    using rsect_sect(1) [OF _ ib] abs wf by (auto simp: mkwf_def)
  then have n: "unat ?n < 2048" "cut ib = sect s2 (unat ?n)" using rsect_sect(1) [OF _ ib] by auto
  obtain ow1 where o: "mkwf ow1 s2" "dwf ow1 (unat (usedblocks s2)) i din2" "?n \<noteq> 0" "unat (usedblocks s2) \<le> 2048"
    using addr_block_wf [OF wf u d _ ab] n(1) by auto
  then have "owned ow1 (unat (usedblocks s2)) (Addr i NDIRECT) ?n" by (simp add: dwf_def)
  then have n37: "37 \<le> unat ?n" "unat ?n < unat (usedblocks s2)" and ind: "indirect ow1 (unat ?n)"
    using o(3) by (auto simp: owned_def indirect_def)
  have fb: "freeblock s2 = usedblocks s2" "37 \<le> unat (usedblocks s2)" using o(1) by (simp_all add: mkwf_def)
  have n23: "unat ?n < 2 ^ 23" using n by simp
  have entry: "owned ow1 (unat (usedblocks s2)) (Entry (unat ?n) j) (load32 ib (4 * j))" if "j < 128" for j
  proof -
    have "load32 ib (4 * j) = load32 (sect s2 (unat ?n)) (4 * j)" using that by (simp flip: n(2))
    then show ?thesis using o(1) n37 ind that by (simp add: mkwf_def)
  qed
  show ?thesis
  proof (cases "load32 ib (4 * ?k) = 0")
    case True
    let ?u = "unat (usedblocks s2)"
    have e: "wbn = usedblocks s2" "din1 = din2" "s1 = wsect ?n (store32 ib (4 * ?k) (usedblocks s2)) (take_block s2)"
      using r ab ib ge k True fb by (auto simp: file_block_def word_less_nat_alt Let_def split: if_splits)
    have su: "unat (usedblocks s1) = Suc ?u" using o(4) by (simp add: e unat_Suc)
    have "mkwf (ow1(?u := Entry (unat ?n) ?k)) s1"
      unfolding e by (rule mkwf_new_entry [OF o(1,4) n37 ind k n(2)])
    moreover have "dwf (ow1(?u := Entry (unat ?n) ?k)) (Suc ?u) i din1" unfolding e(2) by (rule dwf_mono [OF o(2)])
    moreover have "grows s din 1 s1 din1"
      using abs su by (simp add: grows_def e inode_wsect [OF n23 n37(1)])
    ultimately show ?thesis
      using o(4) fb su e(1) by (intro exI [where x = "ow1(?u := Entry (unat ?n) ?k)"]) (auto simp: indirect_def)
  next
    case x: False
    have e: "wbn = load32 ib (4 * ?k)" "din1 = din2" "s1 = wsect ?n ib s2"
      using r ab ib ge k x by (auto simp: file_block_def word_less_nat_alt Let_def split: if_splits)
    have "mkwf ow1 s1" unfolding e using n n37 entry by (intro mkwf_wsect [OF o(1)]) simp_all
    moreover have "owned ow1 (unat (usedblocks s2)) (Entry (unat ?n) ?k) wbn" using entry [OF k] by (simp add: e)
    moreover have "grows s din 1 s1 din1" using abs by (simp add: grows_def e inode_wsect [OF n23 n37(1)])
    ultimately show ?thesis
      using o x by (intro exI [where x = ow1]) (auto simp: e owned_def indirect_def)
  qed
qed

lemmas file_block_wf = file_block_direct file_block_indirect

lemma file_block_total:
  assumes wf: "mkwf ow s" and u: "unat (usedblocks s) + spare din < 2048" and d: "dwf ow (unat (usedblocks s)) i din"
    and "unat fbn < 159"
  shows "\<exists>r. file_block fbn din s = Inr r"
proof (cases "fbn < 31")
  case True
  then show ?thesis by (auto simp: file_block_def split: prod.split)
next
  case False
  then have "31 \<le> fbn" by simp
  then have k: "fbn - 31 < 128" using assms(4) by (simp add: word_less_nat_alt unat_sub)
  obtain din2 s2 where ab: "addr_block NDIRECT din s = (din2, s2)" by fastforce
  have o: "owned ow (unat (usedblocks s)) (Addr i NDIRECT) (di_addrs din ! NDIRECT)" "length (di_addrs din) = 32"
    "freeblock s = usedblocks s" "flen s = 512 * 2048"
    using d wf by (simp_all add: dwf_def mkwf_def)
  have "unat (di_addrs din2 ! NDIRECT) < 2048" "flen s2 = 512 * 2048"
    using ab u o by (auto simp: addr_block_def owned_def spare_def nth_list_update split: if_splits)
  then obtain ib where "rsect (di_addrs din2 ! NDIRECT) s2 = Inr ib" using rsect_sect(2) [of "di_addrs din2 ! NDIRECT" s2] by auto
  then show ?thesis using False k ab by (simp add: file_block_def Let_def split: prod.split)
qed

section \<open>Appending\<close>

lemma room_eq: "room off = 512 - unat off mod 512"
proof -
  have m: "unat (off mod 512) = unat off mod 512" by (simp add: unat_mod)
  then have "off mod 512 \<le> 512" by (simp add: word_le_nat_alt)
  moreover have "(off div 512 + 1) * 512 - off = 512 - off mod 512"
    using div_mult_mod_eq [of off 512] by (simp add: algebra_simps)
  ultimately show ?thesis unfolding room_def by (simp only: unat_sub m) simp
qed

text \<open>The number of blocks of a file that an append of \<open>n\<close> bytes at \<open>off\<close> writes to.\<close>

definition rounds :: "nat \<Rightarrow> nat \<Rightarrow> nat" where
  "rounds off n = (if n = 0 then 0 else (off mod 512 + n + 511) div 512)"

lemma rounds_step:
  assumes "0 < n"
  shows "rounds off n = Suc (rounds (off + min n (512 - off mod 512)) (n - min n (512 - off mod 512)))"
proof (cases "n \<le> 512 - off mod 512")
  case True
  then have "off mod 512 + n + 511 < 2 * 512" "512 \<le> off mod 512 + n + 511"
    using assms mod_less_divisor [of 512 off] by linarith+
  then have "(off mod 512 + n + 511) div 512 = 1" by (simp add: div_nat_eqI)
  then show ?thesis using True assms by (simp add: rounds_def)
next
  case False
  let ?r = "off mod 512"
  have r: "?r < 512" by simp
  have z: "(off + (512 - ?r)) mod 512 = 0"
  proof -
    have "off + (512 - ?r) = 512 * (off div 512 + 1)" using r by (simp add: algebra_simps minus_mod_eq_mult_div [symmetric])
    then show ?thesis by simp
  qed
  have "?r + n + 511 = (n - (512 - ?r) + 511) + 512" using False r by linarith
  then have "(?r + n + 511) div 512 = Suc ((n - (512 - ?r) + 511) div 512)" by simp
  moreover have "min n (512 - ?r) = 512 - ?r" "n - (512 - ?r) \<noteq> 0" using False by simp_all
  ultimately show ?thesis unfolding rounds_def using z assms by (simp only: if_False) simp
qed

lemma file_block_ok:
  assumes "mkwf ow s" "unat (usedblocks s) \<le> 2048" "dwf ow (unat (usedblocks s)) i din" "file_block fbn din s = Inr (wbn, din1, s1)"
  obtains ow1 where "mkwf ow1 s1" "dwf ow1 (unat (usedblocks s1)) i din1" "37 \<le> unat wbn" "unat wbn < unat (usedblocks s1)"
    "\<not> indirect ow1 (unat wbn)" "unat (usedblocks s1) \<le> 2048 \<or> unat wbn = 2048" "grows s din 1 s1 din1"
  using file_block_wf [OF assms] by (cases "fbn < 31") blast+

text \<open>One round of the loop, after which the invariant holds again.\<close>

lemma round_wf:
  assumes "mkwf ow s" "unat (usedblocks s) \<le> 2048" "dwf ow (unat (usedblocks s)) i din"
    "file_block fbn din s = Inr (wbn, din1, s1)" "rsect wbn s1 = Inr buf"
  shows "\<exists>ow1. mkwf ow1 (wsect wbn buf1 s1) \<and> unat (usedblocks s1) \<le> 2048 \<and> dwf ow1 (unat (usedblocks s1)) i din1 \<and>
    grows s din 1 (wsect wbn buf1 s1) din1"
proof -
  obtain ow1 where o: "mkwf ow1 s1" "dwf ow1 (unat (usedblocks s1)) i din1" "37 \<le> unat wbn" "unat wbn < unat (usedblocks s1)"
      "\<not> indirect ow1 (unat wbn)" "unat (usedblocks s1) \<le> 2048 \<or> unat wbn = 2048" "grows s din 1 s1 din1"
    using file_block_ok [OF assms(1-4)] by blast
  have w: "unat wbn < 2 ^ 23" using o(1,4) by (simp add: mkwf_def)
  then have "unat wbn < 2048" using rsect_sect(1) [OF _ assms(5)] o(1) by (auto simp: mkwf_def)
  then have "mkwf ow1 (wsect wbn buf1 s1)" "unat (usedblocks s1) \<le> 2048" using o by (auto intro: mkwf_wsect)
  moreover have "grows s din 1 (wsect wbn buf1 s1) din1" using o(7) by (simp add: grows_def inode_wsect [OF w o(3)])
  ultimately show ?thesis using o(2) by blast
qed

lemma iappend_loop_wf:
  assumes "mkwf ow s" "unat (usedblocks s) \<le> 2048" "dwf ow (unat (usedblocks s)) i din"
    "iappend_loop din off p s = Inr (din', off', s')"
  shows "\<exists>ow'. mkwf ow' s' \<and> unat (usedblocks s') \<le> 2048 \<and> dwf ow' (unat (usedblocks s')) i din' \<and>
    freeinode s' = freeinode s \<and> (\<forall>j \<le> 101. inode_of (sect s') j = inode_of (sect s) j)"
  using assms
proof (induction din off p s arbitrary: ow rule: iappend_loop.induct)
  case (1 din off p s)
  show ?case
  proof (cases "p = []")
    case True
    then show ?thesis using "1.prems" by (subst (asm) iappend_loop.simps) auto
  next
    case False
    let ?n1 = "min (length p) (room off)"
    obtain wbn din1 s1 buf where fb: "file_block (off div 512) din s = Inr (wbn, din1, s1)" and rb: "rsect wbn s1 = Inr buf"
      and rest: "iappend_loop din1 (off + of_nat ?n1) (drop ?n1 p)
        (wsect wbn (blit ?n1 (bytes_store p) 0 buf (unat (off - off div 512 * 512))) s1) = Inr (din', off', s')"
      using "1.prems"(4) False by (subst (asm) iappend_loop.simps) (auto simp: result_simps Let_def)
    obtain ow1 where o: "mkwf ow1 (wsect wbn (blit ?n1 (bytes_store p) 0 buf (unat (off - off div 512 * 512))) s1)"
        "unat (usedblocks s1) \<le> 2048" "dwf ow1 (unat (usedblocks s1)) i din1"
        "grows s din 1 (wsect wbn (blit ?n1 (bytes_store p) 0 buf (unat (off - off div 512 * 512))) s1) din1"
      using round_wf [OF "1.prems"(1-3) fb rb] by blast
    then show ?thesis
      using "1.IH" [OF False fb refl refl refl rb refl o(1) _ _ rest] by (auto simp: grows_def)
  qed
qed

lemma iappend_loop_total:
  assumes "mkwf ow s" "dwf ow (unat (usedblocks s)) i din" "unat off + length p \<le> 159 * 512"
    "unat (usedblocks s) + spare din + rounds (unat off) (length p) \<le> 2048"
  shows "\<exists>din' s'. iappend_loop din off p s = Inr (din', off + of_nat (length p), s') \<and>
    unat (usedblocks s') + spare din' \<le> unat (usedblocks s) + spare din + rounds (unat off) (length p)"
  using assms
proof (induction din off p s arbitrary: ow rule: iappend_loop.induct)
  case (1 din off p s)
  show ?case
  proof (cases "p = []")
    case True
    then show ?thesis by (subst iappend_loop.simps) (simp add: rounds_def)
  next
    case False
    let ?n1 = "min (length p) (room off)"
    let ?s1 = "\<lambda>wbn buf s1. wsect wbn (blit ?n1 (bytes_store p) 0 buf (unat (off - off div 512 * 512))) s1"
    have rs: "rounds (unat off) (length p) = Suc (rounds (unat off + ?n1) (length p - ?n1))"
      using rounds_step [of "length p" "unat off"] False by (simp add: room_eq)
    then have u: "unat (usedblocks s) + spare din < 2048" "unat (usedblocks s) \<le> 2048" using "1.prems"(4) by simp_all
    have "unat off < 159 * 512" using "1.prems"(3) False by (cases p) simp_all
    then have "unat (off div 512) < 159" by (simp add: unat_div)
    from file_block_total [OF "1.prems"(1) u(1) "1.prems"(2) this]
    obtain wbn din1 s1 where fb: "file_block (off div 512) din s = Inr (wbn, din1, s1)" by auto
    obtain ow0 where o: "mkwf ow0 s1" "unat wbn < unat (usedblocks s1)" "grows s din 1 s1 din1"
      using file_block_ok [OF "1.prems"(1) u(2) "1.prems"(2) fb] by blast
    then have w: "unat wbn < 2048" using u rs "1.prems"(4) by (simp add: grows_def)
    obtain buf where rb: "rsect wbn s1 = Inr buf" using rsect_sect(2) [of wbn s1] w o(1) by (auto simp: mkwf_def)
    obtain ow1 where o1: "mkwf ow1 (?s1 wbn buf s1)" "dwf ow1 (unat (usedblocks s1)) i din1" "grows s din 1 (?s1 wbn buf s1) din1"
      using round_wf [OF "1.prems"(1) u(2) "1.prems"(2) fb rb] by blast
    have n1: "unat (off + of_nat ?n1) = unat off + ?n1"
      using "1.prems"(3) by (simp add: unat_word_ariths unat_of_nat)
    have "\<exists>din' s'. iappend_loop din1 (off + of_nat ?n1) (drop ?n1 p) (?s1 wbn buf s1) =
        Inr (din', off + of_nat ?n1 + of_nat (length (drop ?n1 p)), s') \<and>
        unat (usedblocks s') + spare din' \<le> unat (usedblocks (?s1 wbn buf s1)) + spare din1 +
          rounds (unat (off + of_nat ?n1)) (length (drop ?n1 p))"
      by (rule "1.IH" [OF False fb refl refl refl rb refl o1(1)])
        (use o1 n1 rs "1.prems"(3,4) in \<open>auto simp: grows_def\<close>)
    then show ?thesis
      using False fb rb o1(3) rs unfolding n1
      by (subst iappend_loop.simps) (auto simp: Let_def grows_def simp flip: of_nat_add)
  qed
qed

section \<open>Inodes\<close>

lemma put_words_other: "b < a \<or> a + 4 * length ws \<le> b \<Longrightarrow> put_words ws a d b = d b"
  by (induction ws a d rule: put_words.induct) (auto simp: store32_other)

lemma put_words_load: "k < length ws \<Longrightarrow> load32 (put_words ws a d) (a + 4 * k) = ws ! k"
proof (induction ws a d arbitrary: k rule: put_words.induct)
  case (2 w ws a d)
  show ?case
  proof (cases k)
    case 0
    have "load32 (put_words ws (a + 4) (store32 d a w)) a = load32 (store32 d a w) a"
      by (rule load32_cong) (auto intro: put_words_other)
    then show ?thesis by (simp add: 0)
  next
    case (Suc j)
    then show ?thesis using "2.IH" [of j] "2.prems" by (simp add: algebra_simps)
  qed
qed simp

lemma put_dinode_other: "length (di_addrs di) = 32 \<Longrightarrow> b < a \<or> a + 140 \<le> b \<Longrightarrow> put_dinode di a d b = d b"
  by (auto simp: put_dinode_def put_words_other store32_other store16_other)

lemma get_put_dinode:
  assumes "length (di_addrs di) = 32"
  shows "get_dinode (put_dinode di a d) a = di"
proof -
  let ?h = "store32 (store16 (store16 (store16 (store16 d a (di_type di)) (a + 2) (di_major di)) (a + 4) (di_minor di))
       (a + 6) (di_nlink di)) (a + 8) (di_size di)"
  have "load16 (put_dinode di a d) b = load16 ?h b" if "a \<le> b" "b + 2 \<le> a + 12" for b
    unfolding put_dinode_def by (rule load16_cong) (use that in \<open>auto intro: put_words_other\<close>)
  moreover have "load32 (put_dinode di a d) (a + 8) = load32 ?h (a + 8)"
    unfolding put_dinode_def by (rule load32_cong) (auto intro: put_words_other)
  moreover have "map (\<lambda>k. load32 (put_dinode di a d) (a + 12 + 4 * k)) [0..<NDIRECT + 1] = di_addrs di"
    using assms by (intro nth_equalityI) (simp_all add: put_dinode_def put_words_load del: upt_Suc)
  ultimately show ?thesis by (simp add: get_dinode_def load_simps del: upt_Suc)
qed

lemma get_dinode_cong: "(\<And>b. a \<le> b \<Longrightarrow> b < a + 140 \<Longrightarrow> d b = e b) \<Longrightarrow> get_dinode d a = get_dinode e a"
proof -
  assume eq: "\<And>b. a \<le> b \<Longrightarrow> b < a + 140 \<Longrightarrow> d b = e b"
  have "load16 d b = load16 e b" if "a \<le> b" "b + 2 \<le> a + 140" for b by (rule load16_cong) (use that eq in simp)
  moreover have l: "load32 d b = load32 e b" if "a \<le> b" "b + 4 \<le> a + 140" for b by (rule load32_cong) (use that eq in simp)
  moreover have "map (\<lambda>k. load32 d (a + 12 + 4 * k)) [0..<NDIRECT + 1] = map (\<lambda>k. load32 e (a + 12 + 4 * k)) [0..<NDIRECT + 1]"
    by (rule map_cong) (auto intro!: l simp del: upt_Suc)
  ultimately show ?thesis by (simp add: get_dinode_def del: upt_Suc)
qed

lemma inode_off_le: "140 * (j mod 3) + 140 \<le> (512 :: nat)"
proof -
  have "j mod 3 \<le> 2" by simp
  then show ?thesis by linarith
qed

lemma inode_cut: "get_dinode (cut d) (140 * (j mod 3)) = get_dinode d (140 * (j mod 3))"
  using inode_off_le [of j] by (intro get_dinode_cong) (simp add: cut_def)

lemma unat_i2b: "unat inum \<le> 101 \<Longrightarrow> unat (i2b inum) = unat inum div 3 + 2"
proof -
  assume a: "unat inum \<le> 101"
  then have d: "unat inum div 3 \<le> 33" using div_le_mono [OF a, of 3] by simp
  have "unat ((ucast inum :: u64) div 3) = unat inum div 3"
    using a by (simp add: unat_div unsigned_ucast_eq take_bit_nat_eq_self)
  then have "unat ((ucast inum :: u64) div 3 + 2) = unat inum div 3 + 2" using d by (simp add: unat_word_ariths)
  then show ?thesis using d by (simp add: i2b_def unsigned_ucast_eq take_bit_nat_eq_self)
qed

lemma i2b_range: "unat inum \<le> 101 \<Longrightarrow> 2 \<le> unat (i2b inum) \<and> unat (i2b inum) < 36"
  using div_le_mono [of "unat inum" 101 3] by (simp add: unat_i2b)

lemma rsect_inode:
  assumes "mkwf ow s" "unat inum \<le> 101"
  shows "\<exists>buf. rsect (i2b inum) s = Inr buf \<and> cut buf = sect s (unat inum div 3 + 2)"
  using rsect_sect(2) [of "i2b inum" s] i2b_range [OF assms(2)] assms by (auto simp: mkwf_def unat_i2b)

lemma rinode_eq:
  assumes "mkwf ow s" "unat inum \<le> 101"
  shows "rinode inum s = Inr (inode_of (sect s) (unat inum))"
proof -
  obtain buf where b: "rsect (i2b inum) s = Inr buf" "cut buf = sect s (unat inum div 3 + 2)"
    using rsect_inode [OF assms] by blast
  have "inode_of (sect s) (unat inum) = get_dinode (cut buf) (140 * (unat inum mod 3))" by (simp only: inode_of_def b(2))
  then show ?thesis using b(1) by (simp add: rinode_def dinode_off_def inode_cut)
qed

lemma winode_wf:
  assumes wf: "mkwf ow s" and i: "unat inum \<le> 101" and d: "dwf ow (unat (usedblocks s)) (unat inum) din"
  shows "\<exists>s'. winode inum din s = Inr s' \<and> mkwf ow s' \<and> usedblocks s' = usedblocks s \<and> freeinode s' = freeinode s \<and>
    (\<forall>j. inode_of (sect s') j = (if j = unat inum then din else inode_of (sect s) j))"
proof -
  let ?i = "unat inum" and ?o = "140 * (unat inum mod 3)"
  obtain buf where b: "rsect (i2b inum) s = Inr buf" "cut buf = sect s (?i div 3 + 2)"
    using rsect_inode [OF wf i] by blast
  let ?s' = "wsect (i2b inum) (put_dinode din ?o buf) s"
  have n: "unat (i2b inum) < 2 ^ 23" "2 \<le> unat (i2b inum)" "unat (i2b inum) < 36" using i2b_range [OF i] by auto
  have l: "length (di_addrs din) = 32" using d by (simp add: dwf_def)
  have ino: "inode_of (sect ?s') j = (if j = ?i then din else inode_of (sect s) j)" for j
  proof (cases "j div 3 = ?i div 3")
    case False
    then show ?thesis by (auto simp: inode_of_def sect_wsect [OF n(1)] unat_i2b [OF i])
  next
    case True
    have m: "j = ?i \<longleftrightarrow> j mod 3 = ?i mod 3" using True by (metis div_mult_mod_eq)
    have "inode_of (sect ?s') j = get_dinode (put_dinode din ?o buf) (140 * (j mod 3))"
      using True by (simp add: inode_of_def sect_wsect [OF n(1)] unat_i2b [OF i] inode_cut)
    moreover have "inode_of (sect s) j = get_dinode buf (140 * (j mod 3))"
      unfolding inode_of_def True b(2) [symmetric] by (rule inode_cut)
    moreover have "get_dinode (put_dinode din ?o buf) (140 * (j mod 3)) = get_dinode buf (140 * (j mod 3))" if "j \<noteq> ?i"
      using that m by (intro get_dinode_cong put_dinode_other [OF l]) auto
    ultimately show ?thesis using get_put_dinode [OF l] by auto
  qed
  have "flen ?s' = flen s" using n wf by (intro flen_wsect) (simp_all add: mkwf_def)
  moreover have "sect ?s' c = sect s c" if "c = 1 \<or> 37 \<le> c" for c using n that by (auto simp: sect_wsect [OF n(1)])
  ultimately have "mkwf ow ?s'" using wf d unfolding mkwf_def by (simp add: ino)
  then show ?thesis using b(1) ino by (simp add: winode_def dinode_off_def)
qed

end
