(* ===== verification/Mkfs_Main.thy ===== *)
theory Mkfs_Main
  imports Mkfs_Image Fs_Alloc
begin

text \<open>
  The program \<^verbatim>\<open>mkfs\<close> as a whole: the invariant of \<open>Mkfs_Image\<close> holds of every image it makes, it
  does make one when the files fit, with an inode of the right type and size for each of them, and
  the allocator of the kernel takes its blocks from where the program stopped.
\<close>

section \<open>Every operation keeps the invariant\<close>

definition mkok :: "mkst \<Rightarrow> bool" where
  "mkok s \<longleftrightarrow> (\<exists>ow. mkwf ow s) \<and> unat (usedblocks s) \<le> 2048"

abbreviation ino :: "mkst \<Rightarrow> nat \<Rightarrow> dinode" where
  "ino s \<equiv> inode_of (sect s)"

lemma iappend_ok:
  assumes "mkok s" "unat inum \<le> 101" "iappend inum p s = Inr s'"
  shows "mkok s' \<and> freeinode s' = freeinode s"
proof -
  obtain ow where wf: "mkwf ow s" and u: "unat (usedblocks s) \<le> 2048" using assms(1) by (auto simp: mkok_def)
  let ?din = "ino s (unat inum)"
  have din: "dwf ow (unat (usedblocks s)) (unat inum) ?din" using wf assms(2) by (simp add: mkwf_def)
  obtain din1 off s1 where l: "iappend_loop ?din (di_size ?din) p s = Inr (din1, off, s1)" "winode inum (din1\<lparr>di_size := off\<rparr>) s1 = Inr s'"
    using assms(3) rinode_eq [OF wf assms(2)] by (auto simp: iappend_def result_simps)
  obtain ow' where o: "mkwf ow' s1" "unat (usedblocks s1) \<le> 2048" "dwf ow' (unat (usedblocks s1)) (unat inum) din1"
      "freeinode s1 = freeinode s"
    using iappend_loop_wf [OF wf u din l(1)] by blast
  then have "dwf ow' (unat (usedblocks s1)) (unat inum) (din1\<lparr>di_size := off\<rparr>)" by (simp add: dwf_def)
  from winode_wf [OF o(1) assms(2) this] show ?thesis using l(2) o by (auto simp: mkok_def)
qed

lemma append_file_ok:
  "mkok s \<Longrightarrow> unat inum \<le> 101 \<Longrightarrow> append_file inum p s = Inr s' \<Longrightarrow> mkok s' \<and> freeinode s' = freeinode s"
proof (induction inum p s rule: append_file.induct)
  case (1 inum p s)
  show ?case
  proof (cases "p = []")
    case True
    then show ?thesis using 1 by (subst (asm) append_file.simps) auto
  next
    case False
    then obtain s1 where "iappend inum (take 512 p) s = Inr s1" "append_file inum (drop 512 p) s1 = Inr s'"
      using "1.prems"(3) by (subst (asm) append_file.simps) (auto simp: result_simps)
    then show ?thesis using "1.IH" [OF False] iappend_ok [OF "1.prems"(1,2)] "1.prems"(2) by fastforce
  qed
qed

definition new_inode :: "u16 \<Rightarrow> dinode" where
  "new_inode type = \<lparr>di_type = type, di_major = 0, di_minor = 0, di_nlink = 1, di_size = 0, di_addrs = replicate 32 0\<rparr>"

lemma mk_ialloc_eq:
  assumes "mkok s" "unat (freeinode s) \<le> 101"
  shows "\<exists>s'. mk_ialloc type s = Inr (freeinode s, s') \<and> mkok s' \<and> usedblocks s' = usedblocks s \<and> freeinode s' = freeinode s + 1 \<and>
    (\<forall>j. ino s' j = (if j = unat (freeinode s) then new_inode type else ino s j))"
proof -
  obtain ow where wf: "mkwf ow s" using assms(1) by (auto simp: mkok_def)
  let ?s = "s\<lparr>freeinode := freeinode s + 1\<rparr>"
  have e: "sect ?s = sect s" by (simp add: sect_def [abs_def])
  then have "mkwf ow ?s" using wf by (simp add: mkwf_def)
  moreover have "dwf ow (unat (usedblocks ?s)) (unat (freeinode s)) (new_inode type)"
    by (simp add: dwf_def owned_def new_inode_def)
  ultimately show ?thesis
    using winode_wf [OF _ assms(2), of ow ?s "new_inode type"] assms(1) e
    by (auto simp: mk_ialloc_def mkok_def new_inode_def)
qed

lemma add_entry_ok: "mkok s \<Longrightarrow> unat root \<le> 101 \<Longrightarrow> add_entry root inum name s = Inr s' \<Longrightarrow> mkok s' \<and> freeinode s' = freeinode s"
  unfolding add_entry_def bindR_eq_Inr by (elim exE conjE) (rule iappend_ok)

lemma add_files_ConsE:
  assumes "add_files root ((path, contents) # fs) s = Inr s'"
  obtains inum s1 name s2 s3 where "mk_ialloc T_FILE s = Inr (inum, s1)" "base_name path = Inr name"
    "add_entry root inum name s1 = Inr s2" "(case contents of None \<Rightarrow> Inr s2 | Some p \<Rightarrow> append_file inum p s2) = Inr s3"
    "add_files root fs s3 = Inr s'"
  using assms unfolding add_files.simps bindR_eq_Inr by (elim exE conjE) (auto simp: bindR_eq_Inr)

lemma add_files_ok:
  "mkok s \<Longrightarrow> unat root \<le> 101 \<Longrightarrow> unat (freeinode s) + length fs \<le> 102 \<Longrightarrow> add_files root fs s = Inr s' \<Longrightarrow> mkok s'"
proof (induction fs arbitrary: s)
  case (Cons f fs)
  obtain path contents where f: "f = (path, contents)" by fastforce
  obtain inum s1 name s2 s3 where r: "mk_ialloc T_FILE s = Inr (inum, s1)" "add_entry root inum name s1 = Inr s2"
      "(case contents of None \<Rightarrow> Inr s2 | Some p \<Rightarrow> append_file inum p s2) = Inr s3" "add_files root fs s3 = Inr s'"
    using Cons.prems(4) unfolding f by (elim add_files_ConsE)
  have i: "unat (freeinode s) \<le> 101" using Cons.prems(3) by simp
  have 1: "mkok s1" "inum = freeinode s" "freeinode s1 = freeinode s + 1"
    using mk_ialloc_eq [OF Cons.prems(1) i, of T_FILE] r(1) by auto
  have 2: "mkok s2" "freeinode s2 = freeinode s1" using add_entry_ok [OF 1(1) Cons.prems(2) r(2)] by blast+
  have 3: "mkok s3 \<and> freeinode s3 = freeinode s2"
  proof (cases contents)
    case None
    then show ?thesis using r(3) 2 by simp
  next
    case (Some p)
    show ?thesis by (rule append_file_ok [OF 2(1), of inum p]) (use r(3) Some 1(2) i in simp_all)
  qed
  have "unat (freeinode s3) + length fs \<le> 102" using 1 2 3 i Cons.prems(3) by (simp add: unat_Suc)
  then show ?case using Cons.IH 3 Cons.prems(2) r(4) by blast
qed simp

section \<open>The empty image\<close>

definition mk_start :: "store \<Rightarrow> mkst" where
  "mk_start after = wsect 1 (mk_super after) (zero_sects 2048
     \<lparr>fimg = (\<lambda>_. 0), flen = 0, freeblock = 37, usedblocks = 37, bitblocks = 1, freeinode = 1\<rparr>)"

lemma zero_sects:
  assumes "n \<le> 2048" "fimg s = (\<lambda>_. 0)" "flen s = 0"
  shows "zero_sects n s = s\<lparr>flen := 512 * n\<rparr>"
  using assms(1)
proof (induction n)
  case (Suc n)
  then have "unat (of_nat n * 512 :: u32) = n * 512" by (simp add: unat_word_ariths unat_of_nat)
  moreover have "blit 512 (\<lambda>_. 0) 0 (\<lambda>_. 0) a = (\<lambda>_. 0)" for a by (simp add: blit_def)
  ultimately show ?case using Suc assms(2) by (simp add: wsect_def Let_def)
qed (use assms(3) in simp)

lemma mk_start_simps: "usedblocks (mk_start after) = 37" "freeinode (mk_start after) = 1"
  "sect (mk_start after) n = (if n = 1 then cut (mk_super after) else (\<lambda>_. 0))"
  unfolding mk_start_def by (simp_all add: zero_sects sect_wsect) (simp_all add: sect_def cut_def)

lemma get_dinode_zero: "get_dinode (\<lambda>_. 0) a = (new_inode 0)\<lparr>di_nlink := 0\<rparr>"
  by (simp add: get_dinode_def new_inode_def map_replicate_const)

lemma mk_start_ok: "mkok (mk_start after)"
proof -
  have "ino (mk_start after) i = (new_inode 0)\<lparr>di_nlink := 0\<rparr>" for i
    by (simp add: inode_of_def mk_start_simps get_dinode_zero)
  moreover have "flen (mk_start after) = 512 * 2048" "freeblock (mk_start after) = 37"
    by (simp_all add: mk_start_def zero_sects flen_wsect)
  ultimately have "mkwf (\<lambda>_. Entry 0 0) (mk_start after)"
    by (auto simp: mkwf_def mk_start_simps mk_super_def load_store_disjoint dwf_def owned_def new_inode_def indirect_def)
  then show ?thesis by (auto simp: mkok_def mk_start_simps)
qed

section \<open>Files that fit\<close>

text \<open>
  An append goes through when there are blocks enough for it, and changes one inode: its size grows
  by the number of bytes.
\<close>

definition enlarged :: "dinode \<Rightarrow> nat \<Rightarrow> dinode \<Rightarrow> bool" where
  "enlarged d n d' \<longleftrightarrow> di_type d' = di_type d \<and> di_nlink d' = di_nlink d \<and> unat (di_size d') = unat (di_size d) + n"

definition appended :: "mkst \<Rightarrow> nat \<Rightarrow> nat \<Rightarrow> nat \<Rightarrow> mkst \<Rightarrow> bool" where
  "appended s i n b s' \<longleftrightarrow> mkok s' \<and> freeinode s' = freeinode s \<and> (\<forall>j \<le> 101. j \<noteq> i \<longrightarrow> ino s' j = ino s j) \<and>
     enlarged (ino s i) n (ino s' i) \<and>
     unat (usedblocks s') + spare (ino s' i) \<le> unat (usedblocks s) + spare (ino s i) + b"

lemma iappend_loop_type:
  "iappend_loop din off p s = Inr (din', off', s') \<Longrightarrow> di_type din' = di_type din \<and> di_nlink din' = di_nlink din"
proof (induction din off p s rule: iappend_loop.induct)
  case (1 din off p s)
  show ?case
  proof (cases "p = []")
    case True
    then show ?thesis using "1.prems" by (subst (asm) iappend_loop.simps) auto
  next
    case False
    let ?n1 = "min (length p) (room off)"
    obtain wbn din1 s1 buf where fb: "file_block (off div 512) din s = Inr (wbn, din1, s1)" and rb: "rsect wbn s1 = Inr buf"
      and rest: "iappend_loop din1 (off + of_nat ?n1) (drop ?n1 p)
        (wsect wbn (blit ?n1 (bytes_store p) 0 buf (unat (off - off div 512 * 512))) s1) = Inr (din', off', s')"
      using "1.prems" False by (subst (asm) iappend_loop.simps) (auto simp: result_simps Let_def)
    have "di_type din1 = di_type din \<and> di_nlink din1 = di_nlink din"
      using fb by (auto simp: file_block_def addr_block_def result_simps Let_def split: if_splits)
    then show ?thesis using "1.IH" [OF False fb refl refl refl rb refl rest] by simp
  qed
qed

lemma iappend_fits:
  assumes "mkok s" "unat inum \<le> 101" "unat (di_size (ino s (unat inum))) + length p \<le> 159 * 512"
    "unat (usedblocks s) + spare (ino s (unat inum)) + rounds (unat (di_size (ino s (unat inum)))) (length p) \<le> 2048"
  shows "\<exists>s'. iappend inum p s = Inr s' \<and>
    appended s (unat inum) (length p) (rounds (unat (di_size (ino s (unat inum)))) (length p)) s'"
proof -
  obtain ow where wf: "mkwf ow s" and u: "unat (usedblocks s) \<le> 2048" using assms(1) by (auto simp: mkok_def)
  let ?din = "ino s (unat inum)"
  let ?off = "di_size ?din + of_nat (length p)"
  have din: "dwf ow (unat (usedblocks s)) (unat inum) ?din" using wf assms(2) by (simp add: mkwf_def)
  obtain din1 s1 where l: "iappend_loop ?din (di_size ?din) p s = Inr (din1, ?off, s1)"
      "unat (usedblocks s1) + spare din1 \<le> unat (usedblocks s) + spare ?din + rounds (unat (di_size ?din)) (length p)"
    using iappend_loop_total [OF wf din assms(3,4)] by blast
  obtain ow' where o: "mkwf ow' s1" "unat (usedblocks s1) \<le> 2048" "dwf ow' (unat (usedblocks s1)) (unat inum) din1"
      "freeinode s1 = freeinode s" "\<forall>j \<le> 101. ino s1 j = ino s j"
    using iappend_loop_wf [OF wf u din l(1)] by blast
  have "dwf ow' (unat (usedblocks s1)) (unat inum) (din1\<lparr>di_size := ?off\<rparr>)" using o(3) by (simp add: dwf_def)
  from winode_wf [OF o(1) assms(2) this] obtain s' where s': "winode inum (din1\<lparr>di_size := ?off\<rparr>) s1 = Inr s'" "mkwf ow' s'"
      "usedblocks s' = usedblocks s1" "freeinode s' = freeinode s1"
      "\<forall>j. ino s' j = (if j = unat inum then din1\<lparr>di_size := ?off\<rparr> else ino s1 j)"
    by blast
  have "unat ?off = unat (di_size ?din) + length p" using assms(3) by (simp add: unat_word_ariths unat_of_nat)
  then have "appended s (unat inum) (length p) (rounds (unat (di_size ?din)) (length p)) s'"
    using s' o l iappend_loop_type [OF l(1)] by (auto simp: appended_def enlarged_def mkok_def spare_def)
  then show ?thesis using l(1) s'(1) rinode_eq [OF wf assms(2)] by (auto simp: iappend_def)
qed

definition blocks_of :: "nat \<Rightarrow> nat" where
  "blocks_of n = (n + 511) div 512"

lemma blocks_of_step: "0 < n \<Longrightarrow> blocks_of n = Suc (blocks_of (n - 512))"
  by (cases "n \<le> 512") (auto simp: blocks_of_def div_nat_eqI le_div_geq)

lemma appended_trans:
  assumes "appended s i n b s1" "appended s1 i m c s'"
  shows "appended s i (n + m) (b + c) s'"
  using assms by (auto simp: appended_def enlarged_def)

lemma append_file_fits:
  assumes "mkok s" "unat inum \<le> 101" "unat (di_size (ino s (unat inum))) + length p \<le> 159 * 512"
    "p \<noteq> [] \<longrightarrow> unat (di_size (ino s (unat inum))) mod 512 = 0"
    "unat (usedblocks s) + spare (ino s (unat inum)) + blocks_of (length p) \<le> 2048"
  shows "\<exists>s'. append_file inum p s = Inr s' \<and> appended s (unat inum) (length p) (blocks_of (length p)) s'"
  using assms
proof (induction inum p s rule: append_file.induct)
  case (1 inum p s)
  show ?case
  proof (cases "p = []")
    case True
    then show ?thesis using "1.prems" by (subst append_file.simps) (simp add: appended_def enlarged_def blocks_of_def)
  next
    case False
    let ?sz = "unat (di_size (ino s (unat inum)))" and ?n = "min (length p) 512"
    have r: "rounds ?sz ?n = 1"
      using "1.prems"(4) False by (cases "length p \<le> 512") (auto simp: rounds_def div_nat_eqI Suc_le_eq)
    have nb: "blocks_of (length p) = Suc (blocks_of (length p - 512))" using False by (intro blocks_of_step) simp
    have "?sz + ?n \<le> 159 * 512" using "1.prems"(3) by linarith
    then obtain s1 where s1: "iappend inum (take 512 p) s = Inr s1" "appended s (unat inum) ?n 1 s1"
      using iappend_fits [OF "1.prems"(1,2), of "take 512 p"] "1.prems"(3,5) r nb by (auto simp: min.commute)
    have sz: "unat (di_size (ino s1 (unat inum))) = ?sz + ?n" using s1(2) by (simp add: appended_def enlarged_def)
    have tot: "?n + (length p - 512) = length p" "?sz + ?n + (length p - 512) \<le> 159 * 512"
      using "1.prems"(3) by (simp_all add: min_def)
    have "drop 512 p \<noteq> [] \<Longrightarrow> ?n = 512" by simp
    then obtain s' where s': "append_file inum (drop 512 p) s1 = Inr s'"
        "appended s1 (unat inum) (length p - 512) (blocks_of (length p - 512)) s'"
      using "1.IH" [OF False s1(1)] s1(2) sz nb tot "1.prems"(2-5) False by (auto simp: appended_def)
    have "appended s (unat inum) (?n + (length p - 512)) (1 + blocks_of (length p - 512)) s'"
      by (rule appended_trans [OF s1(2) s'(2)])
    then show ?thesis using False s1(1) s'(1) nb tot by (subst append_file.simps) simp
  qed
qed

text \<open>A directory entry has 16 bytes and never crosses a block.\<close>

definition name_ok :: "byte list \<Rightarrow> bool" where
  "name_ok path \<longleftrightarrow> 47 \<in> set path \<and> length (takeWhile (\<lambda>c. c \<noteq> 47) (rev path)) < DIRSIZ"

lemma add_entry_fits:
  assumes "mkok s" "unat root \<le> 101" "unat (di_size (ino s (unat root))) = 16 * k" "k \<le> 200" "length name < DIRSIZ"
    "unat (usedblocks s) + spare (ino s (unat root)) < 2048"
  shows "\<exists>s'. add_entry root inum name s = Inr s' \<and> appended s (unat root) 16 1 s'"
proof -
  obtain de where de: "dirent_bytes inum name = Inr de" "length de = 16" using assms(5) by (simp add: dirent_bytes_def)
  have m: "16 * k mod 512 = 16 * (k mod 32)" using mult_mod_right [of 16 k 32] by simp
  have "k mod 32 \<le> 31" by simp
  then have "16 * k mod 512 \<le> 496" unfolding m by linarith
  then have "rounds (16 * k) 16 = 1" by (simp add: rounds_def div_nat_eqI)
  then show ?thesis
    using iappend_fits [OF assms(1,2), of de] de assms(3-) by (auto simp: add_entry_def)
qed

text \<open>
  What a list of files takes: a block for the entry of each of them at most, its blocks, and an
  indirect block.
\<close>

definition fsize :: "byte list \<times> byte list option \<Rightarrow> nat" where
  "fsize f = (case snd f of None \<Rightarrow> 0 | Some p \<Rightarrow> length p)"

definition cost :: "(byte list \<times> byte list option) list \<Rightarrow> nat" where
  "cost fs = (\<Sum>f \<leftarrow> fs. 2 + blocks_of (fsize f))"

lemma contents_fit:
  assumes "mkok s" "unat inum \<le> 101" "di_size (ino s (unat inum)) = 0" "fsize f \<le> 159 * 512"
    "unat (usedblocks s) + spare (ino s (unat inum)) + blocks_of (fsize f) \<le> 2048"
  shows "\<exists>s'. (case snd f of None \<Rightarrow> Inr s | Some p \<Rightarrow> append_file inum p s) = Inr s' \<and>
    appended s (unat inum) (fsize f) (blocks_of (fsize f)) s'"
proof (cases "snd f")
  case None
  then show ?thesis using assms(1) by (simp add: appended_def enlarged_def fsize_def)
next
  case (Some p)
  then show ?thesis using append_file_fits [OF assms(1,2), of p] assms(3-) by (simp add: fsize_def)
qed

text \<open>One file of the command line: its inode is allocated, named in the root and filled.\<close>

lemma add_file_fits:
  assumes "mkok s" "unat (freeinode s) \<le> 101" "1 < unat (freeinode s)"
    "unat (di_size (ino s 1)) = 16 * k" "k < 200" "name_ok (fst f)" "fsize f \<le> 159 * 512"
    "unat (usedblocks s) + spare (ino s 1) + 2 + blocks_of (fsize f) \<le> 2048"
  shows "\<exists>s'. add_files 1 (f # fs) s = add_files 1 fs s' \<and> mkok s' \<and> unat (freeinode s') = Suc (unat (freeinode s)) \<and>
    (\<forall>j < unat (freeinode s). j \<noteq> 1 \<longrightarrow> ino s' j = ino s j) \<and> enlarged (ino s 1) 16 (ino s' 1) \<and>
    di_type (ino s' (unat (freeinode s))) = T_FILE \<and> unat (di_size (ino s' (unat (freeinode s)))) = fsize f \<and>
    unat (usedblocks s') + spare (ino s' 1) \<le> unat (usedblocks s) + spare (ino s 1) + 2 + blocks_of (fsize f)"
proof -
  let ?i = "unat (freeinode s)"
  obtain path contents where f: "f = (path, contents)" by fastforce
  have i: "?i \<le> 101" "?i \<noteq> 1" using assms by simp_all
  obtain s1 where s1: "mk_ialloc T_FILE s = Inr (freeinode s, s1)" "mkok s1" "usedblocks s1 = usedblocks s" "freeinode s1 = freeinode s + 1"
      "\<forall>j. ino s1 j = (if j = ?i then new_inode T_FILE else ino s j)"
    using mk_ialloc_eq [OF assms(1) i(1)] by blast
  obtain name where name: "base_name path = Inr name" "length name < DIRSIZ"
    using assms(6) by (auto simp: f name_ok_def base_name_def)
  obtain s2 where s2: "add_entry 1 (freeinode s) name s1 = Inr s2" "appended s1 1 16 1 s2"
    using add_entry_fits [OF s1(2), of 1 k name "freeinode s"] s1 i assms name(2) by auto
  have i2: "ino s2 ?i = new_inode T_FILE" "mkok s2" using s2(2) s1(5) i by (auto simp: appended_def)
  have sp: "spare (new_inode T_FILE) = 1" "di_size (new_inode T_FILE) = 0" by (simp_all add: spare_def new_inode_def)
  have u2: "unat (usedblocks s2) + spare (ino s2 1) \<le> unat (usedblocks s) + spare (ino s 1) + 1" using s2(2) s1 i by (simp add: appended_def)
  then obtain s3 where s3: "(case contents of None \<Rightarrow> Inr s2 | Some p \<Rightarrow> append_file (freeinode s) p s2) = Inr s3"
      "appended s2 ?i (fsize f) (blocks_of (fsize f)) s3"
    using contents_fit [OF i2(2) i(1), of f] i2 sp assms(7,8) by (auto simp: f)
  have "add_files 1 (f # fs) s = add_files 1 fs s3" using s1(1) name(1) s2(1) s3(1) by (simp add: f)
  moreover have "mkok s3" "unat (freeinode s3) = Suc ?i" using s3(2) s2(2) s1(4) i by (simp_all add: appended_def unat_Suc)
  moreover have "\<forall>j < ?i. j \<noteq> 1 \<longrightarrow> ino s3 j = ino s j" using s3(2) s2(2) s1(5) i by (simp add: appended_def)
  moreover have "ino s3 1 = ino s2 1" "enlarged (ino s 1) 16 (ino s2 1)" using s3(2) s2(2) s1(5) i by (simp_all add: appended_def)
  moreover have "di_type (ino s3 ?i) = T_FILE" "unat (di_size (ino s3 ?i)) = fsize f"
    using s3(2) i2(1) by (simp_all add: appended_def enlarged_def new_inode_def)
  moreover have "unat (usedblocks s3) \<le> unat (usedblocks s2) + 1 + blocks_of (fsize f)" using s3(2) i2(1) sp by (simp add: appended_def)
  ultimately show ?thesis using u2 by (intro exI [where x = s3]) simp
qed

lemma add_files_fits:
  assumes "mkok s" "unat (freeinode s) + length fs \<le> 102" "1 < unat (freeinode s)"
    "unat (di_size (ino s 1)) = 16 * k" "k + length fs \<le> 200"
    "\<forall>f \<in> set fs. name_ok (fst f) \<and> fsize f \<le> 159 * 512"
    "unat (usedblocks s) + spare (ino s 1) + cost fs \<le> 2048"
  shows "\<exists>s'. add_files 1 fs s = Inr s' \<and> di_type (ino s' 1) = di_type (ino s 1) \<and> unat (di_size (ino s' 1)) = 16 * (k + length fs) \<and>
    (\<forall>j < length fs. di_type (ino s' (unat (freeinode s) + j)) = T_FILE \<and>
       unat (di_size (ino s' (unat (freeinode s) + j))) = fsize (fs ! j)) \<and>
    (\<forall>j < unat (freeinode s). j \<noteq> 1 \<longrightarrow> ino s' j = ino s j) \<and>
    unat (usedblocks s') + spare (ino s' 1) \<le> unat (usedblocks s) + spare (ino s 1) + cost fs"
  using assms
proof (induction fs arbitrary: s k)
  case (Cons f fs)
  let ?i = "unat (freeinode s)"
  have c: "cost (f # fs) = 2 + blocks_of (fsize f) + cost fs" by (simp add: cost_def)
  obtain s3 where s3: "add_files 1 (f # fs) s = add_files 1 fs s3" "mkok s3" "unat (freeinode s3) = Suc ?i"
      "\<forall>j < ?i. j \<noteq> 1 \<longrightarrow> ino s3 j = ino s j" "enlarged (ino s 1) 16 (ino s3 1)"
      "di_type (ino s3 ?i) = T_FILE" "unat (di_size (ino s3 ?i)) = fsize f"
      "unat (usedblocks s3) + spare (ino s3 1) \<le> unat (usedblocks s) + spare (ino s 1) + 2 + blocks_of (fsize f)"
    using add_file_fits [of s k f fs] Cons.prems c by fastforce
  have "\<exists>s'. add_files 1 fs s3 = Inr s' \<and> di_type (ino s' 1) = di_type (ino s3 1) \<and> unat (di_size (ino s' 1)) = 16 * (Suc k + length fs) \<and>
    (\<forall>j < length fs. di_type (ino s' (unat (freeinode s3) + j)) = T_FILE \<and>
       unat (di_size (ino s' (unat (freeinode s3) + j))) = fsize (fs ! j)) \<and>
    (\<forall>j < unat (freeinode s3). j \<noteq> 1 \<longrightarrow> ino s' j = ino s3 j) \<and>
    unat (usedblocks s') + spare (ino s' 1) \<le> unat (usedblocks s3) + spare (ino s3 1) + cost fs"
    using s3(2,3,5,8) Cons.prems c by (intro Cons.IH) (auto simp: enlarged_def)
  then obtain s' where s': "add_files 1 fs s3 = Inr s'" "di_type (ino s' 1) = di_type (ino s3 1)" "unat (di_size (ino s' 1)) = 16 * (Suc k + length fs)"
      "\<forall>j < length fs. di_type (ino s' (Suc ?i + j)) = T_FILE \<and> unat (di_size (ino s' (Suc ?i + j))) = fsize (fs ! j)"
      "\<forall>j < Suc ?i. j \<noteq> 1 \<longrightarrow> ino s' j = ino s3 j"
      "unat (usedblocks s') + spare (ino s' 1) \<le> unat (usedblocks s3) + spare (ino s3 1) + cost fs"
    unfolding s3(3) by blast
  have "di_type (ino s' (?i + j)) = T_FILE \<and> unat (di_size (ino s' (?i + j))) = fsize ((f # fs) ! j)" if "j < length (f # fs)" for j
    using that s'(4,5) s3(6,7) Cons.prems(3) by (cases j) auto
  moreover have "unat (usedblocks s') + spare (ino s' 1) \<le> unat (usedblocks s) + spare (ino s 1) + cost (f # fs)"
    using s'(6) s3(8) c by simp
  ultimately show ?case
    using s' s3(1,4,5) by (intro exI [where x = s']) (auto simp: enlarged_def)
qed (simp add: cost_def)

section \<open>The program\<close>

lemma mk_main_eq:
  "mk_main after files =
     bindR (mk_ialloc T_DIR (mk_start after)) (\<lambda>(rootino, s1).
        if rootino \<noteq> 1 then Inl (Panic ''assert'')
        else bindR (add_entry rootino rootino [46] s1) (\<lambda>s2.
          bindR (add_entry rootino rootino [46, 46] s2) (\<lambda>s3.
          bindR (add_files rootino files s3) (\<lambda>s4. mk_balloc (unat (usedblocks s4)) s4))))"
  by (simp add: mk_main_def mk_start_def)

lemma sect_bitmap: "sect (wsect 36 d s) n = (if n = 36 then cut d else sect s n)"
  by (simp add: sect_wsect)

lemma bitmap_ok:
  assumes "mkok s"
  shows "mkok (wsect 36 d s)" and "ino (wsect 36 d s) j = (if j div 3 = 34 then ino (wsect 36 d s) j else ino s j)"
proof -
  have i: "ino (wsect 36 d s) j = ino s j" if "j div 3 \<noteq> 34" for j using that by (simp add: inode_of_def sect_bitmap)
  then show "ino (wsect 36 d s) j = (if j div 3 = 34 then ino (wsect 36 d s) j else ino s j)" by simp
  obtain ow where wf: "mkwf ow s" and u: "unat (usedblocks s) \<le> 2048" using assms by (auto simp: mkok_def)
  have "ino (wsect 36 d s) j = ino s j" if "j \<le> 101" for j using i div_le_mono [OF that, of 3] by simp
  moreover have "flen (wsect 36 d s) = flen s" using wf by (intro flen_wsect) (simp_all add: mkwf_def)
  ultimately have "mkwf ow (wsect 36 d s)" using wf unfolding mkwf_def by (simp add: sect_bitmap)
  then show "mkok (wsect 36 d s)" using u by (auto simp: mkok_def)
qed

lemma mark_used_bitmap: "bitmap_free (mark_used n) b \<longleftrightarrow> n \<le> b"
proof (induction n)
  case (Suc n)
  have "mark_used (Suc n) = set_bit8 (mark_used n) n" by (simp add: set_bit8_def)
  then show ?case using Suc by (auto simp: bitmap_set)
qed (simp add: bitmap_free_def)

text \<open>What \<^verbatim>\<open>mkfs\<close> leaves: the invariant, and a bitmap that marks the blocks in use.\<close>

lemma mk_main_image:
  assumes "mk_main after files = Inr m" and "length files \<le> 100"
  shows "mkok m \<and> sect m 36 = cut (mark_used (unat (usedblocks m)))"
proof -
  obtain s1 where s1: "mk_ialloc T_DIR (mk_start after) = Inr (1, s1)" "mkok s1" "freeinode s1 = 2"
    using mk_ialloc_eq [OF mk_start_ok, of after T_DIR] by (auto simp: mk_start_simps)
  obtain s2 s3 s4 where r: "add_entry 1 1 [46] s1 = Inr s2" "add_entry 1 1 [46, 46] s2 = Inr s3" "add_files 1 files s3 = Inr s4"
      "mk_balloc (unat (usedblocks s4)) s4 = Inr m"
    using assms(1) s1(1) by (auto simp: mk_main_eq result_simps)
  have 2: "mkok s2" "freeinode s2 = 2" using add_entry_ok [OF s1(2) _ r(1)] s1(3) by auto
  have 3: "mkok s3" "freeinode s3 = 2" using add_entry_ok [OF 2(1) _ r(2)] 2(2) by auto
  have "mkok s4" using add_files_ok [OF 3(1) _ _ r(3)] 3(2) assms(2) by simp
  moreover have "m = wsect 36 (mark_used (unat (usedblocks s4))) s4"
    using r(4) by (simp add: mk_balloc_def split: if_splits)
  ultimately show ?thesis using bitmap_ok by (simp add: sect_bitmap)
qed

lemma mk_main_fits:
  assumes "length files \<le> 100" and "\<forall>f \<in> set files. name_ok (fst f) \<and> fsize f \<le> 159 * 512"
    and "cost files \<le> 2008"
  shows "\<exists>m ow. mk_main after files = Inr m \<and> mkwf ow m \<and> unat (usedblocks m) \<le> 40 + cost files \<and>
    di_type (ino m 1) = T_DIR \<and> unat (di_size (ino m 1)) = 16 * (length files + 2) \<and>
    (\<forall>j < length files. di_type (ino m (j + 2)) = T_FILE \<and> unat (di_size (ino m (j + 2))) = fsize (files ! j))"
proof -
  obtain s1 where s1: "mk_ialloc T_DIR (mk_start after) = Inr (1, s1)" "mkok s1" "freeinode s1 = 2" "usedblocks s1 = 37"
      "ino s1 1 = new_inode T_DIR"
    using mk_ialloc_eq [OF mk_start_ok, of after T_DIR] by (auto simp: mk_start_simps)
  have n: "spare (new_inode T_DIR) = 1" "di_size (new_inode T_DIR) = 0" "di_type (new_inode T_DIR) = T_DIR"
    by (simp_all add: spare_def new_inode_def)
  obtain s2 where s2: "add_entry 1 1 [46] s1 = Inr s2" "appended s1 1 16 1 s2"
    using add_entry_fits [OF s1(2), of 1 0 "[46]" 1] s1 n by auto
  have sz2: "unat (di_size (ino s2 1)) = 16 * 1" "di_type (ino s2 1) = T_DIR" "unat (usedblocks s2) + spare (ino s2 1) \<le> 39"
    using s2(2) s1 n by (simp_all add: appended_def enlarged_def)
  obtain s3 where s3: "add_entry 1 1 [46, 46] s2 = Inr s3" "appended s2 1 16 1 s3"
    using add_entry_fits [of s2 1 1 "[46, 46]" 1] s2(2) sz2 by (auto simp: appended_def)
  have sz3: "unat (di_size (ino s3 1)) = 16 * 2" "di_type (ino s3 1) = T_DIR" "unat (usedblocks s3) + spare (ino s3 1) \<le> 40"
    and ok3: "mkok s3" "freeinode s3 = 2"
    using s3(2) s2(2) s1(3) sz2 by (simp_all add: appended_def enlarged_def)
  obtain s4 where s4: "add_files 1 files s3 = Inr s4" "di_type (ino s4 1) = T_DIR" "unat (di_size (ino s4 1)) = 16 * (2 + length files)"
      "\<forall>j < length files. di_type (ino s4 (2 + j)) = T_FILE \<and> unat (di_size (ino s4 (2 + j))) = fsize (files ! j)"
      "unat (usedblocks s4) + spare (ino s4 1) \<le> 40 + cost files"
    using add_files_fits [OF ok3(1), of files 2] ok3 sz3 assms by auto
  have ok4: "mkok s4" using add_files_ok [OF ok3(1) _ _ s4(1)] ok3(2) assms(1) by simp
  let ?m = "wsect 36 (mark_used (unat (usedblocks s4))) s4"
  have "mk_main after files = Inr ?m"
    using s1(1) s2(1) s3(1) s4(1) ok4 by (simp add: mk_main_eq mk_balloc_def mkok_def)
  moreover have "ino ?m j = ino s4 j" if "j \<le> 101" for j
    using bitmap_ok(2) [OF ok4, of "mark_used (unat (usedblocks s4))" j] div_le_mono [OF that, of 3] by simp
  moreover have "mkok ?m" by (rule bitmap_ok(1) [OF ok4])
  ultimately show ?thesis using s4 assms(1) by (auto simp: mkok_def add.commute)
qed

section \<open>Properties\<close>

text \<open>
  C21. \<^verbatim>\<open>mkfs\<close> makes an image of every list of files that fits: at most 100 files, with names that have a
  slash and at most 13 bytes after the last one, none longer than the 159 blocks an inode can address,
  and blocks enough for them (the directory entries, the contents and the indirect blocks counted
  generously). The image is well formed: no block belongs to two slots of the inodes and indirect
  blocks, all of them lie in the data area, and the blocks beyond \<open>usedblocks\<close> are empty. The first
  inode is the root directory with an entry for itself, its parent and every file, and each file has
  an inode of its own, of the length of its contents.
\<close>

theorem mkfs_makes_image:
  assumes "length files \<le> 100" and "\<forall>f \<in> set files. name_ok (fst f) \<and> fsize f \<le> 159 * 512"
    and "cost files \<le> 2008"
  shows "\<exists>m ow. mk_main after files = Inr m \<and> mkwf ow m \<and> unat (usedblocks m) \<le> 40 + cost files \<and>
    di_type (ino m 1) = T_DIR \<and> unat (di_size (ino m 1)) = 16 * (length files + 2) \<and>
    (\<forall>j < length files. di_type (ino m (j + 2)) = T_FILE \<and> unat (di_size (ino m (j + 2))) = fsize (files ! j))"
  by (rule mk_main_fits [OF assms])

definition demo_files :: "(byte list \<times> byte list option) list" where
  "demo_files = [([98, 47, 97], Some [1, 2, 3]), ([47, 98], None)]"

theorem mkfs_makes_image_witness:
  "\<exists>m ow. mk_main (\<lambda>_. 0) demo_files = Inr m \<and> mkwf ow m \<and> unat (di_size (ino m 1)) = 64 \<and> unat (di_size (ino m 2)) = 3"
proof -
  have "length demo_files \<le> 100" "\<forall>f \<in> set demo_files. name_ok (fst f) \<and> fsize f \<le> 159 * 512" "cost demo_files \<le> 2008"
    by (simp_all add: demo_files_def name_ok_def fsize_def cost_def blocks_of_def)
  from mkfs_makes_image [OF this, of "\<lambda>_. 0"] obtain m ow where m: "mk_main (\<lambda>_. 0) demo_files = Inr m" "mkwf ow m"
      "unat (di_size (ino m 1)) = 16 * (length demo_files + 2)"
      "\<forall>j < length demo_files. di_type (ino m (j + 2)) = T_FILE \<and> unat (di_size (ino m (j + 2))) = fsize (demo_files ! j)"
    by blast
  from m(4) [rule_format, of 0] m(3) have "unat (di_size (ino m 1)) = 64 \<and> unat (di_size (ino m 2)) = 3"
    by (simp add: demo_files_def fsize_def numeral_2_eq_2)
  then show ?thesis using m(1,2) by blast
qed

lemma image_load:
  assumes "\<forall>n i. i < 512 \<longrightarrow> disk b n i = fimg m (512 * unat n + i)" "a + 4 \<le> 512"
  shows "load32 (disk b n) a = load32 (sect m (unat n)) a"
  by (rule load32_cong) (use assms in \<open>auto simp: sect_def cut_def\<close>)

text \<open>
  C22. The kernel goes on where \<^verbatim>\<open>mkfs\<close> stopped: on a card that holds an image made by the program, and
  has blocks left, the first \<^verbatim>\<open>balloc\<close> of the kernel returns the first block the program has not
  used, and changes no sector but the bitmap.
\<close>

theorem kernel_continues_image:
  assumes main: "mk_main after files = Inr m" and "length files \<le> 100" and "usedblocks m < 2048"
    and img: "\<forall>n i. i < 512 \<longrightarrow> disk b n i = fimg m (512 * unat n + i)" and "held b \<noteq> {..<length (bufs b)}"
  shows "37 \<le> usedblocks m \<and> (\<exists>b'. balloc dev b = Inr (usedblocks m, b') \<and> (\<forall>n. n \<noteq> 36 \<longrightarrow> disk b' n = disk b n))"
proof -
  obtain ow where wf: "mkwf ow m" and bm: "sect m 36 = cut (mark_used (unat (usedblocks m)))"
    using mk_main_image [OF assms(1,2)] by (auto simp: mkok_def)
  obtain i where ff: "first_free b i" using assms(5) first_free_iff by blast
  have sb: "sb_size (disk b 1) = 2048" "sb_ninodes (disk b 1) = 100"
    using wf image_load [OF img, of _ 1] by (simp_all add: sb_size_def sb_ninodes_def mkwf_def)
  have u: "unat (usedblocks m) < 2048" using assms(3) by (simp add: word_less_nat_alt)
  have bb: "BBLOCK (of_nat c) 100 = 36" if "c < 2048" for c
  proof -
    have "unat (BBLOCK (of_nat c) 100) = 36" using that unat_BBLOCK [of c 100] by simp
    then show ?thesis by (simp add: word_unat_eq_iff)
  qed
  have bit: "blk_free (disk b) 100 c \<longleftrightarrow> unat (usedblocks m) \<le> c" if "c < 2048" for c
  proof -
    have "c div 8 < 512" using that by (simp add: div_less_iff_less_mult)
    then have "disk b 36 (c mod 4096 div 8) = mark_used (unat (usedblocks m)) (c mod 4096 div 8)"
      using that img arg_cong [OF bm, of "\<lambda>d. d (c mod 4096 div 8)"] by (simp add: sect_def cut_def)
    then have "blk_free (disk b) 100 c \<longleftrightarrow> bitmap_free (mark_used (unat (usedblocks m))) (c mod 4096)"
      by (simp add: blk_free_def bb that bitmap_free_def)
    then show ?thesis using that by (simp add: mark_used_bitmap)
  qed
  have ok: "sb_ok (disk b)" by (simp add: sb_ok_def sb)
  have "balloc dev b = (let n = BBLOCK (of_nat (unat (usedblocks m))) (sb_ninodes (disk b 1));
      d = set_bit8 (disk b n) (unat (usedblocks m) mod 4096)
    in Inr (of_nat (unat (usedblocks m)), drop_buf i d (b\<lparr>disk := (disk b)(n := d)\<rparr>)))"
    by (rule balloc_eq [OF ff ok]) (use u bit sb in simp_all)
  moreover have "37 \<le> usedblocks m" using wf by (simp add: mkwf_def word_le_nat_alt)
  ultimately show ?thesis
    using bb [OF u] by (auto simp: sb Let_def drop_buf_def)
qed

theorem kernel_continues_image_witness:
  "\<exists>m b'. mk_main (\<lambda>_. 0) [] = Inr m \<and>
     balloc 1 ((demo_bio 2)\<lparr>disk := \<lambda>n i. fimg m (512 * unat n + i)\<rparr>) = Inr (usedblocks m, b')"
proof -
  have "length ([] :: (byte list \<times> byte list option) list) \<le> 100"
    "\<forall>f \<in> set ([] :: (byte list \<times> byte list option) list). name_ok (fst f) \<and> fsize f \<le> 159 * 512"
    "cost [] \<le> 2008"
    by (simp_all add: cost_def)
  from mk_main_fits [OF this, of "\<lambda>_. 0"] obtain m where m: "mk_main (\<lambda>_. 0) [] = Inr m" "unat (usedblocks m) \<le> 40"
    by (auto simp: cost_def)
  let ?b = "(demo_bio 2)\<lparr>disk := \<lambda>n i. fimg m (512 * unat n + i)\<rparr>"
  have "usedblocks m < 2048" using m(2) by (simp add: word_less_nat_alt)
  then show ?thesis
    using kernel_continues_image [OF m(1) _ _ _ demo_not_held, of "\<lambda>n i. fimg m (512 * unat n + i)" 1] m(1) by auto
qed

end
