(* ===== verification/Spec2Isabelle.thy ===== *)
theory Spec2Isabelle
  imports Boot Trap_Report Sched Fs_Inode Exec_Args Elf Sys_Cat Sd_Wait Sdhci_Card Mkfs_Main
begin

text \<open>
  A verification library for gcgos, a small operating system for the Raspberry Pi 4 (AArch64) in the
  manner of xv6: the kernel under \<^verbatim>\<open>src/kernel\<close> with \<^verbatim>\<open>src/include\<close>, the user programs and their library in
  \<^verbatim>\<open>src/user\<close>, and the program that makes the image of the file system, \<^verbatim>\<open>src/mkfs/mkfs.c\<close>.

  \<^bold>\<open>How the program is put together.\<close> A physical page allocator keeps its free list inside the free pages;
  page tables are built in pages it hands out. The process table holds processes, whose trap frames,
  page tables and user pages come from the allocator; a scheduler on every processor switches to
  them, and spinlocks protect the tables. A trap from user mode is saved in the trap frame and leads
  to a system call, to the serial port or to a yield. System calls work on open files, which are pipes
  or inodes; the file system works on sectors through block buffers, and these through the driver of the
  SD card. The image on the card is made on the host, by a program that shares the layout with the kernel.

  \<^bold>\<open>How it is modelled.\<close> Machine integers that are computed with are words of their width,
  also process ids and the counts of references; a signed one is read with \<open>sint\<close>, and where C leaves signed overflow undefined the word wraps, as the
  machine's addition does. A flag, the result of a call or a bounded loop variable of type \<^verbatim>\<open>int\<close> is an \<open>int\<close> or \<open>nat\<close>. The memory is one byte store, and the
  structures that live in it (the free list, page tables, trap frames, pipes, stacks) are read and
  written at the offsets the compiler gives them, so that structures that overlap in memory overlap in the
  model. Tables of the kernel (processes, buffers, inodes, open files) are lists, a pointer to an entry is an
  index. The state is a record that grows with the components:

    \<^item> \<open>pmem\<close> (memory and free list), \<open>pst\<close> (processes), \<open>bio\<close> (buffers, sectors), \<open>fs\<close> (inodes), \<open>con\<close>
      (console), \<open>fdt\<close> (open files), \<open>trapst\<close> (system registers);

  every operation is polymorphic in what later components add. An operation that can fail has a value of type
  \<open>result\<close>: \<open>Inl\<close> with a panic, an access through a null pointer or beyond an array, a variable that is read
  before it is written, a loop that never ends or a call that sleeps; \<open>Inr\<close> with the value and the new state.
  Code that is not C of the repository is an argument of the definitions that use it: the SD controller, the
  interrupt controller, the counter of the processor, the files given to \<^verbatim>\<open>mkfs\<close>, addresses the linker
  chooses. A user program is a function of the world outside its process and has the kernel as an argument; \<open>Sys_Cat\<close>
  puts the model of the kernel there. What a property needs of such an argument is a named predicate (\<open>sd_card\<close>, \<open>gic_ok\<close>, \<open>counts\<close>), with a
  concrete instance beside it.

  \<^bold>\<open>The theories.\<close>

    \<^item> \<open>Prelude\<close>: machine types, results, little-endian access to byte stores, page arithmetic, searching
      and copying; the interface \<open>step_invariant\<close> of a step relation and its invariant, which locks, the scheduler
      and the table of inodes implement. \<open>Mmio\<close>: structures of device registers and access to them.
    \<^item> \<open>Kalloc\<close> (\<^verbatim>\<open>kalloc.c\<close>): the allocator; the invariant \<open>kmem_inv\<close> of the free list, and the interface
      \<open>page_allocator\<close> its clients rely on.
    \<^item> \<open>Vm\<close> (\<^verbatim>\<open>vm.c\<close>, \<^verbatim>\<open>arm.h\<close>): page tables. \<open>Vm_Refine\<close>: the tables in memory as a tree and \<^verbatim>\<open>mappages\<close> as a
      change of a translation function. \<open>Vm_Frame\<close>: what building a table leaves alone. \<open>Kvm\<close>: the address
      space of the kernel that \<^verbatim>\<open>kvmmake\<close> implements.
    \<^item> \<open>Proc\<close>, \<open>Proc_Life\<close> (\<^verbatim>\<open>proc.c\<close>, \<^verbatim>\<open>proc.h\<close>): creation, fork, sleep and wakeup, wait, exit, kill.
      \<open>Fork\<close>: the address space a child gets. \<open>Spinlock\<close> (\<^verbatim>\<open>spinlock.c\<close>) and \<open>Sched\<close> (\<^verbatim>\<open>scheduler\<close>,
      \<^verbatim>\<open>sched\<close>): step relations of many processors, with invariants of every reachable state.
    \<^item> \<open>Bio\<close> (\<^verbatim>\<open>bio.c\<close>): buffers, and the interface \<open>block_buffers\<close>. \<open>Sdhci\<close> (\<^verbatim>\<open>sdhci.c\<close>): the driver of the
      card, in the state monad. \<open>Sdhci_Card\<close>: it implements the sectors of \<open>Bio\<close>. \<open>Sd_Init\<close>: its initialisation returns. \<open>Sd_Wait\<close>: its delays.
    \<^item> \<open>Fs\<close>, \<open>Fs_Name\<close> (\<^verbatim>\<open>fs.c\<close>, \<^verbatim>\<open>fs.h\<close>): blocks, inodes, file data, directories, paths. \<open>Fs_Alloc\<close>: the bitmap
      and the inode codec. \<open>Fs_Inode\<close>: one entry of the table per inode, over all sequences of operations.
      \<open>Fs_File\<close>: what \<^verbatim>\<open>readi\<close> and \<^verbatim>\<open>writei\<close> do with data.
    \<^item> \<open>Mkfs\<close> (\<^verbatim>\<open>mkfs.c\<close>), \<open>Mkfs_Image\<close> (the invariant of the image: every block has one owner), \<open>Mkfs_Main\<close>
      (the program as a whole, and the kernel on its image).
    \<^item> \<open>Console\<close> (\<^verbatim>\<open>console.c\<close>, \<^verbatim>\<open>pl011_uart.c\<close>), \<open>Pipe\<close> (\<^verbatim>\<open>pipe.c\<close>), \<open>Fd\<close> (\<^verbatim>\<open>fd.c\<close>, \<^verbatim>\<open>file.c\<close>), \<open>Exec\<close> (\<^verbatim>\<open>exec.c\<close>,
      \<^verbatim>\<open>elf.h\<close>), \<open>Syscall\<close> (\<^verbatim>\<open>syscall.c\<close>), \<open>Trap\<close> (\<^verbatim>\<open>trap.c\<close>, \<^verbatim>\<open>timer.c\<close>, \<^verbatim>\<open>forkret\<close>, \<^verbatim>\<open>kvminithart\<close>), \<open>Printf\<close>
      (\<^verbatim>\<open>printf.c\<close> of the kernel and of the user programs), \<open>Devices\<close> (\<^verbatim>\<open>gicv2.c\<close>, the set-up of the serial ports,
      \<^verbatim>\<open>mini_uart.c\<close>), \<open>Boot\<close> (\<^verbatim>\<open>main.c\<close>). \<open>Exec_Args\<close>: the arguments on the stack of a new program. \<open>Trap_Report\<close>: the
      report of unexpected exceptions. \<open>Elf\<close> (\<^verbatim>\<open>elf.c\<close>): the unused loader.
    \<^item> \<open>Ulib\<close> (\<^verbatim>\<open>ulib.c\<close> and the output of \<^verbatim>\<open>user/printf.c\<close>): programs, their calls, \<^verbatim>\<open>gets\<close> and \<^verbatim>\<open>puts\<close>. \<open>Progs\<close>: \<^verbatim>\<open>init\<close>, \<^verbatim>\<open>sh\<close>,
      \<^verbatim>\<open>cat\<close>, \<^verbatim>\<open>echo\<close> and the test programs, and the interface \<open>file_kernel\<close>
      that \<^verbatim>\<open>cat\<close> relies on. \<open>Sys_Write\<close>: a system call from the trap to the device. \<open>Sys_Cat\<close>: the kernel as such a \<open>file_kernel\<close>,
      and \<^verbatim>\<open>cat\<close> on it.

  \<^bold>\<open>What the lemmas show.\<close> Memory: the free list holds every page once, pages handed out differ, mapping
  changes exactly the translations of its range, in one address space only, the kernel's address space is the one
  specified, and a forked child has a private copy of its parent's pages. The start: \<^verbatim>\<open>kernel_main\<close> reaches the scheduler with
  translation on and one process to run. Processes: at most one processor is in a critical section, no
  process runs on two processors, a new process has a fresh address space, exit closes the files and wakes a waiting parent, wait
  frees what the child held, a new program finds its arguments. Storage: a held buffer is not handed out again, the search for a buffer ends
  if and only if it meets a free one, a block is modified alone, the
  bitmap allocator takes the first free block and gives it back, an inode has one entry of the table (in runs short enough for its count of references), what is
  written within a block is read back, the driver implements the sectors, \<^verbatim>\<open>mkfs\<close> makes well-formed images and
  the kernel continues them. Across the layers: a \<^verbatim>\<open>write\<close> to the console sends the user's bytes and returns to the
  program, \<^verbatim>\<open>cat\<close> prints a small file. Devices and output: typed lines are read up to the end of the ring, \<^verbatim>\<open>gets\<close> reads one line, pipes are freed once, numbers print to
  what they mean, the interrupts of serial port and timer are enabled. Several statements describe what the code does where
  it is not what it means to do: an array of the kernel that \<^verbatim>\<open>cat\<close> overruns, gaps in \<^verbatim>\<open>readi\<close>, pipes that carry a pointer, nested locks that enable
  interrupts, a schedule that waits for a running process, block addresses that are not written back,
  arguments of 16 bytes that are misplaced, a console that repeats a key at the end of its ring.

  \<^bold>\<open>Bounds and fuel.\<close> Every definition is total. Loops over tables and counters are structural recursions or
  have a measure. The two loops of the kernel with no bound of their own, in \<^verbatim>\<open>sd_init\<close> (\<open>scr_loop\<close>) and in
  \<^verbatim>\<open>mini_uart_send_char\<close>, take fuel: the first never ends on a controller without data, and \<open>2 * n\<close> rounds are enough on one that delivers each
  word it announces within \<open>n\<close> looks; of the second nothing is claimed. The loops of \<^verbatim>\<open>init\<close>, \<^verbatim>\<open>sh\<close> and \<^verbatim>\<open>cat\<close> take a number of rounds: two rounds are enough for \<^verbatim>\<open>cat\<close> with
  a small file. The loop of \<^verbatim>\<open>wait_msec\<close> is a partial function, proved to return; so is that of \<^verbatim>\<open>getblk\<close>, which returns or not depending on what other
  processors do. The counters of the driver of the card (500000 and 1000000 microseconds) are kept as they are.

  \<^bold>\<open>What is not modelled.\<close> Assembly (\<^verbatim>\<open>boot.S\<close>, \<^verbatim>\<open>trampoline.S\<close>, \<^verbatim>\<open>kernelvec.S\<close>, \<^verbatim>\<open>swtch.S\<close>): it saves and restores
  registers, which the model has as the fields of trap frames and contexts. The wait of the serial port for room in its FIFO. Caches, the barriers and the
  translation buffer: operations of different processors interleave statement by statement. Messages the kernel
  prints about itself, but for \<^verbatim>\<open>printf\<close> and the report of exceptions: what is said of the output of the serial port leaves them out. Transfers of the card that fail are in the driver and not in \<open>Bio\<close>, which does not
  look at them.
\<close>

end
